(* ===== verification/Prelude.thy ===== *)
theory Prelude
  imports Main "HOL-Library.Word" "HOL-Library.Monad_Syntax" "HOL-Library.Multiset"
begin

text \<open>
  The prelude of the development: the machine integers of the program, the reading of a
  Go panic (or a loop that does not end) as \<open>None\<close>, the lemmas on \<open>unat\<close>, lists and
  finite sums the component theories share, and the locale \<open>contract_system\<close> in which
  the lifting of a one-step contract to whole runs is proved once.
\<close>

section \<open>Machine integers\<close>

type_synonym u64 = "64 word"
type_synonym u32 = "32 word"

text \<open>\<open>math.MaxUint64\<close>, also written \<open>^uint64(0)\<close> in the source.\<close>

definition MaxUint64 :: u64 where
  "MaxUint64 = 18446744073709551615"

named_theorems u64_simps \<open>moving comparisons and arithmetic of 64-bit words to nat\<close>
named_theorems frame_simps \<open>fields that an operation leaves alone\<close>

lemma unat_MaxUint64: "unat MaxUint64 = 2 ^ 64 - 1"
  by (simp add: MaxUint64_def)

lemma unat_less_2_64 [simp]: "unat (x :: u64) < 18446744073709551616"
  using unsigned_less [of x] by simp

lemma le_MaxUint64 [simp]: "(x :: u64) \<le> MaxUint64"
  using unat_less_2_64 [of x] by (simp add: word_le_nat_alt unat_MaxUint64 del: unat_less_2_64)

lemma unat_add_exact:
  "unat (a :: u64) + unat b < 2 ^ 64 \<Longrightarrow> unat (a + b) = unat a + unat b"
  by (simp add: unat_word_ariths)

lemma unat_diff_exact: "(b :: u64) \<le> a \<Longrightarrow> unat (a - b) = unat a - unat b"
  by (simp add: unat_sub)

lemmas u64_order = word_le_nat_alt word_less_nat_alt

declare word_le_nat_alt [u64_simps] word_less_nat_alt [u64_simps]

lemma u64_neq_0: "(x :: u64) \<noteq> 0 \<longleftrightarrow> 0 < unat x"
  by (metis neq0_conv unat_eq_zero)

lemma unat_Suc_exact: "unat (a :: u64) < 2 ^ 64 - 1 \<Longrightarrow> unat (a + 1) = Suc (unat a)"
  by (simp add: unat_word_ariths)

lemma unat_pred_exact: "(a :: u64) \<noteq> 0 \<Longrightarrow> unat (a - 1) = unat a - 1"
  by (rule unat_minus_one)

lemma unat_of_nat_exact: "n < 2 ^ 64 \<Longrightarrow> unat (of_nat n :: u64) = n"
  by (simp add: unat_of_nat)

lemma uint_sum_bound:
  "uint (a :: u64) + uint b + uint c < 2 ^ 64 \<longleftrightarrow> unat a + unat b + unat c < 2 ^ 64"
  using of_nat_less_iff [of "unat a + unat b + unat c" "2 ^ 64", where 'a = int] by simp

section \<open>Lists\<close>

lemma distinct_remove1_set: "distinct xs \<Longrightarrow> set (remove1 x xs) = set xs - {x}"
  by simp

lemma hd_in_set_iff: "xs \<noteq> [] \<Longrightarrow> hd xs \<in> set xs"
  by simp

lemma sum_list_drop_le: "sum_list (drop k xs) \<le> sum_list (xs :: nat list)"
proof -
  have "sum_list xs = sum_list (take k xs) + sum_list (drop k xs)"
    by (metis append_take_drop_id sum_list_append)
  then show ?thesis by simp
qed

lemma sum_list_take_drop: "sum_list (take k xs) + sum_list (drop k xs) = sum_list (xs :: nat list)"
  by (metis append_take_drop_id sum_list_append)

section \<open>Finite sums over an initial segment of references\<close>

lemma sum_update_lessThan:
  fixes f :: "nat \<Rightarrow> nat"
  assumes "i < n"
  shows "(\<Sum>k<n. (f(i := v)) k) + f i = (\<Sum>k<n. f k) + v"
proof -
  have "(\<Sum>k<n. (f(i := v)) k) = v + (\<Sum>k \<in> {..<n} - {i}. f k)"
    using assms by (subst sum.remove [of _ i]) (auto intro: sum.cong)
  moreover have "(\<Sum>k<n. f k) = f i + (\<Sum>k \<in> {..<n} - {i}. f k)"
    using assms by (subst sum.remove [of _ i]) auto
  ultimately show ?thesis by simp
qed

lemma member_le_sum_lessThan:
  fixes f :: "nat \<Rightarrow> nat"
  shows "i < n \<Longrightarrow> f i \<le> (\<Sum>k<n. f k)"
  by (simp add: member_le_sum)

section \<open>Panics, and runs of a component under its contract\<close>

text \<open>
  An operation that can panic, or whose loop may not end, has type \<open>'s \<Rightarrow> 's option\<close>:
  \<open>None\<close> is the panic or the divergence. A component is used by a sequence of events
  \<open>'e\<close>; \<open>pre e s\<close> is what the caller promises when it issues \<open>e\<close> in state \<open>s\<close>.
\<close>

fun run :: "('e \<Rightarrow> 's \<Rightarrow> 's option) \<Rightarrow> 'e list \<Rightarrow> 's \<Rightarrow> 's option" where
  "run step [] s = Some s"
| "run step (e # es) s = Option.bind (step e s) (run step es)"

fun admissible :: "('e \<Rightarrow> 's \<Rightarrow> 's option) \<Rightarrow> ('e \<Rightarrow> 's \<Rightarrow> bool) \<Rightarrow> 'e list \<Rightarrow> 's \<Rightarrow> bool" where
  "admissible step pre [] s = True"
| "admissible step pre (e # es) s =
     (pre e s \<and> (case step e s of None \<Rightarrow> True | Some s' \<Rightarrow> admissible step pre es s'))"

lemma run_append: "run step (xs @ ys) s = Option.bind (run step xs s) (run step ys)"
  by (induction xs arbitrary: s) (auto split: bind_splits)

locale contract_system =
  fixes step :: "'e \<Rightarrow> 's \<Rightarrow> 's option"
    and pre :: "'e \<Rightarrow> 's \<Rightarrow> bool"
    and invar :: "'s \<Rightarrow> bool"
  assumes step_ok: "invar s \<Longrightarrow> pre e s \<Longrightarrow> \<exists>s'. step e s = Some s' \<and> invar s'"
begin

lemma run_ok: "invar s \<Longrightarrow> admissible step pre es s \<Longrightarrow> \<exists>s'. run step es s = Some s' \<and> invar s'"
proof (induction es arbitrary: s)
  case Nil
  then show ?case by simp
next
  case (Cons e es)
  from Cons.prems obtain s' where s': "step e s = Some s'" "invar s'"
    using step_ok by force
  with Cons.prems have "admissible step pre es s'" by simp
  with s' Cons.IH show ?case by simp
qed

lemma run_invar: "invar s \<Longrightarrow> admissible step pre es s \<Longrightarrow> run step es s = Some t \<Longrightarrow> invar t"
  using run_ok by fastforce

end

end
