(* ===== verification/Events.thy ===== *)
theory Events
  imports Prelude
begin

text \<open>
  \<open>event.go\<close>: a level-triggered event with a boolean, a condition variable and the list
  of one-slot channels of the \<open>WaitFor\<close> calls that are parked on it. A send on a closed
  channel panics and a send on a full one blocks for ever while the mutex is held: both
  are \<open>None\<close>. \<open>WaitFor\<close> holds the mutex twice, to park and to clean up, and waits in
  between; the model has one definition for each part, and \<open>event_step\<close> interleaves
  them with the other operations in every order.
\<close>

section \<open>Channels of capacity one\<close>

record chan =
  ch_len :: nat
  ch_closed :: bool

definition chan_make :: chan where
  "chan_make = \<lparr>ch_len = 0, ch_closed = False\<rparr>"

definition chan_send :: "chan \<Rightarrow> chan option" where
  "chan_send c = (if ch_closed c \<or> ch_len c \<ge> 1 then None else Some (c\<lparr>ch_len := ch_len c + 1\<rparr>))"

definition chan_close :: "chan \<Rightarrow> chan option" where
  "chan_close c = (if ch_closed c then None else Some (c\<lparr>ch_closed := True\<rparr>))"

text \<open>A receive can proceed: a value is buffered, or the channel is closed.\<close>

definition chan_readable :: "chan \<Rightarrow> bool" where
  "chan_readable c \<longleftrightarrow> ch_len c > 0 \<or> ch_closed c"

definition chan_recv :: "chan \<Rightarrow> chan" where
  "chan_recv c = c\<lparr>ch_len := ch_len c - 1\<rparr>"

section \<open>The operations of Event\<close>

record Event =
  ev_v :: bool
  ev_waiters :: "nat list"
  ev_chan :: "nat \<Rightarrow> chan"
  ev_next :: nat

definition NewEvent :: Event where
  "NewEvent = \<lparr>ev_v = False, ev_waiters = [], ev_chan = (\<lambda>_. chan_make), ev_next = 0\<rparr>"

fun signal_waiters :: "nat list \<Rightarrow> (nat \<Rightarrow> chan) \<Rightarrow> (nat \<Rightarrow> chan) option" where
  "signal_waiters [] ch = Some ch"
| "signal_waiters (w # ws) ch = do {
     c \<leftarrow> chan_send (ch w);
     c \<leftarrow> chan_close c;
     signal_waiters ws (ch(w := c))
   }"

definition Event_Set :: "Event \<Rightarrow> Event option" where
  "Event_Set e = do {
     let e = e\<lparr>ev_v := True\<rparr>;
     if length (ev_waiters e) \<noteq> 0 then do {
       ch \<leftarrow> signal_waiters (ev_waiters e) (ev_chan e);
       Some (e\<lparr>ev_chan := ch, ev_waiters := []\<rparr>)
     } else Some e
   }"

definition Event_Clear :: "Event \<Rightarrow> Event" where
  "Event_Clear e = (if \<not> ev_v e then e else e\<lparr>ev_v := False\<rparr>)"

definition Event_IsSet :: "Event \<Rightarrow> bool" where
  "Event_IsSet e = ev_v e"

text \<open>\<open>Wait\<close> returns in a state where the boolean is set, and only there.\<close>

definition Event_Wait :: "Event \<Rightarrow> Event option" where
  "Event_Wait e = (if ev_v e then Some e else None)"

text \<open>\<open>WaitFor\<close>, first part: return at once, or park on a new channel.\<close>

definition WaitFor_enter :: "Event \<Rightarrow> nat option \<times> Event" where
  "WaitFor_enter e =
     (if ev_v e then (None, e)
      else let w = ev_next e in
        (Some w, e\<lparr>ev_chan := (ev_chan e)(w := chan_make), ev_next := Suc w, ev_waiters := ev_waiters e @ [w]\<rparr>))"

text \<open>
  \<open>s[len(s)-1], s[i] = s[i], s[len(s)-1]; return s[:len(s)-1]\<close>, for \<open>i\<close> in range.
\<close>

definition removeWaiter :: "nat list \<Rightarrow> nat \<Rightarrow> nat list" where
  "removeWaiter s i = take (length s - 1) (s[length s - 1 := s ! i, i := s ! (length s - 1)])"

fun index_of :: "nat list \<Rightarrow> nat \<Rightarrow> nat option" where
  "index_of [] w = None"
| "index_of (t # ts) w = (if t = w then Some 0 else map_option Suc (index_of ts w))"

text \<open>\<open>WaitFor\<close>, deferred part: leave the list of waiters.\<close>

definition WaitFor_leave :: "nat \<Rightarrow> Event \<Rightarrow> Event" where
  "WaitFor_leave w e =
     (case index_of (ev_waiters e) w of
        None \<Rightarrow> e
      | Some i \<Rightarrow> e\<lparr>ev_waiters := removeWaiter (ev_waiters e) i\<rparr>)"

text \<open>The two outcomes of the select: the channel was signalled, or the timer fired.\<close>

definition WaitFor_wake :: "nat \<Rightarrow> Event \<Rightarrow> bool \<times> Event" where
  "WaitFor_wake w e = (True, WaitFor_leave w (e\<lparr>ev_chan := (ev_chan e)(w := chan_recv (ev_chan e w))\<rparr>))"

definition WaitFor_timeout :: "nat \<Rightarrow> Event \<Rightarrow> bool \<times> Event" where
  "WaitFor_timeout w e = (False, WaitFor_leave w e)"

section \<open>Interleavings\<close>

text \<open>
  The calls of any number of goroutines on one event. \<open>es_parked\<close> is the set of channels
  whose \<open>WaitFor\<close> call is between its two critical sections.
\<close>

record evsys =
  es_event :: Event
  es_parked :: "nat set"

datatype event_op = OpSet | OpClear | OpWaitFor | OpWake nat | OpTimeout nat

fun event_step :: "event_op \<Rightarrow> evsys \<Rightarrow> evsys option" where
  "event_step OpSet s = map_option (\<lambda>e. s\<lparr>es_event := e\<rparr>) (Event_Set (es_event s))"
| "event_step OpClear s = Some (s\<lparr>es_event := Event_Clear (es_event s)\<rparr>)"
| "event_step OpWaitFor s =
     (case WaitFor_enter (es_event s) of
        (None, e) \<Rightarrow> Some (s\<lparr>es_event := e\<rparr>)
      | (Some w, e) \<Rightarrow> Some (s\<lparr>es_event := e, es_parked := insert w (es_parked s)\<rparr>))"
| "event_step (OpWake w) s =
     Some (s\<lparr>es_event := snd (WaitFor_wake w (es_event s)), es_parked := es_parked s - {w}\<rparr>)"
| "event_step (OpTimeout w) s =
     Some (s\<lparr>es_event := snd (WaitFor_timeout w (es_event s)), es_parked := es_parked s - {w}\<rparr>)"

text \<open>A wake needs a parked call whose channel is readable, a timeout a parked call.\<close>

fun event_pre :: "event_op \<Rightarrow> evsys \<Rightarrow> bool" where
  "event_pre (OpWake w) s = (w \<in> es_parked s \<and> chan_readable (ev_chan (es_event s) w))"
| "event_pre (OpTimeout w) s = (w \<in> es_parked s)"
| "event_pre _ s = True"

definition event_init :: evsys where
  "event_init = \<lparr>es_event = NewEvent, es_parked = {}\<rparr>"

definition event_inv :: "evsys \<Rightarrow> bool" where
  "event_inv s \<longleftrightarrow>
     (let e = es_event s in
        distinct (ev_waiters e) \<and> set (ev_waiters e) \<subseteq> es_parked s \<and>
        es_parked s \<subseteq> {..<ev_next e} \<and>
        (\<forall>w \<in> set (ev_waiters e). ev_chan e w = chan_make) \<and>
        (\<forall>w \<in> es_parked s - set (ev_waiters e). chan_readable (ev_chan e w)) \<and>
        (ev_v e \<longrightarrow> ev_waiters e = []))"

section \<open>Lemmas\<close>

lemma index_of_None: "index_of ws w = None \<longleftrightarrow> w \<notin> set ws"
  by (induction ws) auto

lemma index_of_Some: "index_of ws w = Some i \<Longrightarrow> i < length ws \<and> ws ! i = w"
  by (induction ws arbitrary: i) (auto split: if_splits)

lemma mset_removeWaiter:
  assumes "i < length s"
  shows "mset (removeWaiter s i) = mset s - {#s ! i#}"
proof -
  let ?n = "length s - 1"
  let ?t = "s[?n := s ! i, i := s ! ?n]"
  have n: "?n < length s" using assms by simp
  have "mset ?t = mset s"
    using mset_swap [of i s ?n] assms n by simp
  moreover have "?t = take ?n ?t @ [?t ! ?n]"
    using n by (metis Suc_diff_1 length_list_update less_nat_zero_code neq0_conv take_Suc_conv_app_nth
        take_all_iff order_refl assms)
  moreover have "?t ! ?n = s ! i" using assms n by (cases "i = ?n") auto
  ultimately have "mset s = add_mset (s ! i) (mset (take ?n ?t))"
    by (metis mset_append mset.simps add_mset_add_single union_commute add.right_neutral)
  then show ?thesis by (simp add: removeWaiter_def)
qed

lemma removeWaiter_distinct:
  assumes "distinct s" and "i < length s"
  shows "distinct (removeWaiter s i)" and "set (removeWaiter s i) = set s - {s ! i}"
proof -
  have m: "mset (removeWaiter s i) = mset (remove1 (s ! i) s)"
    using assms by (simp add: mset_removeWaiter)
  show "distinct (removeWaiter s i)"
    using assms(1) m by (metis distinct_remove1 mset_eq_imp_distinct_iff)
  show "set (removeWaiter s i) = set s - {s ! i}"
    using assms(1) m by (metis set_mset_mset set_remove1_eq)
qed

lemma signal_waiters_ok:
  assumes "distinct ws" and "\<forall>w \<in> set ws. ch w = chan_make"
  shows "signal_waiters ws ch =
    Some (\<lambda>w. if w \<in> set ws then \<lparr>ch_len = 1, ch_closed = True\<rparr> else ch w)"
  using assms
  by (induction ws arbitrary: ch) (auto simp: chan_send_def chan_close_def chan_make_def)

lemma Event_Set_ok:
  assumes "event_inv s"
  shows "Event_Set (es_event s) =
    Some ((es_event s)\<lparr>ev_v := True, ev_waiters := [],
      ev_chan := (\<lambda>w. if w \<in> set (ev_waiters (es_event s)) then \<lparr>ch_len = 1, ch_closed = True\<rparr>
                      else ev_chan (es_event s) w)\<rparr>)"
  using assms by (auto simp: Event_Set_def event_inv_def Let_def signal_waiters_ok)

lemma WaitFor_leave_simps:
  assumes "distinct (ev_waiters e)"
  shows "distinct (ev_waiters (WaitFor_leave w e))"
    and "set (ev_waiters (WaitFor_leave w e)) = set (ev_waiters e) - {w}"
    and "ev_chan (WaitFor_leave w e) = ev_chan e" and "ev_next (WaitFor_leave w e) = ev_next e"
    and "ev_v (WaitFor_leave w e) = ev_v e"
  using assms
  by (auto simp: WaitFor_leave_def index_of_None removeWaiter_distinct split: option.split
      dest!: index_of_Some)

lemma event_step_ok:
  assumes inv: "event_inv s" and pre: "event_pre op s"
  shows "\<exists>s'. event_step op s = Some s' \<and> event_inv s'"
proof (cases op)
  case OpSet
  then show ?thesis
    using inv Event_Set_ok [OF inv] by (auto simp: event_inv_def Let_def chan_readable_def)
next
  case OpClear
  then show ?thesis using inv by (auto simp: event_inv_def Let_def Event_Clear_def)
next
  case OpWaitFor
  then show ?thesis using inv by (fastforce simp: event_inv_def Let_def WaitFor_enter_def)
next
  case (OpWake w)
  let ?e = "(es_event s)\<lparr>ev_chan := (ev_chan (es_event s))(w := chan_recv (ev_chan (es_event s) w))\<rparr>"
  have d: "distinct (ev_waiters ?e)" using inv by (simp add: event_inv_def Let_def)
  show ?thesis
    using inv OpWake WaitFor_leave_simps [OF d, of w]
    by (auto simp: event_inv_def Let_def WaitFor_wake_def)
next
  case (OpTimeout w)
  have d: "distinct (ev_waiters (es_event s))" using inv by (simp add: event_inv_def Let_def)
  show ?thesis
    using inv OpTimeout WaitFor_leave_simps [OF d, of w]
    by (auto simp: event_inv_def Let_def WaitFor_timeout_def)
qed

interpretation events: contract_system event_step event_pre event_inv
  by unfold_locales (rule event_step_ok)

lemma event_inv_init: "event_inv event_init"
  by (simp add: event_inv_def event_init_def NewEvent_def)

text \<open>
  C27: in every interleaving of \<open>Set\<close>, \<open>Clear\<close> and \<open>WaitFor\<close> calls no operation panics
  (no send on a closed channel, no second close) and none blocks on a full channel while
  it holds the mutex.
\<close>

theorem event_no_panic:
  assumes "admissible event_step event_pre ops event_init"
  shows "\<exists>s. run event_step ops event_init = Some s \<and> event_inv s"
  using event_inv_init assms by (rule events.run_ok)

theorem event_no_panic_witness:
  "\<exists>s. run event_step [OpWaitFor, OpWaitFor, OpTimeout 0, OpSet, OpWake 1, OpClear, OpSet] event_init = Some s
     \<and> event_inv s"
  by (rule event_no_panic)
    (simp add: event_init_def NewEvent_def WaitFor_enter_def WaitFor_timeout_def WaitFor_leave_def
      WaitFor_wake_def Event_Clear_def chan_recv_def removeWaiter_def Event_Set_def chan_send_def
      chan_close_def chan_make_def chan_readable_def)

text \<open>
  C28: no wake-up is lost. Right after a \<open>Set\<close>, in any reachable state, the channel of
  every parked \<open>WaitFor\<close> is readable, so that its select can return true, and a new
  \<open>WaitFor\<close> returns at once.
\<close>

theorem event_Set_wakes_all:
  assumes "admissible event_step event_pre ops event_init"
    and "run event_step (ops @ [OpSet]) event_init = Some s"
  shows "(\<forall>w \<in> es_parked s. chan_readable (ev_chan (es_event s) w)) \<and>
    fst (WaitFor_enter (es_event s)) = None"
proof -
  obtain t where t: "run event_step ops event_init = Some t" "event_inv t"
    using events.run_ok [OF event_inv_init assms(1)] by blast
  with assms(2) have s: "event_step OpSet t = Some s"
    by (simp add: run_append split: bind_splits)
  then have "event_inv s" using event_step_ok [OF t(2), of OpSet] by auto
  moreover have "ev_v (es_event s)" using s Event_Set_ok [OF t(2)] by auto
  ultimately show ?thesis by (auto simp: event_inv_def Let_def WaitFor_enter_def)
qed

theorem event_Set_wakes_all_witness:
  "\<exists>s. run event_step ([OpWaitFor, OpWaitFor] @ [OpSet]) event_init = Some s \<and> es_parked s = {0, 1} \<and>
     (\<forall>w \<in> es_parked s. chan_readable (ev_chan (es_event s) w)) \<and>
     fst (WaitFor_enter (es_event s)) = None"
proof -
  have a: "admissible event_step event_pre [OpWaitFor, OpWaitFor] event_init"
    by (simp add: event_init_def NewEvent_def WaitFor_enter_def)
  obtain s where s: "run event_step ([OpWaitFor, OpWaitFor] @ [OpSet]) event_init = Some s"
      "es_parked s = {0, 1}"
    by (auto simp: event_init_def NewEvent_def WaitFor_enter_def Event_Set_def chan_send_def
        chan_close_def chan_make_def)
  with event_Set_wakes_all [OF a s(1)] show ?thesis by blast
qed

end
