(* ===== verification/Messages.thy ===== *)
theory Messages
  imports Prelude
begin

text \<open>
  The wire-level data of \<open>protocol/messages.go\<close> and the size estimate of
  \<open>byte_budget.go\<close> (\<open>estimateMessageSize\<close>, \<open>estimateJSONMap\<close>, \<open>estimateJSONValue\<close>).
  A decoded JSON payload is a graph of Go maps and slices, which may be shared and, when
  malformed, cyclic; the model keeps that: a value refers to a map or a slice by its
  reference, and the objects live in a store. The range over a Go map is the list of its
  entries, in whatever order the runtime visits them. A message is a value: the source passes
  pointers, and what is modelled is a caller that does not change or hand in again a message
  while a client holds it.
\<close>

section \<open>Decoded JSON payloads\<close>

datatype jvalue =
    JString string
  | JMap nat
  | JSlice nat
  | JStrings "string list"
  | JStringMap nat
  | JBytes "8 word list"
  | JScalar
  | JOther

record jstore =
  js_map :: "nat \<Rightarrow> (string \<times> jvalue) list"
  js_slice :: "nat \<Rightarrow> jvalue list"
  js_strmap :: "nat \<Rightarrow> (string \<times> string) list"

section \<open>Messages\<close>

datatype verb = ControlMessageACK | ControlMessageBACKOFF | ControlMessageRECONNECT
  | ControlMessageERROR | ControlMessageREADY | ControlMessageFLOW | OtherVerb string

text \<open>The strings of the constants, and the reading of the \<open>Verb\<close> field against them.\<close>

fun verb_string :: "verb \<Rightarrow> string" where
  "verb_string ControlMessageACK = ''ack''"
| "verb_string ControlMessageBACKOFF = ''bo''"
| "verb_string ControlMessageRECONNECT = ''re''"
| "verb_string ControlMessageERROR = ''error''"
| "verb_string ControlMessageREADY = ''rd''"
| "verb_string ControlMessageFLOW = ''fl''"
| "verb_string (OtherVerb s) = s"

definition verb_of :: "string \<Rightarrow> verb" where
  "verb_of s =
     (if s = ''ack'' then ControlMessageACK
      else if s = ''bo'' then ControlMessageBACKOFF
      else if s = ''re'' then ControlMessageRECONNECT
      else if s = ''error'' then ControlMessageERROR
      else if s = ''rd'' then ControlMessageREADY
      else if s = ''fl'' then ControlMessageFLOW
      else OtherVerb s)"

record DataMessage =
  SeqNum :: u64
  AckRequested :: bool
  TextPayload :: string
  JsonPayload :: "nat option"
  BinaryPayload :: string
  BundlePayload :: "8 word list"
  CompressedBundlePayload :: "8 word list"
  EventType :: string
  TimestampMs :: u64
  ThisAtom :: string
  ParentAtom :: string
  TargetAtom :: string
  InvestigationID :: string

definition zeroDataMessage :: DataMessage where
  "zeroDataMessage = \<lparr>SeqNum = 0, AckRequested = False, TextPayload = [], JsonPayload = None,
     BinaryPayload = [], BundlePayload = [], CompressedBundlePayload = [], EventType = [],
     TimestampMs = 0, ThisAtom = [], ParentAtom = [], TargetAtom = [], InvestigationID = []\<rparr>"

record ControlMessage =
  Verb :: string
  CSeqNum :: u64
  CDuration :: u64
  WindowSize :: u64
  CError :: string

section \<open>Errors\<close>

text \<open>The errors the components return; the arguments are what the message prints.\<close>

datatype go_error =
    ErrorBufferFull
  | ErrorClosed
  | ErrorReceiptUnavailable
  | ErrFairReserve
  | ErrBudgetGroupMissing
  | ErrAckUnexpected u64
  | ErrAckNotInBuffer u64
  | ErrAckNotDelivered u64 u64 u64 u64
  | ErrContext string

section \<open>Size estimate\<close>

definition messageOverheadBytes :: u64 where "messageOverheadBytes = 256"
definition jsonEntryOverheadBytes :: u64 where "jsonEntryOverheadBytes = 64"
definition jsonScalarBytes :: u64 where "jsonScalarBytes = 16"
definition maxEstimateDepth :: nat where "maxEstimateDepth = 32"
definition jsonDeepPenaltyBytes :: u64 where "jsonDeepPenaltyBytes = 4096"

abbreviation len64 :: "'a list \<Rightarrow> u64" where
  "len64 xs \<equiv> of_nat (length xs)"

text \<open>
  The two mutually recursive functions of the source. The recursion is not structural
  (the store may be cyclic): what ends it is the depth, which the source bounds by
  \<open>maxEstimateDepth\<close>.
\<close>

function estimateJSONMap :: "jstore \<Rightarrow> nat \<Rightarrow> nat \<Rightarrow> u64"
  and estimateJSONValue :: "jstore \<Rightarrow> jvalue \<Rightarrow> nat \<Rightarrow> u64" where
  "estimateJSONMap st m depth =
     (if depth \<ge> maxEstimateDepth then jsonDeepPenaltyBytes
      else sum_list (map (\<lambda>(k, v). jsonEntryOverheadBytes + len64 k + estimateJSONValue st v (depth + 1))
                         (js_map st m)))"
| "estimateJSONValue st v depth =
     (case v of
        JString s \<Rightarrow> len64 s
      | JMap m \<Rightarrow> estimateJSONMap st m depth
      | JSlice a \<Rightarrow>
          (if depth \<ge> maxEstimateDepth then jsonDeepPenaltyBytes
           else sum_list (map (\<lambda>e. jsonEntryOverheadBytes + estimateJSONValue st e (depth + 1)) (js_slice st a)))
      | JStrings ss \<Rightarrow> sum_list (map (\<lambda>s. jsonEntryOverheadBytes + len64 s) ss)
      | JStringMap m \<Rightarrow> sum_list (map (\<lambda>(k, s). jsonEntryOverheadBytes + len64 k + len64 s) (js_strmap st m))
      | JBytes bs \<Rightarrow> len64 bs
      | JScalar \<Rightarrow> jsonScalarBytes
      | JOther \<Rightarrow> 2 * jsonEntryOverheadBytes)"
  by pat_completeness auto
termination
  by (relation "measure (\<lambda>x. case x of
        Inl (st, m, depth) \<Rightarrow> 2 * (maxEstimateDepth + 1 - depth)
      | Inr (st, v, depth) \<Rightarrow> 2 * (maxEstimateDepth + 1 - depth) + 1)")
    (auto simp: maxEstimateDepth_def)

declare estimateJSONMap.simps [simp del] estimateJSONValue.simps [simp del]

definition jsonLen :: "jstore \<Rightarrow> nat option \<Rightarrow> nat" where
  "jsonLen st p = (case p of None \<Rightarrow> 0 | Some m \<Rightarrow> length (js_map st m))"

definition estimateMessageSize :: "jstore \<Rightarrow> DataMessage \<Rightarrow> u64" where
  "estimateMessageSize st m =
     (let n = messageOverheadBytes;
          n = n + of_nat (length (TextPayload m) + length (BinaryPayload m) +
                length (BundlePayload m) + length (CompressedBundlePayload m) +
                length (EventType m) + length (ThisAtom m) + length (ParentAtom m) +
                length (TargetAtom m) + length (InvestigationID m))
      in if jsonLen st (JsonPayload m) \<noteq> 0
         then n + estimateJSONMap st (the (JsonPayload m)) 0 else n)"

section \<open>The order of iteration\<close>

lemma estimateJSONValue_simps [simp]:
  "estimateJSONValue st (JString s) depth = len64 s"
  "estimateJSONValue st (JMap m) depth = estimateJSONMap st m depth"
  "estimateJSONValue st (JSlice a) depth =
     (if depth \<ge> maxEstimateDepth then jsonDeepPenaltyBytes
      else sum_list (map (\<lambda>e. jsonEntryOverheadBytes + estimateJSONValue st e (depth + 1)) (js_slice st a)))"
  "estimateJSONValue st (JStrings ss) depth = sum_list (map (\<lambda>s. jsonEntryOverheadBytes + len64 s) ss)"
  "estimateJSONValue st (JStringMap m) depth =
     sum_list (map (\<lambda>(k, s). jsonEntryOverheadBytes + len64 k + len64 s) (js_strmap st m))"
  "estimateJSONValue st (JBytes bs) depth = len64 bs"
  "estimateJSONValue st JScalar depth = jsonScalarBytes"
  "estimateJSONValue st JOther depth = 2 * jsonEntryOverheadBytes"
  by (subst estimateJSONValue.simps, simp)+

lemma sum_list_map_mset_cong:
  fixes f :: "'a \<Rightarrow> 'b :: comm_monoid_add"
  assumes "mset xs = mset ys" and "\<And>x. x \<in> set ys \<Longrightarrow> f x = g x"
  shows "sum_list (map f xs) = sum_list (map g ys)"
proof -
  have "sum_list (map f xs) = sum_mset (image_mset f (mset ys))"
    by (metis assms(1) mset_map sum_mset_sum_list)
  also have "\<dots> = sum_mset (image_mset g (mset ys))"
    by (intro arg_cong [of _ _ sum_mset] image_mset_cong) (simp add: assms(2))
  also have "\<dots> = sum_list (map g ys)"
    by (metis mset_map sum_mset_sum_list)
  finally show ?thesis .
qed

text \<open>Two stores that differ in the order of the entries of their maps only.\<close>

definition same_entries :: "jstore \<Rightarrow> jstore \<Rightarrow> bool" where
  "same_entries st st' \<longleftrightarrow> (\<forall>k. mset (js_map st' k) = mset (js_map st k) \<and> mset (js_strmap st' k) = mset (js_strmap st k) \<and>
     js_slice st' k = js_slice st k)"

lemma estimate_order:
  assumes "same_entries st st'"
  shows "estimateJSONMap st' m depth = estimateJSONMap st m depth"
    and "estimateJSONValue st' v depth = estimateJSONValue st v depth"
  using assms
proof (induction st m depth and st v depth rule: estimateJSONMap_estimateJSONValue.induct)
  case (1 st m depth)
  then show ?case
    by (auto simp: estimateJSONMap.simps [of st m depth] estimateJSONMap.simps [of st' m depth] same_entries_def
        intro!: sum_list_map_mset_cong)
next
  case (2 st v depth)
  then show ?case
    by (cases v) (auto simp: same_entries_def intro!: sum_list_map_mset_cong)
qed

text \<open>
  C29: the estimate does not depend on the order in which the runtime visits the maps of the
  payload, be they of decoded values or of strings: two stores whose maps hold the same entries
  give every message the same size.
\<close>

theorem estimateMessageSize_order:
  assumes "same_entries st st'"
  shows "estimateMessageSize st' m = estimateMessageSize st m"
proof -
  have "length (js_map st' k) = length (js_map st k)" for k
    using assms by (metis same_entries_def size_mset)
  then have "jsonLen st' p = jsonLen st p" for p
    by (simp add: jsonLen_def split: option.split)
  then show ?thesis
    by (simp add: estimateMessageSize_def Let_def estimate_order [OF assms])
qed

definition store_ab :: jstore where
  "store_ab = \<lparr>js_map = (\<lambda>_. [(''a'', JScalar), (''b'', JMap 7), (''c'', JStringMap 0)]), js_slice = (\<lambda>_. []),
     js_strmap = (\<lambda>_. [(''x'', ''1''), (''yy'', ''22'')])\<rparr>"

definition store_ba :: jstore where
  "store_ba = \<lparr>js_map = (\<lambda>_. [(''b'', JMap 7), (''a'', JScalar), (''c'', JStringMap 0)]), js_slice = (\<lambda>_. []),
     js_strmap = (\<lambda>_. [(''yy'', ''22''), (''x'', ''1'')])\<rparr>"

text \<open>The cyclic map \<open>{a: 1, b: itself, c: {x: 1, yy: 22}}\<close>, visited in two orders.\<close>

theorem estimateMessageSize_order_witness:
  "estimateMessageSize store_ba (zeroDataMessage\<lparr>JsonPayload := Some 7\<rparr>) =
   estimateMessageSize store_ab (zeroDataMessage\<lparr>JsonPayload := Some 7\<rparr>)"
  by (rule estimateMessageSize_order) (simp add: store_ab_def store_ba_def same_entries_def add_mset_commute)

lemma verb_roundtrip: "verb_of (verb_string v) = v \<or> (\<exists>s. v = OtherVerb s)"
  by (cases v) (simp_all add: verb_of_def)

lemma verb_string_of: "verb_string (verb_of s) = s"
  by (simp add: verb_of_def)

end
