(* ===== verification/GroupHeap.thy ===== *)
theory GroupHeap
  imports Prelude
begin

text \<open>
  The binary heap of \<open>byte_budget.go\<close> (\<open>groupHeap\<close>): the methods of the heap interface
  and the algorithms of \<open>container/heap\<close> that run on them. A heap is its slice and the
  \<open>heapIndex\<close> field of every group; \<open>Less\<close> is \<open>None\<close> where the comparison of the
  source panics (\<open>groupNeed\<close> of a group without waiters).
\<close>

type_synonym 'a heapst = "'a list \<times> ('a \<Rightarrow> int)"

section \<open>The interface methods\<close>

definition groupHeap_Swap :: "nat \<Rightarrow> nat \<Rightarrow> 'a heapst \<Rightarrow> 'a heapst" where
  "groupHeap_Swap i j h =
     (let a = (fst h)[i := fst h ! j, j := fst h ! i]
      in (a, (snd h)(a ! i := int i, a ! j := int j)))"

definition groupHeap_Push :: "'a \<Rightarrow> 'a heapst \<Rightarrow> 'a heapst" where
  "groupHeap_Push g h = (fst h @ [g], (snd h)(g := int (length (fst h))))"

definition groupHeap_Pop :: "'a heapst \<Rightarrow> ('a \<times> 'a heapst) option" where
  "groupHeap_Pop h =
     (if fst h = [] then None
      else let g = last (fst h) in Some (g, (butlast (fst h), (snd h)(g := - 1))))"

section \<open>The algorithms of container/heap\<close>

function heap_up :: "('a \<Rightarrow> 'a \<Rightarrow> bool option) \<Rightarrow> 'a heapst \<Rightarrow> nat \<Rightarrow> 'a heapst option" where
  "heap_up Less h j =
     (let i = (j - 1) div 2 in
      if i = j then Some h
      else do {
        lt \<leftarrow> Less (fst h ! j) (fst h ! i);
        if \<not> lt then Some h else heap_up Less (groupHeap_Swap i j h) i
      })"
  by pat_completeness auto
termination by (relation "measure (\<lambda>(Less, h, j). j)") auto

declare heap_up.simps [simp del]

text \<open>\<open>heap_down\<close> also returns the final index: \<open>down\<close> reports whether it moved.\<close>

function heap_down :: "('a \<Rightarrow> 'a \<Rightarrow> bool option) \<Rightarrow> 'a heapst \<Rightarrow> nat \<Rightarrow> nat \<Rightarrow> ('a heapst \<times> nat) option" where
  "heap_down Less h i n =
     (let j1 = 2 * i + 1 in
      if j1 \<ge> n then Some (h, i)
      else do {
        right \<leftarrow> (if j1 + 1 < n then Less (fst h ! (j1 + 1)) (fst h ! j1) else Some False);
        let j = (if right then j1 + 1 else j1);
        lt \<leftarrow> Less (fst h ! j) (fst h ! i);
        if \<not> lt then Some (h, i) else heap_down Less (groupHeap_Swap i j h) j n
      })"
  by pat_completeness auto
termination by (relation "measure (\<lambda>(Less, h, i, n). n - i)") auto

declare heap_down.simps [simp del]

definition heap_Push :: "('a \<Rightarrow> 'a \<Rightarrow> bool option) \<Rightarrow> 'a \<Rightarrow> 'a heapst \<Rightarrow> 'a heapst option" where
  "heap_Push Less g h =
     (let h = groupHeap_Push g h in heap_up Less h (length (fst h) - 1))"

definition heap_Pop :: "('a \<Rightarrow> 'a \<Rightarrow> bool option) \<Rightarrow> 'a heapst \<Rightarrow> ('a \<times> 'a heapst) option" where
  "heap_Pop Less h =
     (if fst h = [] then None
      else do {
        let n = length (fst h) - 1;
        let h = groupHeap_Swap 0 n h;
        (h, _) \<leftarrow> heap_down Less h 0 n;
        groupHeap_Pop h
      })"

definition heap_Remove :: "('a \<Rightarrow> 'a \<Rightarrow> bool option) \<Rightarrow> nat \<Rightarrow> 'a heapst \<Rightarrow> ('a \<times> 'a heapst) option" where
  "heap_Remove Less i h =
     (if i \<ge> length (fst h) then None
      else do {
        let n = length (fst h) - 1;
        h \<leftarrow> (if n \<noteq> i then do {
                let h = groupHeap_Swap i n h;
                (h, i') \<leftarrow> heap_down Less h i n;
                if \<not> i' > i then heap_up Less h i else Some h
              } else Some h);
        groupHeap_Pop h
      })"

definition heap_Fix :: "('a \<Rightarrow> 'a \<Rightarrow> bool option) \<Rightarrow> nat \<Rightarrow> 'a heapst \<Rightarrow> 'a heapst option" where
  "heap_Fix Less i h =
     (if i \<ge> length (fst h) then None
      else do {
        (h, i') \<leftarrow> heap_down Less h i (length (fst h));
        if \<not> i' > i then heap_up Less h i else Some h
      })"

section \<open>Order, indexes and permutations\<close>

definition parent :: "nat \<Rightarrow> nat" where
  "parent c = (c - 1) div 2"

lemma parent_iff: "0 < c \<Longrightarrow> parent c = i \<longleftrightarrow> c = 2 * i + 1 \<or> c = 2 * i + 2"
  by (auto simp: parent_def)

lemma parent_less: "0 < c \<Longrightarrow> parent c < c"
  by (auto simp: parent_def)

lemma parent_eq_self: "parent c = c \<longleftrightarrow> c = 0"
  by (auto simp: parent_def)

text \<open>The edge from \<open>c\<close> to its parent respects the order.\<close>

definition edge :: "('a \<Rightarrow> 'k :: linorder) \<Rightarrow> 'a list \<Rightarrow> nat \<Rightarrow> bool" where
  "edge k a c \<longleftrightarrow> k (a ! parent c) \<le> k (a ! c)"

definition heap_ord :: "('a \<Rightarrow> 'k :: linorder) \<Rightarrow> 'a list \<Rightarrow> nat \<Rightarrow> bool" where
  "heap_ord k a n \<longleftrightarrow> (\<forall>c. 0 < c \<longrightarrow> c < n \<longrightarrow> edge k a c)"

definition children_ok :: "('a \<Rightarrow> 'k :: linorder) \<Rightarrow> 'a list \<Rightarrow> nat \<Rightarrow> nat \<Rightarrow> bool" where
  "children_ok k a n i \<longleftrightarrow> (\<forall>c. 0 < c \<longrightarrow> c < n \<longrightarrow> parent c = i \<longrightarrow> edge k a c)"

text \<open>
  Ordered but for the element at \<open>i\<close>, whose key may have changed: every edge that does
  not touch \<open>i\<close> is in order, and so are the grandparent edges across \<open>i\<close>.
\<close>

definition heap_hole :: "('a \<Rightarrow> 'k :: linorder) \<Rightarrow> 'a list \<Rightarrow> nat \<Rightarrow> nat \<Rightarrow> bool" where
  "heap_hole k a n i \<longleftrightarrow>
     (\<forall>c. 0 < c \<longrightarrow> c < n \<longrightarrow> c \<noteq> i \<longrightarrow> parent c \<noteq> i \<longrightarrow> edge k a c) \<and>
     (0 < i \<longrightarrow> (\<forall>c. 0 < c \<longrightarrow> c < n \<longrightarrow> parent c = i \<longrightarrow> k (a ! parent i) \<le> k (a ! c)))"

definition idx_ok :: "'a heapst \<Rightarrow> bool" where
  "idx_ok h \<longleftrightarrow> distinct (fst h) \<and> (\<forall>i < length (fst h). snd h (fst h ! i) = int i)"

text \<open>The comparison agrees with the keys on a set of groups: there it does not panic.\<close>

definition cmp_ok :: "('a \<Rightarrow> 'a \<Rightarrow> bool option) \<Rightarrow> ('a \<Rightarrow> 'k :: linorder) \<Rightarrow> 'a set \<Rightarrow> bool" where
  "cmp_ok Less k A \<longleftrightarrow> (\<forall>x \<in> A. \<forall>y \<in> A. Less x y = Some (k x < k y))"

definition heap_perm :: "nat \<Rightarrow> 'a heapst \<Rightarrow> 'a heapst \<Rightarrow> bool" where
  "heap_perm n h h' \<longleftrightarrow>
     length (fst h') = length (fst h) \<and>
     mset (take n (fst h')) = mset (take n (fst h)) \<and> drop n (fst h') = drop n (fst h) \<and>
     (idx_ok h \<longrightarrow> idx_ok h') \<and>
     (\<forall>x. x \<notin> set (take n (fst h)) \<longrightarrow> snd h' x = snd h x)"

lemma heap_perm_refl [simp]: "heap_perm n h h"
  by (simp add: heap_perm_def)

lemma heap_perm_trans: "heap_perm n h h' \<Longrightarrow> heap_perm n h' h'' \<Longrightarrow> heap_perm n h h''"
  unfolding heap_perm_def by (metis set_mset_mset)

lemma heap_perm_take: "heap_perm n h h' \<Longrightarrow> set (take n (fst h')) = set (take n (fst h))"
  unfolding heap_perm_def by (metis set_mset_mset)

lemma heap_perm_set: "heap_perm n h h' \<Longrightarrow> set (fst h') = set (fst h)"
  unfolding heap_perm_def by (metis append_take_drop_id set_append set_mset_mset)

lemma heap_perm_idx: "heap_perm n h h' \<Longrightarrow> idx_ok h \<Longrightarrow> idx_ok h'"
  by (simp add: heap_perm_def)

lemma heap_perm_length: "heap_perm n h h' \<Longrightarrow> length (fst h') = length (fst h)"
  by (simp add: heap_perm_def)

lemma heap_perm_mset: "heap_perm (length (fst h)) h h' \<Longrightarrow> mset (fst h') = mset (fst h)"
  unfolding heap_perm_def by (elim conjE) simp

lemma swap_nth:
  assumes "i < length (fst h)" "j < length (fst h)"
  shows "fst (groupHeap_Swap i j h) ! c =
    (if c = i then fst h ! j else if c = j then fst h ! i else fst h ! c)"
    and "length (fst (groupHeap_Swap i j h)) = length (fst h)"
  using assms by (auto simp: groupHeap_Swap_def Let_def nth_list_update)

lemma swap_idx_ok:
  assumes "i < length (fst h)" "j < length (fst h)" "idx_ok h"
  shows "idx_ok (groupHeap_Swap i j h)"
proof -
  obtain a ix where h: "h = (a, ix)" by force
  have d: "distinct a" and ix: "\<And>c. c < length a \<Longrightarrow> ix (a ! c) = int c"
    and ij: "i < length a" "j < length a"
    using assms by (auto simp: idx_ok_def h)
  let ?b = "a[i := a ! j, j := a ! i]"
  have db: "distinct ?b" using d ij by (simp add: distinct_swap)
  have e: "?b ! i = ?b ! j \<longleftrightarrow> i = j"
    by (rule nth_eq_iff_index_eq [OF db]) (use ij in simp_all)
  have "(ix(?b ! i := int i, ?b ! j := int j)) (?b ! c) = int c" if "c < length a" for c
  proof (cases "c = i \<or> c = j")
    case True
    then show ?thesis using e by (metis fun_upd_apply)
  next
    case False
    then have "?b ! c \<noteq> ?b ! i" "?b ! c \<noteq> ?b ! j"
      using nth_eq_iff_index_eq [OF db, of c i] nth_eq_iff_index_eq [OF db, of c j] ij that by auto
    then show ?thesis using False that ix by (simp add: nth_list_update)
  qed
  then show ?thesis using db by (simp add: idx_ok_def h groupHeap_Swap_def Let_def)
qed

lemma swap_perm:
  assumes "i < n" "j < n" "n \<le> length (fst h)"
  shows "heap_perm n h (groupHeap_Swap i j h)"
proof -
  obtain a ix where h: "h = (a, ix)" by force
  let ?b = "a[i := a ! j, j := a ! i]"
  have n: "i < length a" "j < length a" "n \<le> length a" using assms h by auto
  have take: "take n ?b = (take n a)[i := take n a ! j, j := take n a ! i]"
    using assms by (simp add: take_update_swap)
  then have "mset (take n ?b) = mset (take n a)"
    using assms n by (metis length_take min.absorb2 mset_swap)
  moreover have "drop n ?b = drop n a" using assms by simp
  moreover have "?b ! i \<in> set (take n a)" "?b ! j \<in> set (take n a)"
    using assms n by (auto simp: nth_list_update in_set_conv_nth)
  ultimately show ?thesis
    using swap_idx_ok [of i h j] assms n
    by (auto simp: heap_perm_def h groupHeap_Swap_def Let_def)
qed

section \<open>Correctness of up and down\<close>

lemma heap_ordI_hole:
  "heap_hole k a n i \<Longrightarrow> children_ok k a n i \<Longrightarrow> 0 < i \<longrightarrow> i < n \<longrightarrow> edge k a i \<Longrightarrow> heap_ord k a n"
  unfolding heap_hole_def children_ok_def heap_ord_def by metis

lemma heap_ord_hole: "heap_ord k a n \<Longrightarrow> i < n \<Longrightarrow> heap_hole k a n i"
  unfolding heap_ord_def heap_hole_def edge_def
  by (metis (no_types, lifting) order_trans)

lemma hole_swap_down:
  assumes hole: "heap_hole k (fst h) n i" and n: "n \<le> length (fst h)" and i: "i < n"
    and j: "j < n" "parent j = i" "0 < j" and lt: "k (fst h ! j) < k (fst h ! i)"
    and sib: "\<And>c. 0 < c \<Longrightarrow> c < n \<Longrightarrow> parent c = i \<Longrightarrow> k (fst h ! j) \<le> k (fst h ! c)"
  shows "heap_hole k (fst (groupHeap_Swap i j h)) n j" and "edge k (fst (groupHeap_Swap i j h)) j"
proof -
  let ?a = "fst h" and ?b = "fst (groupHeap_Swap i j h)"
  have b: "?b ! c = (if c = i then ?a ! j else if c = j then ?a ! i else ?a ! c)" for c
    using swap_nth(1) [of i h j c] n i j by simp
  have ij: "i < j" using j parent_less [of j] by simp
  show "edge k ?b j" using b ij j lt by (simp add: edge_def)
  have pa: "parent i \<noteq> i" "parent i \<noteq> j" if "0 < i"
    using that parent_less [of i] ij by auto
  have "edge k ?b c" if c: "0 < c" "c < n" "c \<noteq> j" "parent c \<noteq> j" for c
  proof -
    consider "c = i" | "c \<noteq> i" "parent c = i" | "c \<noteq> i" "parent c \<noteq> i" by blast
    then show ?thesis
    proof cases
      case 1
      then have "k (?a ! parent i) \<le> k (?a ! j)" using hole c j unfolding heap_hole_def by blast
      then show ?thesis using 1 b c pa by (simp add: edge_def)
    next
      case 2
      then show ?thesis using b c sib by (simp add: edge_def)
    next
      case 3
      then have "edge k ?a c" using hole c unfolding heap_hole_def by blast
      then show ?thesis using 3 c b by (simp add: edge_def)
    qed
  qed
  moreover have "k (?b ! parent j) \<le> k (?b ! c)" if c: "0 < c" "c < n" "parent c = j" for c
  proof -
    have ne: "c \<noteq> i" "c \<noteq> j" "parent c \<noteq> i" using c ij parent_less [of c] by auto
    then have "edge k ?a c" using hole c unfolding heap_hole_def by blast
    then show ?thesis using b c j ne by (simp add: edge_def)
  qed
  ultimately show "heap_hole k ?b n j" unfolding heap_hole_def by blast
qed

lemma heap_down_ok:
  assumes "heap_hole k (fst h) n i" and "n \<le> length (fst h)"
    and "cmp_ok Less k (set (take n (fst h)))"
  shows "\<exists>h' i'. heap_down Less h i n = Some (h', i') \<and> heap_perm n h h' \<and> i \<le> i' \<and>
    (i' = i \<longrightarrow> h' = h \<and> children_ok k (fst h) n i) \<and>
    (i < i' \<or> (0 < i \<longrightarrow> i < n \<longrightarrow> edge k (fst h) i) \<longrightarrow> heap_ord k (fst h') n)"
  using assms
proof (induction Less h i n rule: heap_down.induct)
  case (1 Less h i n)
  note hole = "1.prems"(1) and n = "1.prems"(2) and cmp = "1.prems"(3)
  let ?a = "fst h" and ?j1 = "2 * i + 1"
  show ?case
  proof (cases "?j1 \<ge> n")
    case True
    then have "children_ok k ?a n i" by (auto simp: children_ok_def parent_iff)
    then show ?thesis
      using True hole heap_ordI_hole [of k ?a n i] by (auto simp: heap_down.simps [of Less h i n])
  next
    case False
    then have i: "i < n" by simp
    have less: "Less (?a ! x) (?a ! y) = Some (k (?a ! x) < k (?a ! y))" if "x < n" "y < n" for x y
      using cmp that n unfolding cmp_ok_def by (metis in_set_conv_nth length_take min.absorb2 nth_take)
    define right where "right = (?j1 + 1 < n \<and> k (?a ! (?j1 + 1)) < k (?a ! ?j1))"
    define j where "j = (if right then ?j1 + 1 else ?j1)"
    have j: "j < n" "parent j = i" "0 < j"
      using False by (auto simp: j_def right_def parent_iff)
    have sib: "k (?a ! j) \<le> k (?a ! c)" if "0 < c" "c < n" "parent c = i" for c
      using that False by (auto simp: j_def right_def parent_iff)
    have r1: "(if ?j1 + 1 < n then Less (?a ! (?j1 + 1)) (?a ! ?j1) else Some False) = Some right"
      using False less [of "?j1 + 1" ?j1] by (auto simp: right_def)
    have step: "heap_down Less h i n =
      (if \<not> k (?a ! j) < k (?a ! i) then Some (h, i) else heap_down Less (groupHeap_Swap i j h) j n)"
      unfolding heap_down.simps [of Less h i n] Let_def r1 Option.bind.simps j_def [symmetric]
        less [OF j(1) i]
      using False by simp
    show ?thesis
    proof (cases "k (?a ! j) < k (?a ! i)")
      case False
      then have "children_ok k ?a n i"
        using sib unfolding children_ok_def edge_def by (metis leI order_trans)
      then show ?thesis
        using step False hole heap_ordI_hole [of k ?a n i] by simp
    next
      case True
      let ?h = "groupHeap_Swap i j h"
      note hs = hole_swap_down [OF hole n i j True sib]
      have p: "heap_perm n h ?h" using swap_perm [OF i j(1) n] .
      have c: "cmp_ok Less k (set (take n (fst ?h)))" using cmp heap_perm_take [OF p] by simp
      have l: "n \<le> length (fst ?h)" using p n by (simp add: heap_perm_def)
      have lt: "Less (?a ! j) (?a ! i) = Some True" using less [OF j(1) i] True by simp
      have "\<not> \<not> True" by simp
      from "1.IH" [OF refl \<open>\<not> ?j1 \<ge> n\<close> r1 j_def lt this hs(1) l c] hs(2)
      obtain h' i' where r: "heap_down Less ?h j n = Some (h', i')" "heap_perm n ?h h'"
          "j \<le> i'" "heap_ord k (fst h') n"
        by blast
      have "i < i'" using r(3) j parent_less [of j] by simp
      then show ?thesis using r p step True heap_perm_trans [OF p r(2)] by simp
    qed
  qed
qed

lemma hole_swap_up:
  assumes hole: "heap_hole k (fst h) n j" and ch: "children_ok k (fst h) n j"
    and n: "n \<le> length (fst h)" and j: "j < n" "0 < j" and i: "i = parent j"
    and lt: "k (fst h ! j) < k (fst h ! i)"
  shows "heap_hole k (fst (groupHeap_Swap i j h)) n i" and "children_ok k (fst (groupHeap_Swap i j h)) n i"
proof -
  let ?a = "fst h" and ?b = "fst (groupHeap_Swap i j h)"
  have ij: "i < j" using i j parent_less [of j] by simp
  have b: "?b ! c = (if c = i then ?a ! j else if c = j then ?a ! i else ?a ! c)" for c
    using swap_nth(1) [of i h j c] n ij j by simp
  have e: "edge k ?a c" if "0 < c" "c < n" "c \<noteq> j" for c
    using hole ch that unfolding heap_hole_def children_ok_def by blast
  have gp: "k (?a ! i) \<le> k (?a ! c)" if "0 < c" "c < n" "parent c = j" for c
    using hole j that i unfolding heap_hole_def by blast
  show "children_ok k ?b n i"
    unfolding children_ok_def
  proof (intro allI impI)
    fix c assume c: "0 < c" "c < n" "parent c = i"
    then have "c \<noteq> i" using parent_less [of c] by auto
    then show "edge k ?b c"
      using b c e [OF c(1,2)] lt by (cases "c = j") (auto simp: edge_def intro: order.strict_implies_order
          dest: order.strict_trans1)
  qed
  have "edge k ?b c" if c: "0 < c" "c < n" "c \<noteq> i" "parent c \<noteq> i" for c
  proof -
    have "c \<noteq> j" using c i by auto
    show ?thesis
    proof (cases "parent c = j")
      case True
      then show ?thesis using b c gp \<open>c \<noteq> j\<close> ij by (simp add: edge_def)
    next
      case False
      then show ?thesis using b c \<open>c \<noteq> j\<close> e by (simp add: edge_def)
    qed
  qed
  moreover have "k (?b ! parent i) \<le> k (?b ! c)" if "0 < i" and c: "0 < c" "c < n" "parent c = i" for c
  proof -
    have pi: "parent i \<noteq> i" "parent i \<noteq> j" using \<open>0 < i\<close> parent_less [of i] ij by auto
    have "i < n" using ij j by simp
    then have up: "k (?a ! parent i) \<le> k (?a ! i)"
      using e [of i] \<open>0 < i\<close> ij by (simp add: edge_def)
    have "c \<noteq> i" using c parent_less [of c] by auto
    then show ?thesis
      using b pi up c e [OF c(1,2)] by (cases "c = j") (auto simp: edge_def)
  qed
  ultimately show "heap_hole k ?b n i" unfolding heap_hole_def by blast
qed

lemma heap_up_ok:
  assumes "heap_hole k (fst h) n j" and "children_ok k (fst h) n j" and "j < n"
    and "n \<le> length (fst h)" and "cmp_ok Less k (set (take n (fst h)))"
  shows "\<exists>h'. heap_up Less h j = Some h' \<and> heap_perm n h h' \<and> heap_ord k (fst h') n"
  using assms
proof (induction Less h j rule: heap_up.induct)
  case (1 Less h j)
  note hole = "1.prems"(1) and ch = "1.prems"(2) and j = "1.prems"(3) and n = "1.prems"(4)
    and cmp = "1.prems"(5)
  let ?a = "fst h" and ?i = "parent j"
  show ?case
  proof (cases "?i = j")
    case True
    then have "j = 0" by (simp add: parent_eq_self)
    moreover from this have "heap_up Less h j = Some h" by (subst heap_up.simps) simp
    ultimately show ?thesis using heap_ordI_hole [OF hole ch] by simp
  next
    case False
    then have j0: "0 < j" by (auto simp: parent_def intro: ccontr)
    have i: "?i < n" using j j0 parent_less [of j] by simp
    have less: "Less (?a ! j) (?a ! ?i) = Some (k (?a ! j) < k (?a ! ?i))"
      using cmp n i j unfolding cmp_ok_def by (metis in_set_conv_nth length_take min.absorb2 nth_take)
    have step: "heap_up Less h j =
      (if \<not> k (?a ! j) < k (?a ! ?i) then Some h else heap_up Less (groupHeap_Swap ?i j h) ?i)"
      using False less by (simp add: heap_up.simps [of Less h j] parent_def Let_def)
    show ?thesis
    proof (cases "k (?a ! j) < k (?a ! ?i)")
      case True
      let ?h = "groupHeap_Swap ?i j h"
      have p: "heap_perm n h ?h" using swap_perm [OF i j n] .
      have "cmp_ok Less k (set (take n (fst ?h)))" using cmp heap_perm_take [OF p] by simp
      moreover have "n \<le> length (fst ?h)" using p n by (simp add: heap_perm_def)
      moreover have "(j - 1) div 2 \<noteq> j" using False by (simp add: parent_def)
      moreover have "Less (?a ! j) (?a ! ((j - 1) div 2)) = Some True"
        using less True by (simp add: parent_def)
      moreover have "\<not> \<not> True" by simp
      ultimately have "\<exists>h'. heap_up Less ?h ?i = Some h' \<and> heap_perm n ?h h' \<and> heap_ord k (fst h') n"
        using "1.IH" [OF refl] hole_swap_up [OF hole ch n j j0 refl True] i
        unfolding parent_def by blast
      then obtain h' where r: "heap_up Less ?h ?i = Some h'" "heap_perm n ?h h'" "heap_ord k (fst h') n"
        by blast
      then show ?thesis using step True heap_perm_trans [OF p r(2)] by simp
    next
      case False
      then have "edge k ?a j" by (simp add: edge_def)
      then show ?thesis using heap_ordI_hole [OF hole ch] step False by simp
    qed
  qed
qed

section \<open>Correctness of Push, Pop, Remove and Fix\<close>

definition heap_ok :: "('a \<Rightarrow> 'k :: linorder) \<Rightarrow> 'a heapst \<Rightarrow> bool" where
  "heap_ok k h \<longleftrightarrow> idx_ok h \<and> heap_ord k (fst h) (length (fst h))"

lemma heap_ord_root_least:
  assumes "heap_ord k a (length a)" and "i < length a"
  shows "k (a ! 0) \<le> k (a ! i)"
  using assms(2)
proof (induction i rule: less_induct)
  case (less i)
  show ?case
  proof (cases "i = 0")
    case False
    then have "k (a ! 0) \<le> k (a ! parent i)"
      using less parent_less [of i] by simp
    also have "\<dots> \<le> k (a ! i)"
      using assms(1) less.prems False by (simp add: heap_ord_def edge_def)
    finally show ?thesis .
  qed simp
qed

lemma heap_Fix_ok:
  assumes "i < length (fst h)" and "idx_ok h" and hole: "heap_hole k (fst h) (length (fst h)) i"
    and cmp: "cmp_ok Less k (set (fst h))"
  shows "\<exists>h'. heap_Fix Less i h = Some h' \<and> heap_ok k h' \<and> heap_perm (length (fst h)) h h'"
proof -
  let ?n = "length (fst h)"
  have cmp': "cmp_ok Less k (set (take ?n (fst h)))" using cmp by simp
  from heap_down_ok [OF hole order_refl cmp']
  obtain h' i' where d: "heap_down Less h i ?n = Some (h', i')" "heap_perm ?n h h'" "i \<le> i'"
      "i' = i \<longrightarrow> h' = h \<and> children_ok k (fst h) ?n i" "i < i' \<longrightarrow> heap_ord k (fst h') ?n"
    by blast
  show ?thesis
  proof (cases "i < i'")
    case True
    then show ?thesis
      using d assms heap_perm_idx [OF d(2)] heap_perm_length [OF d(2)]
      by (simp add: heap_Fix_def heap_ok_def)
  next
    case False
    then have h': "h' = h" "children_ok k (fst h) ?n i" using d by auto
    from heap_up_ok [OF hole h'(2) assms(1) order_refl cmp']
    obtain h'' where u: "heap_up Less h i = Some h''" "heap_perm ?n h h''" "heap_ord k (fst h'') ?n"
      by blast
    then show ?thesis
      using d h' False assms heap_perm_idx [OF u(2)] heap_perm_length [OF u(2)]
      by (simp add: heap_Fix_def heap_ok_def)
  qed
qed

lemma heap_Push_ok:
  assumes ok: "heap_ok k h" and g: "g \<notin> set (fst h)" and cmp: "cmp_ok Less k (insert g (set (fst h)))"
  shows "\<exists>h'. heap_Push Less g h = Some h' \<and> heap_ok k h' \<and> mset (fst h') = add_mset g (mset (fst h)) \<and>
    (\<forall>x. x \<notin> insert g (set (fst h)) \<longrightarrow> snd h' x = snd h x)"
proof -
  let ?h = "groupHeap_Push g h" and ?n = "length (fst h)"
  have l: "fst ?h = fst h @ [g]" "length (fst ?h) = Suc ?n" by (simp_all add: groupHeap_Push_def)
  have idx: "idx_ok ?h"
    using ok g by (auto simp: idx_ok_def heap_ok_def groupHeap_Push_def nth_append less_Suc_eq)
  have e: "edge k (fst ?h) c" if "0 < c" "c < ?n" for c
  proof -
    have "parent c < ?n" using parent_less [of c] that by simp
    then show ?thesis using that ok l(1) by (simp add: heap_ok_def heap_ord_def edge_def nth_append)
  qed
  have ch: "parent c \<noteq> ?n" if "0 < c" "c < Suc ?n" for c
    using that parent_less [of c] by simp
  have "heap_hole k (fst ?h) (Suc ?n) ?n" "children_ok k (fst ?h) (Suc ?n) ?n"
    using e ch by (auto simp: heap_hole_def children_ok_def less_Suc_eq)
  moreover have "cmp_ok Less k (set (take (Suc ?n) (fst ?h)))" using cmp l by simp
  ultimately obtain h' where "heap_up Less ?h ?n = Some h'" "heap_perm (Suc ?n) ?h h'"
      "heap_ord k (fst h') (Suc ?n)"
    using heap_up_ok [of k ?h "Suc ?n" ?n Less] l(2) by (metis lessI order_refl)
  then show ?thesis
    using l idx by (auto simp: heap_Push_def Let_def heap_ok_def heap_perm_def groupHeap_Push_def)
qed

text \<open>
  Removing the element at \<open>i\<close> never compares it: the comparison is required to be defined
  on the other elements only.
\<close>

lemma heap_detach:
  assumes "i < length (fst h)" and idx: "idx_ok h"
    and perm: "heap_perm (length (fst h) - 1) (groupHeap_Swap i (length (fst h) - 1) h) h'"
    and ord: "heap_ord k (fst h') (length (fst h) - 1)"
  shows "\<exists>h''. groupHeap_Pop h' = Some (fst h ! i, h'') \<and> heap_ok k h'' \<and>
    mset (fst h'') = mset (fst h) - {#fst h ! i#} \<and> snd h'' (fst h ! i) = - 1 \<and>
    (\<forall>x. x \<notin> set (fst h) \<longrightarrow> snd h'' x = snd h x)"
proof -
  let ?n = "length (fst h) - 1" and ?g = "fst h ! i"
  let ?s = "groupHeap_Swap i ?n h"
  have n: "?n < length (fst h)" "Suc ?n = length (fst h)" using assms(1) by auto
  have sn: "fst ?s ! ?n = ?g" using swap_nth(1) [OF assms(1) n(1), of ?n] by simp
  have ls: "length (fst ?s) = Suc ?n" "length (fst h') = Suc ?n"
    using swap_nth(2) [OF assms(1) n(1)] n perm by (simp_all add: heap_perm_def)
  have sp: "heap_perm (length (fst h)) h ?s" using swap_perm [OF assms(1) n(1) le_refl] .
  have "drop ?n (fst ?s) = [?g]"
    using ls(1) sn Cons_nth_drop_Suc [of ?n "fst ?s"] by simp
  then have dr: "drop ?n (fst h') = [?g]" using perm by (simp add: heap_perm_def)
  define t where "t = take ?n (fst h')"
  have h': "fst h' = t @ [?g]" unfolding t_def dr [symmetric] by (rule append_take_drop_id [symmetric])
  have lt: "length t = ?n" using ls by (simp add: t_def)
  have ok': "idx_ok h'" using perm sp idx by (simp add: heap_perm_def)
  have ms: "mset (fst h') = mset (fst h)"
  proof -
    have "mset (fst h') = mset t + mset (drop ?n (fst h'))" using h' dr by simp
    also have "\<dots> = mset (take ?n (fst ?s)) + mset (drop ?n (fst ?s))"
      using perm by (simp add: heap_perm_def t_def)
    also have "\<dots> = mset (fst ?s)" by (simp flip: mset_append)
    also have "\<dots> = mset (fst h)" using sp by (rule heap_perm_mset)
    finally show ?thesis .
  qed
  let ?r = "(t, (snd h')(?g := - 1))"
  have "groupHeap_Pop h' = Some (?g, ?r)" by (simp add: groupHeap_Pop_def Let_def h')
  moreover have "idx_ok ?r"
  proof -
    have d: "distinct (t @ [?g])" and ix: "\<And>c. c < Suc ?n \<Longrightarrow> snd h' ((t @ [?g]) ! c) = int c"
      using ok' h' lt by (simp_all add: idx_ok_def)
    have "snd h' (t ! c) = int c \<and> t ! c \<noteq> ?g" if "c < ?n" for c
    proof -
      have "t ! c \<in> set t" and "?g \<notin> set t" using that lt d by simp_all
      then have "t ! c \<noteq> ?g" by metis
      then show ?thesis using ix [of c] that lt by (simp add: nth_append)
    qed
    then show ?thesis using d lt by (simp add: idx_ok_def)
  qed
  moreover have "heap_ord k t ?n"
  proof -
    have "parent c < ?n" if "0 < c" "c < ?n" for c using parent_less [OF that(1)] that by simp
    then show ?thesis using ord lt by (simp add: heap_ord_def edge_def h' nth_append)
  qed
  moreover have "mset t = mset (fst h) - {#?g#}" using ms h' by (simp flip: ms)
  moreover have "snd h' x = snd h x" if x: "x \<notin> set (fst h)" for x
  proof -
    have "x \<notin> set (take ?n (fst ?s))" using x heap_perm_set [OF sp] in_set_takeD [of x ?n "fst ?s"] by blast
    then have "snd h' x = snd ?s x" using perm by (simp add: heap_perm_def)
    also have "\<dots> = snd h x" using sp x by (simp add: heap_perm_def)
    finally show ?thesis .
  qed
  moreover have "?g \<in> set (fst h)" using assms(1) by simp
  ultimately show ?thesis using lt by (auto simp: heap_ok_def)
qed

lemma take_swap_last:
  assumes "i < length (fst h)" and "idx_ok h"
  shows "set (take (length (fst h) - 1) (fst (groupHeap_Swap i (length (fst h) - 1) h))) = set (fst h) - {fst h ! i}"
proof -
  let ?n = "length (fst h) - 1" let ?s = "groupHeap_Swap i ?n h"
  have n: "?n < length (fst h)" using assms(1) by auto
  have perm: "heap_perm (length (fst h)) h ?s" using swap_perm [OF assms(1) n le_refl] .
  have d: "distinct (fst ?s)" using heap_perm_idx [OF perm assms(2)] by (simp add: idx_ok_def)
  note sset = heap_perm_set [OF perm] and l = heap_perm_length [OF perm]
  have last: "fst ?s ! ?n = fst h ! i" using swap_nth(1) [OF assms(1) n, of ?n] by simp
  define t where "t = take ?n (fst ?s)"
  have "fst ?s = t @ [fst h ! i]"
    using take_Suc_conv_app_nth [of ?n "fst ?s"] n l last by (simp add: t_def)
  then have "set t = set (fst h) - {fst h ! i}" using sset d by auto
  then show ?thesis by (simp add: t_def)
qed

lemma hole_swap_last:
  assumes "i < length (fst h) - 1" and "heap_hole k (fst h) (length (fst h)) i"
  shows "heap_hole k (fst (groupHeap_Swap i (length (fst h) - 1) h)) (length (fst h) - 1) i"
proof -
  let ?n = "length (fst h) - 1" let ?b = "fst (groupHeap_Swap i ?n h)"
  have b: "?b ! c = (if c = i then fst h ! ?n else fst h ! c)" if "c < ?n" for c
    using swap_nth(1) [of i h ?n c] assms(1) that by simp
  have p: "parent c < ?n" if "0 < c" "c < ?n" for c
    using parent_less [OF that(1)] that(2) by simp
  have "edge k ?b c" if "0 < c" "c < ?n" "c \<noteq> i" "parent c \<noteq> i" for c
    using assms that b [of c] b [OF p, of c] by (simp add: heap_hole_def edge_def)
  moreover have "k (?b ! parent i) \<le> k (?b ! c)" if "0 < i" "0 < c" "c < ?n" "parent c = i" for c
    using assms that b [of c] b [OF p, of i] parent_less [OF that(1)] parent_less [OF that(2)]
    by (auto simp: heap_hole_def)
  ultimately show ?thesis unfolding heap_hole_def by blast
qed

lemma heap_Remove_ok:
  assumes i: "i < length (fst h)" and idx: "idx_ok h" and hole: "heap_hole k (fst h) (length (fst h)) i"
    and cmp: "cmp_ok Less k (set (fst h) - {fst h ! i})"
  shows "\<exists>h'. heap_Remove Less i h = Some (fst h ! i, h') \<and> heap_ok k h' \<and>
    mset (fst h') = mset (fst h) - {#fst h ! i#} \<and> snd h' (fst h ! i) = - 1 \<and>
    (\<forall>x. x \<notin> set (fst h) \<longrightarrow> snd h' x = snd h x)"
proof -
  let ?n = "length (fst h) - 1"
  let ?s = "groupHeap_Swap i ?n h"
  define r where "r = (if ?n \<noteq> i then do {
      (h, i') \<leftarrow> heap_down Less ?s i ?n;
      if \<not> i' > i then heap_up Less h i else Some h } else Some h)"
  have rem: "heap_Remove Less i h = Option.bind r groupHeap_Pop"
    using i by (simp add: heap_Remove_def r_def Let_def)
  have "\<exists>h'. r = Some h' \<and> heap_perm ?n ?s h' \<and> heap_ord k (fst h') ?n"
  proof (cases "?n = i")
    case True
    have self: "fst ?s ! c = fst h ! c" for c
      using swap_nth(1) [OF i, of ?n c] i True by simp
    have "?s = h"
    proof -
      have "length (fst ?s) = length (fst h)" using swap_nth(2) [OF i, of ?n] i by simp
      then have "fst ?s = fst h" by (rule nth_equalityI) (rule self)
      moreover have "snd ?s = snd h" using idx i True by (auto simp: groupHeap_Swap_def idx_ok_def Let_def)
      ultimately show ?thesis by (simp add: prod_eq_iff)
    qed
    moreover have "heap_ord k (fst h) ?n"
      unfolding heap_ord_def
    proof (intro allI impI)
      fix c assume c: "0 < c" "c < ?n"
      then have "parent c \<noteq> i" "c \<noteq> i" using True parent_less [OF c(1)] by auto
      then show "edge k (fst h) c" using hole c unfolding heap_hole_def by simp
    qed
    ultimately show ?thesis using True by (simp add: r_def)
  next
    case False
    then have i': "i < ?n" using i by simp
    note hs = hole_swap_last [OF i' hole]
    have l: "?n \<le> length (fst ?s)" using swap_nth(2) [OF i, of ?n] i by simp
    have c: "cmp_ok Less k (set (take ?n (fst ?s)))" using cmp take_swap_last [OF i idx] by simp
    from heap_down_ok [OF hs l c]
    obtain h' j where d: "heap_down Less ?s i ?n = Some (h', j)" "heap_perm ?n ?s h'" "i \<le> j"
        "j = i \<longrightarrow> h' = ?s \<and> children_ok k (fst ?s) ?n i" "i < j \<longrightarrow> heap_ord k (fst h') ?n"
      by blast
    show ?thesis
    proof (cases "i < j")
      case True
      then show ?thesis using d False by (simp add: r_def)
    next
      case F: False
      then have h': "h' = ?s" "children_ok k (fst ?s) ?n i" using d by auto
      from heap_up_ok [OF hs h'(2) i' l c]
      show ?thesis using d F False h'(1) by (simp add: r_def)
    qed
  qed
  then obtain h' where h': "r = Some h'" "heap_perm ?n ?s h'" "heap_ord k (fst h') ?n" by blast
  from heap_detach [OF i idx h'(2,3)] show ?thesis unfolding rem h'(1) by simp
qed

lemma heap_Pop_ok:
  assumes ne: "fst h \<noteq> []" and ok: "heap_ok k h" and cmp: "cmp_ok Less k (set (fst h) - {hd (fst h)})"
  shows "\<exists>h'. heap_Pop Less h = Some (hd (fst h), h') \<and> heap_ok k h' \<and>
    mset (fst h') = mset (fst h) - {#hd (fst h)#} \<and> snd h' (hd (fst h)) = - 1 \<and>
    (\<forall>x. x \<notin> set (fst h) \<longrightarrow> snd h' x = snd h x)"
proof -
  let ?n = "length (fst h) - 1"
  let ?s = "groupHeap_Swap 0 ?n h"
  have hd: "hd (fst h) = fst h ! 0" using ne by (simp add: hd_conv_nth)
  have i: "0 < length (fst h)" using ne by simp
  have idx: "idx_ok h" using ok by (simp add: heap_ok_def)
  have hole: "heap_hole k (fst ?s) ?n 0"
  proof (cases "?n = 0")
    case False
    moreover have "heap_hole k (fst h) (length (fst h)) 0"
      using ok i by (intro heap_ord_hole) (simp_all add: heap_ok_def)
    ultimately show ?thesis by (intro hole_swap_last) simp
  qed (simp add: heap_hole_def)
  have l: "?n \<le> length (fst ?s)" using swap_nth(2) [OF i, of ?n] i by simp
  have c: "cmp_ok Less k (set (take ?n (fst ?s)))" using cmp take_swap_last [OF i idx] hd by simp
  from heap_down_ok [OF hole l c]
  obtain h' j where d: "heap_down Less ?s 0 ?n = Some (h', j)" "heap_perm ?n ?s h'" "heap_ord k (fst h') ?n"
    by blast
  from heap_detach [OF i idx d(2,3)] show ?thesis using ne d(1) hd by (simp add: heap_Pop_def Let_def)
qed

lemmas heap_ops_ok = heap_Push_ok heap_Pop_ok heap_Remove_ok heap_Fix_ok

end
