(* ===== verification/Budget.thy ===== *)
theory Budget
  imports Messages GroupHeap
begin

text \<open>
  \<open>byte_budget.go\<close>: the byte budget shared by the clients of a process. The groups,
  waiters and wake channels the Go code reaches through pointers live in stores of the
  record \<open>ByteBudget\<close>, indexed by references; reference 0 is \<open>&bb.legacy\<close>. A
  \<open>container/list\<close> of groups is the list of their references, and the list element a
  group keeps (\<open>allElem\<close>, \<open>reserveElem\<close>) is whether it has one: a group is at most once
  in each list. Every operation runs under \<open>bb.mu\<close> from its first line to its last, so
  it is one atomic function of the record. \<open>None\<close> is a panic (nil dereference, second
  close of a channel) or a loop that does not end.
\<close>

section \<open>Data\<close>

record budgetGroup =
  g_key :: string
  g_refs :: u64
  g_used :: u64
  g_escape :: u64
  g_pending :: u64
  g_active :: bool
  g_waiters :: "nat list"
  g_allElem :: bool
  g_reserveElem :: bool
  g_heapIndex :: int

record budgetWaiter =
  w_n :: u64
  w_credit :: u64
  w_group :: nat
  w_wake :: "nat option"
  w_elem :: bool
  w_granted :: bool

record ByteBudget =
  bb_total :: u64
  bb_used :: u64
  bb_escape :: u64
  bb_fair :: bool
  bb_reserve :: u64
  bb_minGroup :: u64
  bb_groups :: "string \<rightharpoonup> nat"
  bb_active :: u64
  bb_legacyWake :: "nat option"
  bb_waiting :: "nat list"
  bb_reserveReady :: "nat list"
  bb_blocked :: "nat list"
  \<comment> \<open>the objects behind the pointers\<close>
  grp :: "nat \<Rightarrow> budgetGroup"
  wtr :: "nat \<Rightarrow> budgetWaiter"
  chanClosed :: "nat \<Rightarrow> bool"
  next_grp :: nat
  next_wtr :: nat
  next_chan :: nat

record FairByteBudgetOptions =
  ReserveBytes :: u64
  MinGroupBytes :: u64

definition zeroGroup :: budgetGroup where
  "zeroGroup = \<lparr>g_key = [], g_refs = 0, g_used = 0, g_escape = 0, g_pending = 0, g_active = False,
     g_waiters = [], g_allElem = False, g_reserveElem = False, g_heapIndex = - 1\<rparr>"

definition zeroWaiter :: budgetWaiter where
  "zeroWaiter = \<lparr>w_n = 0, w_credit = 0, w_group = 0, w_wake = None, w_elem = False, w_granted = False\<rparr>"

definition set_grp :: "nat \<Rightarrow> (budgetGroup \<Rightarrow> budgetGroup) \<Rightarrow> ByteBudget \<Rightarrow> ByteBudget" where
  "set_grp g f bb = bb\<lparr>grp := (grp bb)(g := f (grp bb g))\<rparr>"

definition set_wtr :: "nat \<Rightarrow> (budgetWaiter \<Rightarrow> budgetWaiter) \<Rightarrow> ByteBudget \<Rightarrow> ByteBudget" where
  "set_wtr w f bb = bb\<lparr>wtr := (wtr bb)(w := f (wtr bb w))\<rparr>"

text \<open>\<open>make(chan struct{})\<close> and \<open>close\<close>.\<close>

definition make_chan :: "ByteBudget \<Rightarrow> nat \<times> ByteBudget" where
  "make_chan bb = (next_chan bb,
     bb\<lparr>chanClosed := (chanClosed bb)(next_chan bb := False), next_chan := Suc (next_chan bb)\<rparr>)"

definition close_chan :: "nat option \<Rightarrow> ByteBudget \<Rightarrow> ByteBudget option" where
  "close_chan c bb =
     (case c of None \<Rightarrow> None
      | Some c \<Rightarrow> if chanClosed bb c then None else Some (bb\<lparr>chanClosed := (chanClosed bb)(c := True)\<rparr>))"

section \<open>Construction and registration\<close>

definition NewByteBudget :: "u64 \<Rightarrow> ByteBudget" where
  "NewByteBudget tot =
     \<lparr>bb_total = tot, bb_used = 0, bb_escape = 0, bb_fair = False, bb_reserve = 0, bb_minGroup = 0,
      bb_groups = Map.empty, bb_active = 0, bb_legacyWake = None, bb_waiting = [], bb_reserveReady = [],
      bb_blocked = [], grp = (\<lambda>_. zeroGroup), wtr = (\<lambda>_. zeroWaiter), chanClosed = (\<lambda>_. False),
      next_grp = 1, next_wtr = 0, next_chan = 0\<rparr>"

definition NewFairByteBudget :: "u64 \<Rightarrow> FairByteBudgetOptions \<Rightarrow> go_error + ByteBudget" where
  "NewFairByteBudget tot opts =
     (let reserve = (if ReserveBytes opts = 0 then tot div 8 else ReserveBytes opts) in
      if (tot = 0 \<and> reserve \<noteq> 0) \<or> (tot \<noteq> 0 \<and> reserve \<ge> tot) then Inl ErrFairReserve
      else
        let minGroup = (if MinGroupBytes opts = 0 then messageOverheadBytes else MinGroupBytes opts) in
        Inr ((NewByteBudget tot)\<lparr>bb_fair := True, bb_reserve := reserve, bb_minGroup := minGroup,
               bb_groups := Map.empty\<rparr>))"

text \<open>A nil budget is \<open>None\<close>; it is unlimited, and every method accepts it.\<close>

type_synonym budgetp = "ByteBudget option"

definition register :: "string \<Rightarrow> budgetp \<Rightarrow> (go_error + nat option) \<times> budgetp" where
  "register key p =
     (case p of
        None \<Rightarrow> (Inr None, p)
      | Some bb \<Rightarrow>
          if \<not> bb_fair bb then (Inr None, p)
          else if key = [] then (Inl ErrBudgetGroupMissing, p)
          else (case bb_groups bb key of
                  Some g \<Rightarrow> (Inr (Some g), Some (set_grp g (\<lambda>G. G\<lparr>g_refs := g_refs G + 1\<rparr>) bb))
                | None \<Rightarrow>
                    let g = next_grp bb;
                        bb = bb\<lparr>next_grp := Suc g,
                                grp := (grp bb)(g := zeroGroup\<lparr>g_key := key, g_refs := 1\<rparr>),
                                bb_groups := (bb_groups bb)(key \<mapsto> g)\<rparr>
                    in (Inr (Some g), Some bb)))"

definition unregisterLocked :: "nat \<Rightarrow> ByteBudget \<Rightarrow> ByteBudget" where
  "unregisterLocked g bb =
     (if \<not> bb_fair bb then bb
      else let bb = set_grp g (\<lambda>G. G\<lparr>g_refs := g_refs G - 1\<rparr>) bb in
        if g_refs (grp bb g) = 0 then bb\<lparr>bb_groups := (bb_groups bb)(g_key (grp bb g) := None)\<rparr>
        else bb)"

definition unregister :: "nat option \<Rightarrow> budgetp \<Rightarrow> budgetp" where
  "unregister g p =
     (case (p, g) of (Some bb, Some g) \<Rightarrow> Some (unregisterLocked g bb) | _ \<Rightarrow> p)"

definition group :: "nat option \<Rightarrow> nat" where
  "group g = (case g of None \<Rightarrow> 0 | Some g \<Rightarrow> g)"

definition Total :: "budgetp \<Rightarrow> u64" where
  "Total p = (case p of None \<Rightarrow> 0 | Some bb \<Rightarrow> bb_total bb)"

definition Used :: "budgetp \<Rightarrow> u64" where
  "Used p = (case p of None \<Rightarrow> 0 | Some bb \<Rightarrow> bb_used bb)"

section \<open>Accounting\<close>

definition activateLocked :: "nat \<Rightarrow> ByteBudget \<Rightarrow> ByteBudget" where
  "activateLocked g bb =
     (if \<not> bb_fair bb then bb
      else let active = (g_used (grp bb g) \<noteq> 0 \<or> g_pending (grp bb g) \<noteq> 0) in
        if active \<noteq> g_active (grp bb g) then
          set_grp g (\<lambda>G. G\<lparr>g_active := active\<rparr>)
            (bb\<lparr>bb_active := (if active then bb_active bb + 1 else bb_active bb - 1)\<rparr>)
        else bb)"

definition share :: "nat \<Rightarrow> ByteBudget \<Rightarrow> u64" where
  "share g bb =
     (let n = bb_active bb;
          n = (if \<not> g_active (grp bb g) then n + 1 else n);
          n = (if n < 2 then 2 else n);
          sh = bb_total bb div n
      in if sh < bb_minGroup bb then bb_minGroup bb else sh)"

text \<open>\<open>groupNeed\<close> dereferences the front waiter: it panics when there is none.\<close>

definition groupNeed :: "nat \<Rightarrow> ByteBudget \<Rightarrow> u64 option" where
  "groupNeed g bb =
     (case g_waiters (grp bb g) of
        [] \<Rightarrow> None
      | w # _ \<Rightarrow>
          let held = g_used (grp bb g);
              remaining = w_n (wtr bb w) - w_credit (wtr bb w)
          in Some (if remaining > MaxUint64 - held then MaxUint64 else held + remaining))"

definition fits :: "u64 \<Rightarrow> nat \<Rightarrow> ByteBudget \<Rightarrow> bool" where
  "fits n g bb =
     (if bb_total bb = 0 then True
      else let used = bb_used bb - bb_escape bb in
        if n > bb_total bb \<or> used > bb_total bb - n then False
        else if \<not> bb_fair bb \<or> used + n \<le> bb_total bb - bb_reserve bb then True
        else let sh = share g bb; held = g_used (grp bb g) in n \<le> sh \<and> held \<le> sh - n)"

definition charge :: "u64 \<Rightarrow> nat \<Rightarrow> bool \<Rightarrow> ByteBudget \<Rightarrow> ByteBudget" where
  "charge n g escape bb =
     (if \<not> bb_fair bb then bb\<lparr>bb_used := bb_used bb + n\<rparr>
      else
        let bb = set_grp g (\<lambda>G. G\<lparr>g_used := g_used G + n\<rparr>) bb;
            bb = bb\<lparr>bb_used := bb_used bb + n\<rparr>;
            bb = (if escape then (set_grp g (\<lambda>G. G\<lparr>g_escape := g_escape G + n\<rparr>) bb)
                                    \<lparr>bb_escape := bb_escape bb + n\<rparr>
                  else bb)
        in activateLocked g bb)"

definition releaseLocked :: "u64 \<Rightarrow> u64 \<Rightarrow> nat \<Rightarrow> ByteBudget \<Rightarrow> ByteBudget" where
  "releaseLocked n escape g bb =
     (if \<not> bb_fair bb then
        let n = (if n > bb_used bb then bb_used bb else n)
        in bb\<lparr>bb_used := bb_used bb - n\<rparr>
      else
        let n = (if n > g_used (grp bb g) then g_used (grp bb g) else n);
            n = (if n > bb_used bb then bb_used bb else n);
            bb = (set_grp g (\<lambda>G. G\<lparr>g_used := g_used G - n, g_escape := g_escape G - escape\<rparr>) bb)
                   \<lparr>bb_used := bb_used bb - n, bb_escape := bb_escape bb - escape\<rparr>
        in activateLocked g bb)"

section \<open>The waiting, reserve-ready and blocked groups\<close>

definition groupHeap_Less :: "ByteBudget \<Rightarrow> nat \<Rightarrow> nat \<Rightarrow> bool option" where
  "groupHeap_Less bb x y = do {
     a \<leftarrow> groupNeed x bb;
     b \<leftarrow> groupNeed y bb;
     Some (a < b)
   }"

text \<open>The heap of \<open>blocked\<close>: its slice and the \<open>heapIndex\<close> fields of the groups.\<close>

definition get_heap :: "ByteBudget \<Rightarrow> nat heapst" where
  "get_heap bb = (bb_blocked bb, \<lambda>g. g_heapIndex (grp bb g))"

definition put_heap :: "nat heapst \<Rightarrow> ByteBudget \<Rightarrow> ByteBudget" where
  "put_heap h bb = bb\<lparr>bb_blocked := fst h, grp := (\<lambda>g. (grp bb g)\<lparr>g_heapIndex := snd h g\<rparr>)\<rparr>"

definition blocked_Push :: "nat \<Rightarrow> ByteBudget \<Rightarrow> ByteBudget option" where
  "blocked_Push g bb = do {
     h \<leftarrow> heap_Push (groupHeap_Less bb) g (get_heap bb);
     Some (put_heap h bb)
   }"

definition blocked_Pop :: "ByteBudget \<Rightarrow> (nat \<times> ByteBudget) option" where
  "blocked_Pop bb = do {
     (g, h) \<leftarrow> heap_Pop (groupHeap_Less bb) (get_heap bb);
     Some (g, put_heap h bb)
   }"

definition blocked_Remove :: "int \<Rightarrow> ByteBudget \<Rightarrow> ByteBudget option" where
  "blocked_Remove i bb = do {
     (_, h) \<leftarrow> heap_Remove (groupHeap_Less bb) (nat i) (get_heap bb);
     Some (put_heap h bb)
   }"

definition blocked_Fix :: "int \<Rightarrow> ByteBudget \<Rightarrow> ByteBudget option" where
  "blocked_Fix i bb = do {
     h \<leftarrow> heap_Fix (groupHeap_Less bb) (nat i) (get_heap bb);
     Some (put_heap h bb)
   }"

definition waiting_PushBack :: "nat \<Rightarrow> ByteBudget \<Rightarrow> ByteBudget" where
  "waiting_PushBack g bb =
     set_grp g (\<lambda>G. G\<lparr>g_allElem := True\<rparr>) (bb\<lparr>bb_waiting := bb_waiting bb @ [g]\<rparr>)"

definition waiting_Remove :: "nat \<Rightarrow> ByteBudget \<Rightarrow> ByteBudget" where
  "waiting_Remove g bb =
     set_grp g (\<lambda>G. G\<lparr>g_allElem := False\<rparr>) (bb\<lparr>bb_waiting := remove1 g (bb_waiting bb)\<rparr>)"

definition ready_PushBack :: "nat \<Rightarrow> ByteBudget \<Rightarrow> ByteBudget" where
  "ready_PushBack g bb =
     set_grp g (\<lambda>G. G\<lparr>g_reserveElem := True\<rparr>) (bb\<lparr>bb_reserveReady := bb_reserveReady bb @ [g]\<rparr>)"

definition ready_Remove :: "nat \<Rightarrow> ByteBudget \<Rightarrow> ByteBudget" where
  "ready_Remove g bb =
     set_grp g (\<lambda>G. G\<lparr>g_reserveElem := False\<rparr>) (bb\<lparr>bb_reserveReady := remove1 g (bb_reserveReady bb)\<rparr>)"

definition move_to_back :: "nat \<Rightarrow> nat list \<Rightarrow> nat list" where
  "move_to_back g xs = remove1 g xs @ [g]"

definition refreshLocked :: "nat \<Rightarrow> ByteBudget \<Rightarrow> ByteBudget option" where
  "refreshLocked g bb =
     (if length (g_waiters (grp bb g)) = 0 then do {
        let bb = (if g_allElem (grp bb g) then waiting_Remove g bb else bb);
        let bb = (if g_reserveElem (grp bb g) then ready_Remove g bb else bb);
        if g_heapIndex (grp bb g) \<ge> 0 then blocked_Remove (g_heapIndex (grp bb g)) bb else Some bb
      } else do {
        let bb = (if \<not> g_allElem (grp bb g) then waiting_PushBack g bb else bb);
        need \<leftarrow> groupNeed g bb;
        let eligible = (\<not> bb_fair bb \<or> need \<le> share g bb);
        if eligible then do {
          bb \<leftarrow> (if g_heapIndex (grp bb g) \<ge> 0 then blocked_Remove (g_heapIndex (grp bb g)) bb else Some bb);
          Some (if \<not> g_reserveElem (grp bb g) then ready_PushBack g bb else bb)
        } else do {
          let bb = (if g_reserveElem (grp bb g) then ready_Remove g bb else bb);
          if g_heapIndex (grp bb g) < 0 then blocked_Push g bb
          else blocked_Fix (g_heapIndex (grp bb g)) bb
        }
      })"

text \<open>The two loops of \<open>nextReserveLocked\<close>: promote blocked heads, then find an eligible head.\<close>

partial_function (option) promote_loop :: "ByteBudget \<Rightarrow> ByteBudget option" where
  "promote_loop bb =
     (if length (bb_blocked bb) = 0 then Some bb
      else Option.bind (groupNeed (bb_blocked bb ! 0) bb) (\<lambda>need.
        if need > share (bb_blocked bb ! 0) bb then Some bb
        else Option.bind (blocked_Pop bb) (\<lambda>r. promote_loop (ready_PushBack (bb_blocked bb ! 0) (snd r)))))"

partial_function (option) ready_loop :: "ByteBudget \<Rightarrow> (nat option \<times> ByteBudget) option" where
  "ready_loop bb =
     (case bb_reserveReady bb of
        [] \<Rightarrow> Some (None, bb)
      | g # _ \<Rightarrow>
          Option.bind (groupNeed g bb) (\<lambda>need.
            if need \<le> share g bb then Some (Some g, bb)
            else Option.bind (refreshLocked g bb) ready_loop))"

definition nextReserveLocked :: "ByteBudget \<Rightarrow> (nat option \<times> ByteBudget) option" where
  "nextReserveLocked bb = do {
     bb \<leftarrow> promote_loop bb;
     ready_loop bb
   }"

definition budgetQuantum :: u64 where
  "budgetQuantum = 65536"

text \<open>One turn of the scheduling loop; \<open>False\<close> where the source returns.\<close>

definition schedule_turn :: "ByteBudget \<Rightarrow> (bool \<times> ByteBudget) option" where
  "schedule_turn bb =
     (let used = bb_used bb - bb_escape bb in
      if bb_total bb \<noteq> 0 \<and> used \<ge> bb_total bb then Some (False, bb)
      else do {
        let base = (if bb_total bb = 0 then MaxUint64
                    else if used < bb_total bb - bb_reserve bb then bb_total bb - bb_reserve bb - used
                    else 0);
        (pick, bb) \<leftarrow> (if base \<noteq> 0 \<or> \<not> bb_fair bb then
                         (case bb_waiting bb of [] \<Rightarrow> None | g # _ \<Rightarrow> Some (Some g, bb))
                       else nextReserveLocked bb);
        case pick of
          None \<Rightarrow> Some (False, bb)
        | Some g \<Rightarrow> do {
            w \<leftarrow> (case g_waiters (grp bb g) of [] \<Rightarrow> None | w # _ \<Rightarrow> Some w);
            room \<leftarrow> (if bb_total bb = 0 then Some MaxUint64
                     else if \<not> bb_fair bb then Some (bb_total bb - used)
                     else do {
                       need \<leftarrow> groupNeed g bb;
                       Some (if need \<le> share g bb then bb_total bb - used else base)
                     });
            let credit = w_n (wtr bb w) - w_credit (wtr bb w);
            let credit = (if credit > budgetQuantum then budgetQuantum else credit);
            let credit = (if credit > room then room else credit);
            if credit = 0 then Some (False, bb)
            else do {
              let bb = charge credit g False bb;
              let bb = set_wtr w (\<lambda>W. W\<lparr>w_credit := w_credit W + credit\<rparr>) bb;
              bb \<leftarrow> (if w_credit (wtr bb w) = w_n (wtr bb w) then do {
                       let bb = set_grp g (\<lambda>G. G\<lparr>g_waiters := remove1 w (g_waiters G)\<rparr>) bb;
                       let bb = set_wtr w (\<lambda>W. W\<lparr>w_elem := False, w_granted := True\<rparr>) bb;
                       close_chan (w_wake (wtr bb w)) bb
                     } else Some bb);
              bb \<leftarrow> refreshLocked g bb;
              let bb = (if g_allElem (grp bb g) then bb\<lparr>bb_waiting := move_to_back g (bb_waiting bb)\<rparr> else bb);
              let bb = (if g_reserveElem (grp bb g)
                        then bb\<lparr>bb_reserveReady := move_to_back g (bb_reserveReady bb)\<rparr> else bb);
              Some (True, bb)
            }
          }
      })"

partial_function (option) scheduleLocked :: "ByteBudget \<Rightarrow> ByteBudget option" where
  "scheduleLocked bb =
     (if length (bb_waiting bb) = 0 then Some bb
      else Option.bind (schedule_turn bb) (\<lambda>r. if fst r then scheduleLocked (snd r) else Some (snd r)))"

declare promote_loop.simps [code] ready_loop.simps [code] scheduleLocked.simps [code]

section \<open>Reserve, cancel, release\<close>

definition removeWaiterLocked :: "nat \<Rightarrow> ByteBudget \<Rightarrow> ByteBudget option" where
  "removeWaiterLocked w bb = do {
     let g = w_group (wtr bb w);
     let bb = (if w_elem (wtr bb w)
               then set_wtr w (\<lambda>W. W\<lparr>w_elem := False\<rparr>)
                      (set_grp g (\<lambda>G. G\<lparr>g_waiters := remove1 w (g_waiters G)\<rparr>) bb)
               else bb);
     let bb = (if w_credit (wtr bb w) \<noteq> 0
               then set_wtr w (\<lambda>W. W\<lparr>w_credit := 0\<rparr>) (releaseLocked (w_credit (wtr bb w)) 0 g bb)
               else bb);
     let bb = set_grp g (\<lambda>G. G\<lparr>g_pending := g_pending G - 1\<rparr>) bb;
     let bb = activateLocked g bb;
     let bb = unregisterLocked g bb;
     refreshLocked g bb
   }"

text \<open>The result of \<open>reserveFor\<close>: admitted, overshot, used, waiter, and the new budget.\<close>

type_synonym reserve_result = "bool \<times> bool \<times> u64 \<times> nat option \<times> ByteBudget"

definition reserve_legacy :: "u64 \<Rightarrow> bool \<Rightarrow> nat option \<Rightarrow> ByteBudget \<Rightarrow> reserve_result" where
  "reserve_legacy n force w bb =
     (let fits = (bb_total bb = 0 \<or> (n \<le> bb_total bb \<and> bb_used bb \<le> bb_total bb - n)) in
      if fits \<or> force then
        let bb = bb\<lparr>bb_used := bb_used bb + n\<rparr> in (True, \<not> fits, bb_used bb, None, bb)
      else
        let bb = (case bb_legacyWake bb of
                    Some _ \<Rightarrow> bb
                  | None \<Rightarrow> let (c, bb) = make_chan bb in bb\<lparr>bb_legacyWake := Some c\<rparr>);
            (w, bb) = (case w of
                         Some w \<Rightarrow> (w, bb)
                       | None \<Rightarrow> (next_wtr bb, bb\<lparr>wtr := (wtr bb)(next_wtr bb := zeroWaiter),
                                                 next_wtr := Suc (next_wtr bb)\<rparr>));
            bb = set_wtr w (\<lambda>W. W\<lparr>w_wake := bb_legacyWake bb\<rparr>) bb
        in (False, False, bb_used bb, Some w, bb))"

definition reserve_fair :: "u64 \<Rightarrow> bool \<Rightarrow> nat \<Rightarrow> nat option \<Rightarrow> ByteBudget \<Rightarrow> reserve_result option" where
  "reserve_fair n force g w bb =
     (if w \<noteq> None \<and> w_granted (wtr bb (the w)) then
        let bb = set_grp g (\<lambda>G. G\<lparr>g_pending := g_pending G - 1\<rparr>) bb;
            bb = activateLocked g bb;
            bb = unregisterLocked g bb
        in Some (True, False, bb_used bb, None, bb)
      else do {
        let removed = (w \<noteq> None \<and> force);
        bb \<leftarrow> (if removed then removeWaiterLocked (the w) bb else Some bb);
        let w = (if removed then None else w);
        if w \<noteq> None then Some (False, False, bb_used bb, w, bb)
        else do {
          let fit = fits n g bb;
          if (fit \<and> length (g_waiters (grp bb g)) = 0) \<or> force then do {
            let escaped = (bb_fair bb \<and> (\<not> fit \<or> length (g_waiters (grp bb g)) \<noteq> 0));
            let bb = charge n g escaped bb;
            bb \<leftarrow> (if length (g_waiters (grp bb g)) \<noteq> 0 then refreshLocked g bb else Some bb);
            bb \<leftarrow> (if removed then scheduleLocked bb else Some bb);
            Some (True, \<not> fit \<or> escaped, bb_used bb, None, bb)
          } else do {
            let (c, bb) = make_chan bb;
            let w = next_wtr bb;
            let bb = bb\<lparr>next_wtr := Suc w,
                        wtr := (wtr bb)(w := \<lparr>w_n = n, w_credit = 0, w_group = g, w_wake = Some c,
                                              w_elem = True, w_granted = False\<rparr>)\<rparr>;
            let bb = set_grp g (\<lambda>G. G\<lparr>g_waiters := g_waiters G @ [w], g_pending := g_pending G + 1,
                                      g_refs := (if bb_fair bb then g_refs G + 1 else g_refs G)\<rparr>) bb;
            let bb = activateLocked g bb;
            bb \<leftarrow> refreshLocked g bb;
            bb \<leftarrow> scheduleLocked bb;
            Some (False, False, bb_used bb, Some w, bb)
          }
        }
      })"

definition reserveFor :: "u64 \<Rightarrow> bool \<Rightarrow> nat option \<Rightarrow> nat option \<Rightarrow> ByteBudget \<Rightarrow> reserve_result option" where
  "reserveFor n force g w bb =
     (if \<not> bb_fair bb then Some (reserve_legacy n force w bb)
      else reserve_fair n force (group g) w bb)"

definition cancel :: "nat option \<Rightarrow> budgetp \<Rightarrow> budgetp option" where
  "cancel w p =
     (case (p, w) of
        (Some bb, Some w) \<Rightarrow>
          if \<not> bb_fair bb then Some p
          else do {
            bb \<leftarrow> removeWaiterLocked w bb;
            bb \<leftarrow> scheduleLocked bb;
            Some (Some bb)
          }
      | _ \<Rightarrow> Some p)"

definition releaseFor :: "u64 \<Rightarrow> u64 \<Rightarrow> nat option \<Rightarrow> budgetp \<Rightarrow> budgetp option" where
  "releaseFor n escape g p =
     (case p of
        None \<Rightarrow> Some None
      | Some bb \<Rightarrow>
          if n = 0 then Some (Some bb)
          else do {
            let g = group g;
            let bb = releaseLocked n escape g bb;
            if \<not> bb_fair bb then
              (case bb_legacyWake bb of
                 None \<Rightarrow> Some (Some bb)
               | Some c \<Rightarrow> do {
                   bb \<leftarrow> close_chan (Some c) bb;
                   Some (Some (bb\<lparr>bb_legacyWake := None\<rparr>))
                 })
            else do {
              bb \<leftarrow> (if length (g_waiters (grp bb g)) \<noteq> 0 then refreshLocked g bb else Some bb);
              bb \<leftarrow> scheduleLocked bb;
              Some (Some bb)
            }
          })"

definition release :: "u64 \<Rightarrow> budgetp \<Rightarrow> budgetp option" where
  "release n p = releaseFor n 0 None p"

end
