(* ===== verification/AckBuffer.thy ===== *)
theory AckBuffer
  imports Events Budget
begin

text \<open>
  \<open>ack_buffer.go\<close> and the buffer side of \<open>receipt.go\<close>: the window of messages that wait for
  an acknowledgement. The shared budget the Go struct points to is threaded through the
  operations as a \<open>budgetp\<close> beside the buffer. The linked list of tracked admissions is the
  list of its entries, an entry pointer is the entry's \<open>t_id\<close>, and the receipt cells the
  tokens point to are a store. Every operation runs under the buffer's lock from its first
  line to its last, except where a call blocks; there the model has one definition for each
  locked section. \<open>None\<close> is a panic.
\<close>

section \<open>Data\<close>

definition pressureStepDivisor :: u64 where "pressureStepDivisor = 16"
definition initialCapacity :: u64 where "initialCapacity = 1"
definition releasedRetiredMemory :: nat where "releasedRetiredMemory = 64"

text \<open>The callbacks are code of the caller; the model records whether they are set.\<close>

record AckBufferOptions =
  OnBackPressure :: bool
  OnAck :: bool
  MaxBytes :: u64
  BudgetGroup :: string

datatype ReceiptFrameState =
  ReceiptInvalid | ReceiptRetained | ReceiptAcknowledged | ReceiptClosedUnconfirmed | ReceiptRetired

record trackedAdmission =
  t_id :: nat
  t_seq :: u64
  t_state :: nat
  t_max :: u32
  t_sends :: u32

record releasedRetiredRing =
  rr_seqs :: "u64 list"
  rr_n :: nat
  rr_next :: nat

record AckBuffer =
  receipts :: "trackedAdmission list"
  deliverCursor :: "nat option"
  retired :: "u64 set"
  releasedRetired :: "releasedRetiredRing option"
  isClosed :: bool
  isRunning :: bool
  isAvailable :: Event
  buff :: "DataMessage option list"
  nextIndexFree :: u64
  firstSeqNum :: u64
  nextSeqNum :: u64
  ackEvery :: u64
  nextIndexToDeliver :: u64
  isReadyToDeliver :: Event
  isEmpty :: Event
  currentCapacity :: u64
  onBackPressure :: bool
  onAck :: bool
  accounting :: bool
  maxBytes :: u64
  b_group :: "nat option"
  registered :: bool
  escapeSeq :: u64
  escapeBytes :: u64
  sizes :: "u64 list"
  bytes :: u64
  lastFlaggedSeq :: u64
  bytesSinceFlag :: u64
  wake :: "nat option"
  \<comment> \<open>the wake channels, the receipt cells, the next entry, and the calls of \<open>onAck\<close>\<close>
  wakeClosed :: "nat \<Rightarrow> bool"
  next_wake :: nat
  cells :: "nat \<Rightarrow> ReceiptFrameState"
  next_entry :: nat
  onAckCalls :: nat

type_synonym buffer_state = "AckBuffer \<times> budgetp"

record DrainError =
  Unacked :: int
  FirstSeq :: u64
  LastSeq :: u64
  Err :: go_error

abbreviation buffLen :: "AckBuffer \<Rightarrow> u64" where
  "buffLen b \<equiv> of_nat (length (buff b))"

section \<open>Construction\<close>

definition NewAckBuffer :: "AckBufferOptions \<Rightarrow> budgetp \<Rightarrow> ((go_error + AckBuffer) \<times> budgetp) option" where
  "NewAckBuffer opts p =
     (case register (BudgetGroup opts) p of
        (Inl err, p) \<Rightarrow> Some (Inl err, p)
      | (Inr g, p) \<Rightarrow> do {
          available \<leftarrow> Event_Set NewEvent;
          empty \<leftarrow> Event_Set NewEvent;
          Some (Inr \<lparr>receipts = [], deliverCursor = None, retired = {}, releasedRetired = None,
              isClosed = False, isRunning = True, isAvailable = available,
              buff = replicate (unat initialCapacity) None, nextIndexFree = 0, firstSeqNum = 1, nextSeqNum = 1,
              ackEvery = initialCapacity, nextIndexToDeliver = 0, isReadyToDeliver = NewEvent, isEmpty = empty,
              currentCapacity = initialCapacity, onBackPressure = OnBackPressure opts, onAck = OnAck opts,
              accounting = (MaxBytes opts \<noteq> 0 \<or> p \<noteq> None), maxBytes = MaxBytes opts,
              b_group = g, registered = (g \<noteq> None), escapeSeq = 0, escapeBytes = 0, sizes = [], bytes = 0,
              lastFlaggedSeq = 0, bytesSinceFlag = 0, wake = None,
              wakeClosed = (\<lambda>_. False), next_wake = 0, cells = (\<lambda>_. ReceiptInvalid), next_entry = 0,
              onAckCalls = 0\<rparr>, p)
        })"

definition BufferedBytes :: "AckBuffer \<Rightarrow> u64" where
  "BufferedBytes b = bytes b"

definition GetCurrentCapacity :: "AckBuffer \<Rightarrow> u64" where
  "GetCurrentCapacity b = currentCapacity b"

definition GetEmptyEvent :: "AckBuffer \<Rightarrow> Event" where
  "GetEmptyEvent b = isEmpty b"

section \<open>Closing\<close>

definition signalLocked :: "AckBuffer \<Rightarrow> AckBuffer option" where
  "signalLocked b =
     (case wake b of
        None \<Rightarrow> Some b
      | Some c \<Rightarrow>
          if wakeClosed b c then None
          else Some (b\<lparr>wakeClosed := (wakeClosed b)(c := True), wake := None\<rparr>))"

definition releaseAllLocked :: "buffer_state \<Rightarrow> buffer_state option" where
  "releaseAllLocked s =
     (let (b, p) = s in
      if bytes b \<noteq> 0 then do {
        p \<leftarrow> releaseFor (bytes b) (escapeBytes b) (b_group b) p;
        Some (b\<lparr>escapeBytes := 0, bytes := 0\<rparr>, p)
      } else Some (b, p))"

definition Close :: "buffer_state \<Rightarrow> buffer_state option" where
  "Close s = do {
     let (b, p) = s;
     let b = b\<lparr>isRunning := False, isClosed := True\<rparr>;
     (b, p) \<leftarrow> releaseAllLocked (b, p);
     let (b, p) = (if registered b then (b\<lparr>registered := False\<rparr>, unregister (b_group b) p) else (b, p));
     b \<leftarrow> signalLocked b;
     Some (b, p)
   }"

definition releaseReceiptTracking :: "AckBuffer \<Rightarrow> AckBuffer" where
  "releaseReceiptTracking b = b\<lparr>receipts := [], deliverCursor := None\<rparr>"

text \<open>Make the channel a blocked call waits on, if there is none.\<close>

definition ensure_wake :: "AckBuffer \<Rightarrow> nat \<times> AckBuffer" where
  "ensure_wake b =
     (case wake b of
        Some c \<Rightarrow> (c, b)
      | None \<Rightarrow> (next_wake b, b\<lparr>wake := Some (next_wake b), wakeClosed := (wakeClosed b)(next_wake b := False),
                             next_wake := Suc (next_wake b)\<rparr>))"

section \<open>Admission\<close>

text \<open>
  \<open>tryAddWithReceiptLocked\<close>, in its two halves: the byte limits, which decide whether the
  message is admitted, forced or refused, and the store of an admitted message: its sequence
  number and ACK request, its receipt, and its slot.
\<close>

datatype byte_check = Refused "nat option" | Admitted bool u64

definition checkBytes :: "u64 \<Rightarrow> nat option \<Rightarrow> buffer_state \<Rightarrow> (byte_check \<times> buffer_state) option" where
  "checkBytes sz waiter s =
     (let (b, p) = s in
      if \<not> accounting b then Some (Admitted False 0, (b, p))
      else
        let heldFlagged = (lastFlaggedSeq b \<noteq> 0 \<and> lastFlaggedSeq b \<ge> firstSeqNum b);
            over = (maxBytes b \<noteq> 0 \<and> bytes b + sz > maxBytes b) in
        if over \<and> heldFlagged then do {
          p \<leftarrow> cancel waiter p;
          Some (Refused None, (b, p))
        } else
          let forced = over;
              pressureStep = (if maxBytes b \<noteq> 0 \<and> 2 * (bytes b + sz) \<ge> maxBytes b
                              then maxBytes b div pressureStepDivisor else 0) in
          (case p of
             None \<Rightarrow> Some (Admitted forced pressureStep, (b, p))
           | Some bb \<Rightarrow> do {
               (ok, overshot, used, wk, bb) \<leftarrow> reserveFor sz (\<not> heldFlagged) (b_group b) waiter bb;
               let p = Some bb;
               if \<not> ok then Some (Refused wk, (b, p))
               else do {
                 let forced = (forced \<or> overshot);
                 let b = (if overshot \<and> b_group b \<noteq> None
                          then b\<lparr>escapeSeq := nextSeqNum b, escapeBytes := sz\<rparr> else b);
                 let tot = Total p;
                 let step = tot div pressureStepDivisor;
                 let pressureStep = (if tot \<noteq> 0 \<and> 2 * used \<ge> tot \<and> (pressureStep = 0 \<or> step < pressureStep)
                                     then step else pressureStep);
                 Some (Admitted forced pressureStep, (b, p))
               }
             }))"

definition stampMessage :: "DataMessage \<Rightarrow> u64 \<Rightarrow> bool \<Rightarrow> u64 \<Rightarrow> AckBuffer \<Rightarrow> DataMessage \<times> AckBuffer" where
  "stampMessage e sz forced pressureStep b =
     (let e = e\<lparr>SeqNum := nextSeqNum b\<rparr>;
          b = b\<lparr>nextSeqNum := nextSeqNum b + 1\<rparr>;
          e = (if SeqNum e mod ackEvery b = 0 \<or> forced \<or> (pressureStep \<noteq> 0 \<and> bytesSinceFlag b + sz \<ge> pressureStep)
               then e\<lparr>AckRequested := True\<rparr> else e);
          b = (if AckRequested e then b\<lparr>lastFlaggedSeq := SeqNum e, bytesSinceFlag := 0\<rparr>
               else if accounting b then b\<lparr>bytesSinceFlag := bytesSinceFlag b + sz\<rparr>
               else b)
      in (e, b))"

definition trackReceipt :: "nat option \<Rightarrow> u32 \<Rightarrow> u64 \<Rightarrow> AckBuffer \<Rightarrow> AckBuffer" where
  "trackReceipt receipt maxTransmissions sq b =
     (case receipt of
        None \<Rightarrow> b
      | Some cell \<Rightarrow>
          let i = next_entry b in
          b\<lparr>next_entry := Suc i,
            receipts := receipts b @ [\<lparr>t_id = i, t_seq = sq, t_state = cell, t_max = maxTransmissions, t_sends = 0\<rparr>],
            deliverCursor := (if deliverCursor b = None then Some i else deliverCursor b),
            cells := (cells b)(cell := ReceiptRetained)\<rparr>)"

definition placeMessage :: "DataMessage \<Rightarrow> u64 \<Rightarrow> AckBuffer \<Rightarrow> AckBuffer option" where
  "placeMessage e sz b =
     (if buffLen b \<le> nextIndexFree b then None
      else do {
        let b = b\<lparr>buff := (buff b)[unat (nextIndexFree b) := Some e], nextIndexFree := nextIndexFree b + 1\<rparr>;
        let b = (if accounting b then b\<lparr>sizes := sizes b @ [sz], bytes := bytes b + sz\<rparr> else b);
        let b = (if nextIndexFree b \<ge> currentCapacity b then b\<lparr>isAvailable := Event_Clear (isAvailable b)\<rparr> else b);
        ready \<leftarrow> Event_Set (isReadyToDeliver b);
        Some (b\<lparr>isReadyToDeliver := ready, isEmpty := Event_Clear (isEmpty b)\<rparr>)
      })"

definition storeMessage ::
  "DataMessage \<Rightarrow> u64 \<Rightarrow> bool \<Rightarrow> u64 \<Rightarrow> nat option \<Rightarrow> u32 \<Rightarrow> AckBuffer \<Rightarrow> AckBuffer option" where
  "storeMessage e sz forced pressureStep receipt maxTransmissions b =
     (if ackEvery b = 0 then None
      else let (e, b) = stampMessage e sz forced pressureStep b
           in placeMessage e sz (trackReceipt receipt maxTransmissions (SeqNum e) b))"

definition tryAddWithReceiptLocked ::
  "DataMessage \<Rightarrow> u64 \<Rightarrow> nat option \<Rightarrow> nat option \<Rightarrow> u32 \<Rightarrow> buffer_state \<Rightarrow>
   ((bool \<times> nat option) \<times> buffer_state) option" where
  "tryAddWithReceiptLocked e sz waiter receipt maxTransmissions s =
     (let (b, p) = s in
      if \<not> Event_IsSet (isAvailable b) then do {
        p \<leftarrow> cancel waiter p;
        Some ((False, None), (b, p))
      } else do {
        (r, (b, p)) \<leftarrow> checkBytes sz waiter (b, p);
        case r of
          Refused w \<Rightarrow> Some ((False, w), (b, p))
        | Admitted forced pressureStep \<Rightarrow> do {
            b \<leftarrow> storeMessage e sz forced pressureStep receipt maxTransmissions b;
            Some ((True, None), (b, p))
          }
      })"

definition tryAddLocked ::
  "DataMessage \<Rightarrow> u64 \<Rightarrow> nat option \<Rightarrow> buffer_state \<Rightarrow> ((bool \<times> nat option) \<times> buffer_state) option" where
  "tryAddLocked e sz waiter s = tryAddWithReceiptLocked e sz waiter None 0 s"

text \<open>
  One iteration of the loop of \<open>addWithReceipt\<close>, from taking the lock to releasing it. A call
  that has to wait keeps its waiter and selects on the buffer's and the waiter's channel. A call
  that returns an error still has its waiter: the deferred \<open>cancel\<close> gives it back later, outside the
  lock, and is a step of its own. A call that succeeds has none left.
\<close>

datatype add_result = AddReturns "go_error option" | AddWaits nat "nat option"

definition add_iteration ::
  "DataMessage option \<Rightarrow> u64 \<Rightarrow> nat option \<Rightarrow> nat option \<Rightarrow> u32 \<Rightarrow> buffer_state \<Rightarrow> (add_result \<times> buffer_state) option" where
  "add_iteration msg sz waiter receipt maxTransmissions s =
     (let (b, p) = s in
      case msg of
        None \<Rightarrow> Some (AddReturns (Some ErrorBufferFull), s)
      | Some e \<Rightarrow>
          if \<not> isRunning b then Some (AddReturns (Some ErrorClosed), (b, p))
          else do {
            ((ok, waiter), (b, p)) \<leftarrow> tryAddWithReceiptLocked e sz waiter receipt maxTransmissions (b, p);
            if ok then do {
              p \<leftarrow> cancel waiter p;
              Some (AddReturns None, (b, p))
            } else do {
              let (localWake, b) = ensure_wake b;
              Some (AddWaits localWake waiter, (b, p))
            }
          })"

definition timeoutErr :: "AckBuffer \<Rightarrow> go_error" where
  "timeoutErr b = (if \<not> isRunning b then ErrorClosed else ErrorBufferFull)"

text \<open>The timer of a waiting call fires, or its deadline has passed.\<close>

definition add_timeout :: "AckBuffer \<Rightarrow> add_result" where
  "add_timeout b = AddReturns (Some (timeoutErr b))"

definition add_size :: "jstore \<Rightarrow> DataMessage \<Rightarrow> AckBuffer \<Rightarrow> u64" where
  "add_size st e b = (if accounting b then estimateMessageSize st e else 0)"

section \<open>Receipts of a removed prefix\<close>

fun drop_loop ::
  "u64 \<Rightarrow> u64 \<Rightarrow> bool \<Rightarrow> nat option \<Rightarrow> trackedAdmission list \<Rightarrow> (nat \<Rightarrow> ReceiptFrameState) \<Rightarrow> bool \<Rightarrow>
   trackedAdmission list \<times> (nat \<Rightarrow> ReceiptFrameState) \<times> bool" where
  "drop_loop first index acknowledge cursor [] cs removed = ([], cs, removed)"
| "drop_loop first index acknowledge cursor (t # ts) cs removed =
     (if t_seq t - first \<le> index then
        drop_loop first index acknowledge cursor ts
          (if acknowledge \<and> cs (t_state t) = ReceiptRetained then cs(t_state t := ReceiptAcknowledged) else cs)
          (removed \<or> cursor = Some (t_id t))
      else (t # ts, cs, removed))"

definition dropReceiptsLocked :: "u64 \<Rightarrow> u64 \<Rightarrow> bool \<Rightarrow> AckBuffer \<Rightarrow> AckBuffer" where
  "dropReceiptsLocked first index acknowledge b =
     (let (ts, cs, removed) = drop_loop first index acknowledge (deliverCursor b) (receipts b) (cells b) False;
          b = b\<lparr>receipts := ts, cells := cs\<rparr>
      in if removed then b\<lparr>deliverCursor := map_option t_id (case ts of [] \<Rightarrow> None | t # _ \<Rightarrow> Some t)\<rparr> else b)"

definition ackReceiptsLocked :: "u64 \<Rightarrow> u64 \<Rightarrow> AckBuffer \<Rightarrow> AckBuffer" where
  "ackReceiptsLocked first index b = dropReceiptsLocked first index True b"

section \<open>Removing a prefix\<close>

definition shrinkBackingLocked :: "AckBuffer \<Rightarrow> AckBuffer" where
  "shrinkBackingLocked b =
     (let target = max (max (currentCapacity b) (nextIndexFree b)) initialCapacity in
      if buffLen b > target
      then b\<lparr>buff := take (unat (nextIndexFree b)) (buff b) @ replicate (unat target - unat (nextIndexFree b)) None\<rparr>
      else b)"

text \<open>The accounting half of \<open>removePrefixLocked\<close>: the bytes and the escape of the prefix.\<close>

definition releasePrefix :: "u64 \<Rightarrow> u64 \<Rightarrow> buffer_state \<Rightarrow> buffer_state option" where
  "releasePrefix escapeIndex indexAcked s =
     (let (b, p) = s in
      if \<not> accounting b then Some (b, p)
      else if length (sizes b) < Suc (unat indexAcked) then None
      else do {
        let freed = sum_list (take (Suc (unat indexAcked)) (sizes b));
        let b = b\<lparr>sizes := drop (Suc (unat indexAcked)) (sizes b)\<rparr>;
        let freed = (if freed > bytes b then bytes b else freed);
        let b = b\<lparr>bytes := bytes b - freed\<rparr>;
        let gone = (escapeBytes b \<noteq> 0 \<and> escapeIndex \<le> indexAcked);
        let escape = (if gone then escapeBytes b else 0);
        let b = (if gone then b\<lparr>escapeBytes := 0\<rparr> else b);
        p \<leftarrow> releaseFor freed escape (b_group b) p;
        Some (b, p)
      })"

text \<open>
  The slots move down by \<open>indexAcked + 1\<close>: \<open>copy\<close> of the live rest to the front, then
  \<open>clear\<close> of the slots it leaves.
\<close>

definition shiftSlots :: "u64 \<Rightarrow> AckBuffer \<Rightarrow> AckBuffer option" where
  "shiftSlots indexAcked b =
     (let k = Suc (unat indexAcked); old = unat (nextIndexFree b) in
      if old < k \<or> length (buff b) < old then None
      else Some (b\<lparr>buff := drop k (take old (buff b)) @ replicate k None @ drop old (buff b),
                   nextIndexFree := nextIndexFree b - indexAcked - 1\<rparr>))"

definition removePrefixLocked :: "u64 \<Rightarrow> buffer_state \<Rightarrow> buffer_state option" where
  "removePrefixLocked indexAcked s = do {
     let (b, p) = s;
     let oldFirst = firstSeqNum b;
     let escapeIndex = escapeSeq b - oldFirst;
     let b = b\<lparr>firstSeqNum := oldFirst + indexAcked + 1\<rparr>;
     (b, p) \<leftarrow> releasePrefix escapeIndex indexAcked (b, p);
     b \<leftarrow> shiftSlots indexAcked b;
     let b = (if nextIndexFree b \<le> currentCapacity b then shrinkBackingLocked b else b);
     available \<leftarrow> (if nextIndexFree b < currentCapacity b then Event_Set (isAvailable b)
                   else Some (Event_Clear (isAvailable b)));
     let b = b\<lparr>isAvailable := available\<rparr>;
     b \<leftarrow> signalLocked b;
     let b = b\<lparr>nextIndexToDeliver := (if nextIndexToDeliver b > indexAcked + 1
                                     then nextIndexToDeliver b - (indexAcked + 1) else 0)\<rparr>;
     b \<leftarrow> (if nextIndexToDeliver b \<ge> nextIndexFree b then do {
             empty \<leftarrow> Event_Set (isEmpty b);
             Some (b\<lparr>isReadyToDeliver := Event_Clear (isReadyToDeliver b), isEmpty := empty\<rparr>)
           } else Some b);
     Some (b\<lparr>retired := {seq \<in> retired b. \<not> seq - oldFirst \<le> indexAcked}\<rparr>, p)
   }"

section \<open>Retirement\<close>

definition ring_empty :: releasedRetiredRing where
  "ring_empty = \<lparr>rr_seqs = replicate releasedRetiredMemory 0, rr_n = 0, rr_next = 0\<rparr>"

definition ring_add :: "u64 \<Rightarrow> releasedRetiredRing \<Rightarrow> releasedRetiredRing" where
  "ring_add sq r =
     r\<lparr>rr_seqs := (rr_seqs r)[rr_next r := sq], rr_next := (rr_next r + 1) mod releasedRetiredMemory,
       rr_n := (if rr_n r < releasedRetiredMemory then rr_n r + 1 else rr_n r)\<rparr>"

definition ring_has :: "u64 \<Rightarrow> releasedRetiredRing \<Rightarrow> bool" where
  "ring_has sq r = list_ex (\<lambda>i. rr_seqs r ! i = sq) [0..<rr_n r]"

text \<open>The accounting part of \<open>retireLocked\<close>: the byte charge and the escape of one slot.\<close>

definition releaseSlot :: "u64 \<Rightarrow> u64 \<Rightarrow> buffer_state \<Rightarrow> buffer_state option" where
  "releaseSlot index sq s =
     (let (b, p) = s in
      if accounting b \<and> unat index < length (sizes b) then do {
        let sz = sizes b ! unat index;
        let b = b\<lparr>sizes := (sizes b)[unat index := 0]\<rparr>;
        let sz = (if sz > bytes b then bytes b else sz);
        let b = b\<lparr>bytes := bytes b - sz\<rparr>;
        let gone = (escapeBytes b \<noteq> 0 \<and> escapeSeq b = sq);
        let escape = (if gone then escapeBytes b else 0);
        let b = (if gone then b\<lparr>escapeBytes := 0\<rparr> else b);
        p \<leftarrow> releaseFor sz escape (b_group b) p;
        Some (b, p)
      } else Some (b, p))"

definition retireLocked :: "u64 \<Rightarrow> trackedAdmission \<Rightarrow> buffer_state \<Rightarrow> buffer_state option" where
  "retireLocked index entry s = do {
     let (b, p) = s;
     let sq = t_seq entry;
     let b = b\<lparr>cells := (cells b)(t_state entry := ReceiptRetired)\<rparr>;
     if buffLen b \<le> index then None
     else do {
       let b = b\<lparr>buff := (buff b)[unat index := Some (zeroDataMessage\<lparr>SeqNum := sq\<rparr>)],
                 retired := insert sq (retired b)\<rparr>;
       (b, p) \<leftarrow> releaseSlot index sq (b, p);
       let b = (if lastFlaggedSeq b = sq then b\<lparr>lastFlaggedSeq := 0\<rparr> else b);
       b \<leftarrow> signalLocked b;
       Some (b, p)
     }
   }"

text \<open>The number of retired slots at the front.\<close>

definition retired_run :: "AckBuffer \<Rightarrow> nat" where
  "retired_run b = length (takeWhile (\<lambda>i. firstSeqNum b + of_nat i \<in> retired b) [0..<unat (nextIndexFree b)])"

definition releaseRetiredHeadLocked :: "buffer_state \<Rightarrow> buffer_state option" where
  "releaseRetiredHeadLocked s =
     (let (b, p) = s in
      if retired b = {} then Some (b, p)
      else let n = retired_run b in
        if n = 0 then Some (b, p)
        else do {
          let oldFirst = firstSeqNum b;
          let ring = (case releasedRetired b of None \<Rightarrow> ring_empty | Some r \<Rightarrow> r);
          let ring = fold (\<lambda>i. ring_add (oldFirst + of_nat i)) [0..<n] ring;
          (b, p) \<leftarrow> removePrefixLocked (of_nat n - 1) (b\<lparr>releasedRetired := Some ring\<rparr>, p);
          Some (dropReceiptsLocked oldFirst (of_nat n - 1) False b, p)
        })"

section \<open>Acknowledgement\<close>

definition Ack :: "u64 \<Rightarrow> buffer_state \<Rightarrow> (go_error option \<times> buffer_state) option" where
  "Ack sq s =
     (let (b, p) = s;
          b = (if onAck b then b\<lparr>onAckCalls := onAckCalls b + 1\<rparr> else b) in
      if releasedRetired b \<noteq> None \<and> sq - firstSeqNum b \<ge> nextIndexFree b \<and> ring_has sq (the (releasedRetired b))
      then Some (None, (b, p))
      else if sq < firstSeqNum b \<and> buffLen b - (MaxUint64 - firstSeqNum b) \<le> sq
      then Some (Some (ErrAckUnexpected sq), (b, p))
      else if sq \<ge> nextSeqNum b \<and> sq \<noteq> MaxUint64 \<and> nextSeqNum b \<noteq> 0
      then Some (Some (ErrAckUnexpected sq), (b, p))
      else
        let indexAcked = sq - firstSeqNum b in
        if indexAcked \<ge> buffLen b \<or> indexAcked \<ge> nextIndexFree b
        then Some (Some (ErrAckNotInBuffer sq), (b, p))
        else if indexAcked \<ge> nextIndexToDeliver b \<and> \<not> (nextIndexToDeliver b = 0 \<and> indexAcked = 0)
        then
          let nextSeq = (if nextIndexToDeliver b < buffLen b
                         then (case buff b ! unat (nextIndexToDeliver b) of None \<Rightarrow> 0 | Some m \<Rightarrow> SeqNum m) else 0)
          in Some (Some (ErrAckNotDelivered sq indexAcked nextSeq (nextIndexToDeliver b)), (b, p))
        else do {
          let oldFirst = firstSeqNum b;
          (b, p) \<leftarrow> removePrefixLocked indexAcked (b, p);
          let b = ackReceiptsLocked oldFirst indexAcked b;
          (b, p) \<leftarrow> releaseRetiredHeadLocked (b, p);
          Some (None, (b, p))
        })"

section \<open>Delivery\<close>

definition GetUnAcked :: "AckBuffer \<Rightarrow> DataMessage option list option" where
  "GetUnAcked b =
     (if length (buff b) < unat (nextIndexFree b) \<or> unat (nextIndexFree b) < card (retired b) then None
      else if retired b = {} then Some (take (unat (nextIndexFree b)) (buff b))
      else Some (map (\<lambda>i. buff b ! i)
             (filter (\<lambda>i. firstSeqNum b + of_nat i \<notin> retired b) [0..<unat (nextIndexFree b)])))"

definition onlyRetiredAfterLocked :: "u64 \<Rightarrow> AckBuffer \<Rightarrow> bool" where
  "onlyRetiredAfterLocked index b =
     (if retired b = {} then index + 1 = nextIndexFree b
      else list_all (\<lambda>i. firstSeqNum b + of_nat i \<in> retired b) [Suc (unat index)..<unat (nextIndexFree b)])"

definition find_entry :: "nat \<Rightarrow> AckBuffer \<Rightarrow> trackedAdmission option" where
  "find_entry i b = List.find (\<lambda>t. t_id t = i) (receipts b)"

fun entry_next :: "nat \<Rightarrow> trackedAdmission list \<Rightarrow> nat option" where
  "entry_next i [] = None"
| "entry_next i (t # ts) =
     (if t_id t = i then (case ts of [] \<Rightarrow> None | u # _ \<Rightarrow> Some (t_id u)) else entry_next i ts)"

definition count_send :: "nat \<Rightarrow> AckBuffer \<Rightarrow> AckBuffer" where
  "count_send i b = b\<lparr>receipts := map (\<lambda>t. if t_id t = i then t\<lparr>t_sends := t_sends t + 1\<rparr> else t) (receipts b)\<rparr>"

text \<open>The handover of one slot: the message, and what is left to deliver.\<close>

definition hand_out :: "u64 \<Rightarrow> AckBuffer \<Rightarrow> (DataMessage option \<times> AckBuffer) option" where
  "hand_out index b = do {
     if buffLen b \<le> index then None
     else do {
       let n = buff b ! unat index;
       n \<leftarrow> (if \<not> isRunning b \<and> onlyRetiredAfterLocked index b
             then (case n of None \<Rightarrow> None | Some m \<Rightarrow> Some (Some (m\<lparr>AckRequested := True\<rparr>)))
             else Some n);
       let b = b\<lparr>nextIndexToDeliver := nextIndexToDeliver b + 1\<rparr>;
       b \<leftarrow> (if nextIndexToDeliver b \<ge> nextIndexFree b then do {
               empty \<leftarrow> Event_Set (isEmpty b);
               Some (b\<lparr>isReadyToDeliver := Event_Clear (isReadyToDeliver b), isEmpty := empty\<rparr>)
             } else Some b);
       Some (n, b)
     }
   }"

text \<open>One iteration of the delivery loop: \<open>Inl\<close> goes round again, \<open>Inr\<close> returns.\<close>

definition deliver_turn :: "buffer_state \<Rightarrow> (buffer_state + DataMessage option \<times> buffer_state) option" where
  "deliver_turn s = do {
     let (b, p) = s;
     let index = nextIndexToDeliver b;
     let sq = firstSeqNum b + index;
     let c = Option.bind (deliverCursor b) (\<lambda>i. find_entry i b);
     let entry = (case c of None \<Rightarrow> None
                  | Some t \<Rightarrow> if t_seq t - firstSeqNum b = index then Some t else None);
     let b = (case entry of None \<Rightarrow> b | Some t \<Rightarrow> b\<lparr>deliverCursor := entry_next (t_id t) (receipts b)\<rparr>);
     if sq \<in> retired b then Some (Inl (b\<lparr>nextIndexToDeliver := index + 1\<rparr>, p))
     else
       (case entry of
          Some t \<Rightarrow>
            if t_max t \<noteq> 0 \<and> t_sends t \<ge> t_max t then do {
              (b, p) \<leftarrow> retireLocked index t (b, p);
              s \<leftarrow> releaseRetiredHeadLocked (b\<lparr>nextIndexToDeliver := nextIndexToDeliver b + 1\<rparr>, p);
              Some (Inl s)
            } else do {
              let b = (if t_max t \<noteq> 0 then count_send (t_id t) b else b);
              (n, b) \<leftarrow> hand_out index b;
              Some (Inr (n, (b, p)))
            }
        | None \<Rightarrow> do {
            (n, b) \<leftarrow> hand_out index b;
            Some (Inr (n, (b, p)))
          })
   }"

partial_function (option) deliver_loop :: "buffer_state \<Rightarrow> (DataMessage option \<times> buffer_state) option" where
  "deliver_loop s =
     (if nextIndexToDeliver (fst s) < nextIndexFree (fst s) then
        Option.bind (deliver_turn s) (\<lambda>r. case r of Inl s' \<Rightarrow> deliver_loop s' | Inr out \<Rightarrow> Some out)
      else
        Option.bind (Event_Set (isEmpty (fst s))) (\<lambda>empty.
          Some (None, ((fst s)\<lparr>isReadyToDeliver := Event_Clear (isReadyToDeliver (fst s)), isEmpty := empty\<rparr>, snd s))))"

declare deliver_loop.simps [code]

text \<open>\<open>signalled\<close> is what \<open>isReadyToDeliver.WaitFor(timeout)\<close> returned.\<close>

definition GetNextToDeliver :: "bool \<Rightarrow> buffer_state \<Rightarrow> (DataMessage option \<times> buffer_state) option" where
  "GetNextToDeliver signalled s =
     (if \<not> signalled then Some (None, s)
      else if \<not> Event_IsSet (isReadyToDeliver (fst s)) then Some (None, s)
      else deliver_loop s)"

fun reset_loop :: "trackedAdmission list \<Rightarrow> buffer_state \<Rightarrow> buffer_state option" where
  "reset_loop [] s = Some s"
| "reset_loop (t # ts) (b, p) =
     (if t_max t = 0 \<or> t_sends t < t_max t then reset_loop ts (b, p)
      else if t_seq t \<in> retired b then reset_loop ts (b, p)
      else do {
        s \<leftarrow> retireLocked (t_seq t - firstSeqNum b) t (b, p);
        reset_loop ts s
      })"

definition ResetDelivery :: "buffer_state \<Rightarrow> buffer_state option" where
  "ResetDelivery s = do {
     let (b, p) = s;
     let b = b\<lparr>nextIndexToDeliver := 0,
               deliverCursor := (case receipts b of [] \<Rightarrow> None | t # _ \<Rightarrow> Some (t_id t))\<rparr>;
     (b, p) \<leftarrow> reset_loop (receipts b) (b, p);
     (b, p) \<leftarrow> releaseRetiredHeadLocked (b, p);
     if nextIndexToDeliver b \<ge> nextIndexFree b then do {
       empty \<leftarrow> Event_Set (isEmpty b);
       Some (b\<lparr>isReadyToDeliver := Event_Clear (isReadyToDeliver b), isEmpty := empty\<rparr>, p)
     } else do {
       ready \<leftarrow> Event_Set (isReadyToDeliver b);
       Some (b\<lparr>isReadyToDeliver := ready, isEmpty := Event_Clear (isEmpty b)\<rparr>, p)
     }
   }"

section \<open>Draining\<close>

function live_first :: "AckBuffer \<Rightarrow> nat \<Rightarrow> nat \<Rightarrow> nat" where
  "live_first b frst lst =
     (if frst < lst \<and> firstSeqNum b + of_nat frst \<in> retired b then live_first b (Suc frst) lst else frst)"
  by auto
termination by (relation "measure (\<lambda>(_, frst, lst). lst - frst)") auto

function live_last :: "AckBuffer \<Rightarrow> nat \<Rightarrow> nat \<Rightarrow> nat" where
  "live_last b frst lst =
     (if lst > frst \<and> firstSeqNum b + of_nat lst \<in> retired b then live_last b frst (lst - 1) else lst)"
  by auto
termination by (relation "measure (\<lambda>(_, frst, lst). lst - frst)") auto

declare live_first.simps [simp del] live_last.simps [simp del]

definition liveSeqBoundsLocked :: "AckBuffer \<Rightarrow> (u64 \<times> u64) option" where
  "liveSeqBoundsLocked b =
     (let lst = unat (nextIndexFree b - 1);
          frst = (if retired b \<noteq> {} then live_first b 0 lst else 0);
          lst = (if retired b \<noteq> {} then live_last b frst lst else lst) in
      if length (buff b) \<le> frst \<or> length (buff b) \<le> lst then None
      else do {
        m \<leftarrow> buff b ! frst;
        l \<leftarrow> buff b ! lst;
        Some (SeqNum m, SeqNum l)
      })"

text \<open>
  \<open>drain\<close>: admission is sealed once, and every time the call holds the lock it returns,
  fails with the context's error, or waits for the buffer's channel.
\<close>

datatype drain_result = Drained | DrainFailed DrainError | DrainWaits nat

definition drain_seal :: "AckBuffer \<Rightarrow> AckBuffer option" where
  "drain_seal b = signalLocked (b\<lparr>isRunning := False\<rparr>)"

definition drain_iteration :: "go_error option \<Rightarrow> AckBuffer \<Rightarrow> (drain_result \<times> AckBuffer) option" where
  "drain_iteration ctxErr b =
     (if nextIndexFree b = 0 then Some (Drained, b)
      else
        let err = (if isClosed b then Some ErrorClosed else ctxErr) in
        case err of
          Some e \<Rightarrow> do {
            (frst, lst) \<leftarrow> liveSeqBoundsLocked b;
            Some (DrainFailed \<lparr>Unacked = sint (nextIndexFree b) - int (card (retired b)),
                    FirstSeq = frst, LastSeq = lst, Err = e\<rparr>, b)
          }
        | None \<Rightarrow> let (c, b) = ensure_wake b in Some (DrainWaits c, b))"

section \<open>Flow control\<close>

text \<open>
  \<open>make\<close> of a slice of pointers panics beyond the address space of the runtime
  (\<open>maxAlloc\<close>, \<open>2^48\<close> bytes on 64-bit Linux, 8 bytes each).
\<close>

definition make_ok :: "u64 \<Rightarrow> bool" where
  "make_ok n \<longleftrightarrow> n \<le> 35184372088832"

text \<open>\<open>float64(n)\<close> rounds to 53 significant bits, ties to even; halving it is exact.\<close>

function bit_length :: "int \<Rightarrow> nat" where
  "bit_length n = (if n \<le> 0 then 0 else Suc (bit_length (n div 2)))"
  by auto
termination by (relation "measure nat") auto

declare bit_length.simps [simp del]

definition float64_of :: "int \<Rightarrow> int" where
  "float64_of n =
     (if n < 2 ^ 53 then n
      else let k = bit_length n - 53; q = n div 2 ^ k; r = n mod 2 ^ k; h = 2 ^ (k - 1)
           in (if r > h \<or> (r = h \<and> odd q) then q + 1 else q) * 2 ^ k)"

definition half_capacity :: "u64 \<Rightarrow> u64" where
  "half_capacity n = word_of_int (float64_of (uint n) div 2)"

definition UpdateCapacity :: "u64 \<Rightarrow> AckBuffer \<Rightarrow> AckBuffer option" where
  "UpdateCapacity newCapacity b =
     (if newCapacity = currentCapacity b then Some b
      else if buffLen b < newCapacity \<and> \<not> make_ok newCapacity then None
      else do {
        let b = (if buffLen b < newCapacity
                 then b\<lparr>buff := buff b @ replicate (unat newCapacity - length (buff b)) None\<rparr> else b);
        let b = shrinkBackingLocked (b\<lparr>currentCapacity := newCapacity\<rparr>);
        available \<leftarrow> (if nextIndexFree b < newCapacity then Event_Set (isAvailable b)
                      else Some (Event_Clear (isAvailable b)));
        b \<leftarrow> signalLocked (b\<lparr>isAvailable := available\<rparr>);
        let every = half_capacity newCapacity;
        Some (b\<lparr>ackEvery := (if every = 0 then 1 else every)\<rparr>)
      })"

end
