(* ===== verification/BudgetQueues.thy ===== *)
theory BudgetQueues
  imports Budget
begin

text \<open>
  The scheduling structures of the byte budget: the list of waiting groups, the list of
  groups ready to draw from the reserve and the heap of the blocked ones. \<open>queue_ok\<close> says
  that they agree with the groups' own fields, that every waiting group is in exactly one
  of the last two, and that the heap is ordered by \<open>groupNeed\<close>. Between a change to one
  group and its \<open>refreshLocked\<close> the weaker \<open>queue_except\<close> holds; \<open>refreshLocked\<close> is
  shown to restore \<open>queue_ok\<close>, never to panic, and to leave every accounting field alone.
\<close>

section \<open>The part of the state the queues do not own\<close>

definition core :: "ByteBudget \<Rightarrow> ByteBudget" where
  "core bb = bb\<lparr>bb_waiting := [], bb_reserveReady := [], bb_blocked := [],
     grp := (\<lambda>g. (grp bb g)\<lparr>g_allElem := False, g_reserveElem := False, g_heapIndex := 0\<rparr>)\<rparr>"

lemma core_eq_fields:
  assumes "core a = core b"
  shows "bb_total a = bb_total b" "bb_used a = bb_used b" "bb_escape a = bb_escape b"
    "bb_fair a = bb_fair b" "bb_reserve a = bb_reserve b" "bb_minGroup a = bb_minGroup b"
    "bb_groups a = bb_groups b" "bb_active a = bb_active b" "bb_legacyWake a = bb_legacyWake b"
    "wtr a = wtr b" "chanClosed a = chanClosed b" "next_grp a = next_grp b" "next_wtr a = next_wtr b"
    "next_chan a = next_chan b"
  using arg_cong [OF assms, of bb_total] arg_cong [OF assms, of bb_used] arg_cong [OF assms, of bb_escape]
    arg_cong [OF assms, of bb_fair] arg_cong [OF assms, of bb_reserve] arg_cong [OF assms, of bb_minGroup]
    arg_cong [OF assms, of bb_groups] arg_cong [OF assms, of bb_active] arg_cong [OF assms, of bb_legacyWake]
    arg_cong [OF assms, of wtr] arg_cong [OF assms, of chanClosed] arg_cong [OF assms, of next_grp]
    arg_cong [OF assms, of next_wtr] arg_cong [OF assms, of next_chan]
  by (simp_all add: core_def)

lemma core_eq_group:
  assumes "core a = core b"
  shows "g_key (grp a g) = g_key (grp b g)" "g_refs (grp a g) = g_refs (grp b g)"
    "g_used (grp a g) = g_used (grp b g)" "g_escape (grp a g) = g_escape (grp b g)"
    "g_pending (grp a g) = g_pending (grp b g)" "g_active (grp a g) = g_active (grp b g)"
    "g_waiters (grp a g) = g_waiters (grp b g)"
proof -
  have e: "(grp a g)\<lparr>g_allElem := False, g_reserveElem := False, g_heapIndex := 0\<rparr> =
      (grp b g)\<lparr>g_allElem := False, g_reserveElem := False, g_heapIndex := 0\<rparr>"
    using arg_cong [OF assms, of "\<lambda>bb. grp bb g"] by (simp add: core_def)
  show "g_key (grp a g) = g_key (grp b g)" "g_refs (grp a g) = g_refs (grp b g)"
    "g_used (grp a g) = g_used (grp b g)" "g_escape (grp a g) = g_escape (grp b g)"
    "g_pending (grp a g) = g_pending (grp b g)" "g_active (grp a g) = g_active (grp b g)"
    "g_waiters (grp a g) = g_waiters (grp b g)"
    using arg_cong [OF e, of g_key] arg_cong [OF e, of g_refs] arg_cong [OF e, of g_used]
      arg_cong [OF e, of g_escape] arg_cong [OF e, of g_pending] arg_cong [OF e, of g_active]
      arg_cong [OF e, of g_waiters]
    by simp_all
qed

lemmas core_eq = core_eq_fields core_eq_group

lemma core_put_heap [simp]: "core (put_heap h bb) = core bb"
  by (simp add: core_def put_heap_def)

lemma core_queue_ops [simp]:
  "core (waiting_PushBack g bb) = core bb" "core (waiting_Remove g bb) = core bb"
  "core (ready_PushBack g bb) = core bb" "core (ready_Remove g bb) = core bb"
  "core (bb\<lparr>bb_waiting := xs\<rparr>) = core bb" "core (bb\<lparr>bb_reserveReady := xs\<rparr>) = core bb"
  by (auto intro!: ByteBudget.equality simp: core_def set_grp_def waiting_PushBack_def
      waiting_Remove_def ready_PushBack_def ready_Remove_def)

lemma groupNeed_core: "core a = core b \<Longrightarrow> groupNeed g a = groupNeed g b"
  by (simp add: groupNeed_def core_eq [of a b] Let_def split: list.split)

lemma share_core: "core a = core b \<Longrightarrow> share g a = share g b"
  by (simp add: share_def core_eq [of a b] Let_def)

section \<open>The invariant\<close>

definition nd :: "ByteBudget \<Rightarrow> nat \<Rightarrow> u64" where
  "nd bb g = (case groupNeed g bb of Some x \<Rightarrow> x | None \<Rightarrow> 0)"

lemma groupNeed_nd: "g_waiters (grp bb g) \<noteq> [] \<Longrightarrow> groupNeed g bb = Some (nd bb g)"
  by (auto simp: nd_def groupNeed_def Let_def split: list.split)

lemma nd_core: "core a = core b \<Longrightarrow> nd a = nd b"
  by (rule ext) (simp add: nd_def groupNeed_core [of a b])

lemma cmp_ok_groups: "cmp_ok (groupHeap_Less bb) (nd bb) {g. g_waiters (grp bb g) \<noteq> []}"
  by (auto simp: cmp_ok_def groupHeap_Less_def groupNeed_nd)

lemma cmp_ok_subset: "cmp_ok L k B \<Longrightarrow> A \<subseteq> B \<Longrightarrow> cmp_ok L k A"
  by (auto simp: cmp_ok_def)

definition member_ok :: "ByteBudget \<Rightarrow> bool" where
  "member_ok bb \<longleftrightarrow>
     distinct (bb_waiting bb) \<and> distinct (bb_reserveReady bb) \<and> idx_ok (get_heap bb) \<and>
     (\<forall>g. g_allElem (grp bb g) \<longleftrightarrow> g \<in> set (bb_waiting bb)) \<and>
     (\<forall>g. g_reserveElem (grp bb g) \<longleftrightarrow> g \<in> set (bb_reserveReady bb)) \<and>
     (\<forall>g. g \<notin> set (bb_blocked bb) \<longrightarrow> g_heapIndex (grp bb g) = - 1) \<and>
     set (bb_reserveReady bb) \<inter> set (bb_blocked bb) = {} \<and>
     set (bb_waiting bb) = set (bb_reserveReady bb) \<union> set (bb_blocked bb)"

text \<open>Everything but the group \<open>g\<close>, whose waiters and usage may just have changed.\<close>

definition queue_except :: "nat \<Rightarrow> ByteBudget \<Rightarrow> bool" where
  "queue_except g bb \<longleftrightarrow>
     member_ok bb \<and>
     (\<forall>x. x \<noteq> g \<longrightarrow> (x \<in> set (bb_waiting bb) \<longleftrightarrow> g_waiters (grp bb x) \<noteq> [])) \<and>
     (if g \<in> set (bb_blocked bb)
      then heap_hole (nd bb) (bb_blocked bb) (length (bb_blocked bb)) (nat (g_heapIndex (grp bb g)))
      else heap_ord (nd bb) (bb_blocked bb) (length (bb_blocked bb)))"

definition queue_ok :: "ByteBudget \<Rightarrow> bool" where
  "queue_ok bb \<longleftrightarrow>
     member_ok bb \<and>
     (\<forall>x. x \<in> set (bb_waiting bb) \<longleftrightarrow> g_waiters (grp bb x) \<noteq> []) \<and>
     heap_ord (nd bb) (bb_blocked bb) (length (bb_blocked bb))"

lemma idx_ok_position:
  assumes "idx_ok (get_heap bb)" and "g \<in> set (bb_blocked bb)"
  shows "g_heapIndex (grp bb g) \<ge> 0" and "nat (g_heapIndex (grp bb g)) < length (bb_blocked bb)"
    and "bb_blocked bb ! nat (g_heapIndex (grp bb g)) = g"
proof -
  obtain i where i: "i < length (bb_blocked bb)" "bb_blocked bb ! i = g"
    using assms(2) by (auto simp: in_set_conv_nth)
  then have "g_heapIndex (grp bb g) = int i" using assms(1) by (auto simp: idx_ok_def get_heap_def)
  then show "g_heapIndex (grp bb g) \<ge> 0" "nat (g_heapIndex (grp bb g)) < length (bb_blocked bb)"
    "bb_blocked bb ! nat (g_heapIndex (grp bb g)) = g"
    using i by auto
qed

lemma member_ok_blocked:
  assumes "member_ok bb"
  shows "g_heapIndex (grp bb g) \<ge> 0 \<longleftrightarrow> g \<in> set (bb_blocked bb)"
  using assms idx_ok_position(1) [of bb g] by (force simp: member_ok_def)

lemma heap_ord_except:
  assumes "heap_ord k a (length a)" and "i < length a"
    and "\<And>x. x \<noteq> a ! i \<Longrightarrow> k' x = k x" and "distinct a"
  shows "heap_hole k' a (length a) i"
proof -
  have ne: "a ! c \<noteq> a ! i" if "c < length a" "c \<noteq> i" for c
    using that assms(2,4) by (simp add: nth_eq_iff_index_eq)
  have hole: "heap_hole k a (length a) i" using assms(1,2) by (rule heap_ord_hole)
  have "edge k' a c" if "0 < c" "c < length a" "c \<noteq> i" "parent c \<noteq> i" for c
    using that hole assms(3) ne [of c] ne [of "parent c"] parent_less [of c]
    by (simp add: heap_hole_def edge_def)
  moreover have "k' (a ! parent i) \<le> k' (a ! c)" if "0 < i" "0 < c" "c < length a" "parent c = i" for c
  proof -
    have "parent i \<noteq> i" "c \<noteq> i" using that parent_less [of i] parent_less [of c] by auto
    then show ?thesis
      using that hole assms(2,3) ne [of c] ne [of "parent i"] parent_less [of i] by (simp add: heap_hole_def)
  qed
  ultimately show ?thesis unfolding heap_hole_def by blast
qed

text \<open>A change confined to one group leaves the other groups' places alone.\<close>

lemma queue_except_change:
  assumes "queue_ok bb"
    and "bb_waiting bb' = bb_waiting bb" "bb_reserveReady bb' = bb_reserveReady bb"
    and "bb_blocked bb' = bb_blocked bb"
    and "\<And>x. g_allElem (grp bb' x) = g_allElem (grp bb x)"
    and "\<And>x. g_reserveElem (grp bb' x) = g_reserveElem (grp bb x)"
    and "\<And>x. g_heapIndex (grp bb' x) = g_heapIndex (grp bb x)"
    and same: "\<And>x. x \<noteq> g \<Longrightarrow> g_waiters (grp bb' x) = g_waiters (grp bb x)"
    and nd: "\<And>x. x \<noteq> g \<Longrightarrow> nd bb' x = nd bb x"
  shows "queue_except g bb'"
proof -
  have h: "get_heap bb' = get_heap bb" using assms by (simp add: get_heap_def)
  have m: "member_ok bb'" using assms(1) assms(2-7) h by (simp add: queue_ok_def member_ok_def)
  have d: "distinct (bb_blocked bb)" using assms(1) by (simp add: queue_ok_def member_ok_def idx_ok_def get_heap_def)
  have o: "heap_ord (nd bb) (bb_blocked bb) (length (bb_blocked bb))" using assms(1) by (simp add: queue_ok_def)
  show ?thesis
  proof (cases "g \<in> set (bb_blocked bb)")
    case True
    have idx: "idx_ok (get_heap bb)" using assms(1) by (simp add: queue_ok_def member_ok_def)
    have "heap_hole (nd bb') (bb_blocked bb) (length (bb_blocked bb)) (nat (g_heapIndex (grp bb g)))"
      using idx_ok_position [OF idx True] nd by (intro heap_ord_except [OF o]) (simp_all add: d)
    then show ?thesis using True m assms by (simp add: queue_except_def queue_ok_def)
  next
    case False
    have "heap_ord (nd bb') (bb_blocked bb) (length (bb_blocked bb))"
      unfolding heap_ord_def
    proof (intro allI impI)
      fix c assume c: "0 < c" "c < length (bb_blocked bb)"
      then have "bb_blocked bb ! c \<noteq> g" "bb_blocked bb ! parent c \<noteq> g"
        using False parent_less [of c] by (metis nth_mem order.strict_trans)+
      then show "edge (nd bb') (bb_blocked bb) c"
        using o c nd by (simp add: heap_ord_def edge_def)
    qed
    then show ?thesis using False m assms by (simp add: queue_except_def queue_ok_def)
  qed
qed

section \<open>The list operations and the heap operations\<close>

lemma queue_ops_fields [frame_simps]:
  "bb_waiting (waiting_PushBack g bb) = bb_waiting bb @ [g]"
  "bb_waiting (waiting_Remove g bb) = remove1 g (bb_waiting bb)"
  "bb_waiting (ready_PushBack g bb) = bb_waiting bb" "bb_waiting (ready_Remove g bb) = bb_waiting bb"
  "bb_waiting (put_heap h bb) = bb_waiting bb"
  "bb_reserveReady (waiting_PushBack g bb) = bb_reserveReady bb"
  "bb_reserveReady (waiting_Remove g bb) = bb_reserveReady bb"
  "bb_reserveReady (ready_PushBack g bb) = bb_reserveReady bb @ [g]"
  "bb_reserveReady (ready_Remove g bb) = remove1 g (bb_reserveReady bb)"
  "bb_reserveReady (put_heap h bb) = bb_reserveReady bb"
  "bb_blocked (waiting_PushBack g bb) = bb_blocked bb" "bb_blocked (waiting_Remove g bb) = bb_blocked bb"
  "bb_blocked (ready_PushBack g bb) = bb_blocked bb" "bb_blocked (ready_Remove g bb) = bb_blocked bb"
  "bb_blocked (put_heap h bb) = fst h"
  "get_heap (waiting_PushBack g bb) = get_heap bb" "get_heap (waiting_Remove g bb) = get_heap bb"
  "get_heap (ready_PushBack g bb) = get_heap bb" "get_heap (ready_Remove g bb) = get_heap bb"
  "get_heap (put_heap h bb) = h"
  by (simp_all add: waiting_PushBack_def waiting_Remove_def ready_PushBack_def ready_Remove_def
      put_heap_def set_grp_def get_heap_def fun_eq_iff prod_eq_iff)

lemma queue_ops_elems [frame_simps]:
  "g_allElem (grp (waiting_PushBack g bb) x) = (x = g \<or> g_allElem (grp bb x))"
  "g_allElem (grp (waiting_Remove g bb) x) = (x \<noteq> g \<and> g_allElem (grp bb x))"
  "g_allElem (grp (ready_PushBack g bb) x) = g_allElem (grp bb x)"
  "g_allElem (grp (ready_Remove g bb) x) = g_allElem (grp bb x)"
  "g_allElem (grp (put_heap h bb) x) = g_allElem (grp bb x)"
  "g_reserveElem (grp (ready_PushBack g bb) x) = (x = g \<or> g_reserveElem (grp bb x))"
  "g_reserveElem (grp (ready_Remove g bb) x) = (x \<noteq> g \<and> g_reserveElem (grp bb x))"
  "g_reserveElem (grp (waiting_PushBack g bb) x) = g_reserveElem (grp bb x)"
  "g_reserveElem (grp (waiting_Remove g bb) x) = g_reserveElem (grp bb x)"
  "g_reserveElem (grp (put_heap h bb) x) = g_reserveElem (grp bb x)"
  "g_heapIndex (grp (waiting_PushBack g bb) x) = g_heapIndex (grp bb x)"
  "g_heapIndex (grp (waiting_Remove g bb) x) = g_heapIndex (grp bb x)"
  "g_heapIndex (grp (ready_PushBack g bb) x) = g_heapIndex (grp bb x)"
  "g_heapIndex (grp (ready_Remove g bb) x) = g_heapIndex (grp bb x)"
  "g_heapIndex (grp (put_heap h bb) x) = snd h x"
  "g_waiters (grp (waiting_PushBack g bb) x) = g_waiters (grp bb x)"
  "g_waiters (grp (waiting_Remove g bb) x) = g_waiters (grp bb x)"
  "g_waiters (grp (ready_PushBack g bb) x) = g_waiters (grp bb x)"
  "g_waiters (grp (ready_Remove g bb) x) = g_waiters (grp bb x)"
  "g_waiters (grp (put_heap h bb) x) = g_waiters (grp bb x)"
  "bb_fair (waiting_PushBack g bb) = bb_fair bb" "bb_fair (waiting_Remove g bb) = bb_fair bb"
  "bb_fair (ready_PushBack g bb) = bb_fair bb" "bb_fair (ready_Remove g bb) = bb_fair bb"
  "bb_fair (put_heap h bb) = bb_fair bb"
  by (simp_all add: waiting_PushBack_def waiting_Remove_def ready_PushBack_def ready_Remove_def
      put_heap_def set_grp_def)

lemma nd_queue_ops [frame_simps]:
  "nd (waiting_PushBack g bb) = nd bb" "nd (waiting_Remove g bb) = nd bb"
  "nd (ready_PushBack g bb) = nd bb" "nd (ready_Remove g bb) = nd bb" "nd (put_heap h bb) = nd bb"
  by (rule nd_core, simp)+

lemma need_share_queue_ops [frame_simps]:
  "groupNeed x (waiting_PushBack g bb) = groupNeed x bb" "share x (waiting_PushBack g bb) = share x bb"
  by (rule groupNeed_core share_core, simp)+

lemma set_of_mset_remove:
  "mset xs = mset ys - {#g#} \<Longrightarrow> distinct ys \<Longrightarrow> set xs = set ys - {g}"
  by (metis mset_remove1 set_mset_mset set_remove1_eq)

lemma blocked_Remove_ok:
  assumes idx: "idx_ok (get_heap bb)" and g: "g \<in> set (bb_blocked bb)"
    and hole: "heap_hole (nd bb) (bb_blocked bb) (length (bb_blocked bb)) (nat (g_heapIndex (grp bb g)))"
    and others: "\<And>x. x \<in> set (bb_blocked bb) \<Longrightarrow> x \<noteq> g \<Longrightarrow> g_waiters (grp bb x) \<noteq> []"
    and off: "\<And>x. x \<notin> set (bb_blocked bb) \<Longrightarrow> g_heapIndex (grp bb x) = - 1"
  shows "\<exists>h. blocked_Remove (g_heapIndex (grp bb g)) bb = Some (put_heap h bb) \<and> heap_ok (nd bb) h \<and>
    set (fst h) = set (bb_blocked bb) - {g} \<and> (\<forall>x. x \<notin> set (fst h) \<longrightarrow> snd h x = - 1)"
proof -
  let ?i = "nat (g_heapIndex (grp bb g))" and ?h = "get_heap bb"
  have f: "fst ?h = bb_blocked bb" "\<And>x. snd ?h x = g_heapIndex (grp bb x)" by (simp_all add: get_heap_def)
  note pos = idx_ok_position [OF idx g]
  have "set (fst ?h) - {fst ?h ! ?i} \<subseteq> {x. g_waiters (grp bb x) \<noteq> []}" using others pos f by auto
  then have cmp: "cmp_ok (groupHeap_Less bb) (nd bb) (set (fst ?h) - {fst ?h ! ?i})"
    by (rule cmp_ok_subset [OF cmp_ok_groups])
  have i: "?i < length (fst ?h)" and hole': "heap_hole (nd bb) (fst ?h) (length (fst ?h)) ?i"
    using pos hole f by simp_all
  from heap_Remove_ok [OF i idx hole' cmp]
  obtain h where h: "heap_Remove (groupHeap_Less bb) ?i ?h = Some (fst ?h ! ?i, h)" "heap_ok (nd bb) h"
      "mset (fst h) = mset (fst ?h) - {#fst ?h ! ?i#}" "snd h (fst ?h ! ?i) = - 1"
      "\<forall>x. x \<notin> set (fst ?h) \<longrightarrow> snd h x = snd ?h x"
    by blast
  have gi: "fst ?h ! ?i = g" using pos f by simp
  have d: "distinct (bb_blocked bb)" using idx by (simp add: idx_ok_def get_heap_def)
  have st: "set (fst h) = set (bb_blocked bb) - {g}"
    using set_of_mset_remove [OF h(3)] gi f d by simp
  moreover have "snd h x = - 1" if "x \<notin> set (fst h)" for x
    using that st h(4,5) gi f off [of x] by (cases "x = g") auto
  moreover have "blocked_Remove (g_heapIndex (grp bb g)) bb = Some (put_heap h bb)"
    using h(1) by (simp add: blocked_Remove_def)
  ultimately show ?thesis using h(2) by blast
qed

lemma blocked_Push_ok:
  assumes ok: "heap_ok (nd bb) (get_heap bb)" and g: "g \<notin> set (bb_blocked bb)"
    and wt: "\<And>x. x \<in> set (bb_blocked bb) \<Longrightarrow> g_waiters (grp bb x) \<noteq> []" "g_waiters (grp bb g) \<noteq> []"
    and off: "\<And>x. x \<notin> set (bb_blocked bb) \<Longrightarrow> g_heapIndex (grp bb x) = - 1"
  shows "\<exists>h. blocked_Push g bb = Some (put_heap h bb) \<and> heap_ok (nd bb) h \<and>
    set (fst h) = insert g (set (bb_blocked bb)) \<and> (\<forall>x. x \<notin> set (fst h) \<longrightarrow> snd h x = - 1)"
proof -
  let ?h = "get_heap bb"
  have f: "fst ?h = bb_blocked bb" "\<And>x. snd ?h x = g_heapIndex (grp bb x)" by (simp_all add: get_heap_def)
  have "insert g (set (fst ?h)) \<subseteq> {x. g_waiters (grp bb x) \<noteq> []}" using wt f by auto
  then have cmp: "cmp_ok (groupHeap_Less bb) (nd bb) (insert g (set (fst ?h)))"
    by (rule cmp_ok_subset [OF cmp_ok_groups])
  have g': "g \<notin> set (fst ?h)" using g f by simp
  from heap_Push_ok [OF ok g' cmp]
  obtain h where h: "heap_Push (groupHeap_Less bb) g ?h = Some h" "heap_ok (nd bb) h"
      "mset (fst h) = add_mset g (mset (fst ?h))" "\<forall>x. x \<notin> insert g (set (fst ?h)) \<longrightarrow> snd h x = snd ?h x"
    by blast
  have st: "set (fst h) = insert g (set (bb_blocked bb))"
    using arg_cong [OF h(3), of set_mset] f by simp
  then have "snd h x = - 1" if "x \<notin> set (fst h)" for x
    using that h(4) f off [of x] by auto
  moreover have "blocked_Push g bb = Some (put_heap h bb)" using h(1) by (simp add: blocked_Push_def)
  ultimately show ?thesis using h(2) st by blast
qed

lemma blocked_Fix_ok:
  assumes idx: "idx_ok (get_heap bb)" and g: "g \<in> set (bb_blocked bb)"
    and hole: "heap_hole (nd bb) (bb_blocked bb) (length (bb_blocked bb)) (nat (g_heapIndex (grp bb g)))"
    and wt: "\<And>x. x \<in> set (bb_blocked bb) \<Longrightarrow> g_waiters (grp bb x) \<noteq> []"
    and off: "\<And>x. x \<notin> set (bb_blocked bb) \<Longrightarrow> g_heapIndex (grp bb x) = - 1"
  shows "\<exists>h. blocked_Fix (g_heapIndex (grp bb g)) bb = Some (put_heap h bb) \<and> heap_ok (nd bb) h \<and>
    set (fst h) = set (bb_blocked bb) \<and> (\<forall>x. x \<notin> set (fst h) \<longrightarrow> snd h x = - 1)"
proof -
  let ?i = "nat (g_heapIndex (grp bb g))" and ?h = "get_heap bb"
  have f: "fst ?h = bb_blocked bb" "\<And>x. snd ?h x = g_heapIndex (grp bb x)" by (simp_all add: get_heap_def)
  have "set (fst ?h) \<subseteq> {x. g_waiters (grp bb x) \<noteq> []}" using wt f by auto
  then have cmp: "cmp_ok (groupHeap_Less bb) (nd bb) (set (fst ?h))"
    by (rule cmp_ok_subset [OF cmp_ok_groups])
  have i: "?i < length (fst ?h)" and hole': "heap_hole (nd bb) (fst ?h) (length (fst ?h)) ?i"
    using idx_ok_position [OF idx g] hole f by simp_all
  from heap_Fix_ok [OF i idx hole' cmp]
  obtain h where h: "heap_Fix (groupHeap_Less bb) ?i ?h = Some h" "heap_ok (nd bb) h"
      "heap_perm (length (fst ?h)) ?h h"
    by blast
  have "set (fst h) = set (bb_blocked bb)" using heap_perm_set [OF h(3)] f by simp
  moreover have "snd h x = - 1" if "x \<notin> set (bb_blocked bb)" for x
    using h(3) that f off [of x] by (auto simp: heap_perm_def)
  moreover have "blocked_Fix (g_heapIndex (grp bb g)) bb = Some (put_heap h bb)"
    using h(1) by (simp add: blocked_Fix_def)
  ultimately show ?thesis using h(2) by blast
qed

lemma blocked_Pop_ok:
  assumes ok: "heap_ok (nd bb) (get_heap bb)" and ne: "bb_blocked bb \<noteq> []"
    and wt: "\<And>x. x \<in> set (bb_blocked bb) \<Longrightarrow> g_waiters (grp bb x) \<noteq> []"
    and off: "\<And>x. x \<notin> set (bb_blocked bb) \<Longrightarrow> g_heapIndex (grp bb x) = - 1"
  shows "\<exists>h. blocked_Pop bb = Some (bb_blocked bb ! 0, put_heap h bb) \<and> heap_ok (nd bb) h \<and>
    set (fst h) = set (bb_blocked bb) - {bb_blocked bb ! 0} \<and> (\<forall>x. x \<notin> set (fst h) \<longrightarrow> snd h x = - 1) \<and>
    length (fst h) < length (bb_blocked bb)"
proof -
  let ?h = "get_heap bb" let ?g = "hd (fst ?h)"
  have f: "fst ?h = bb_blocked bb" "\<And>x. snd ?h x = g_heapIndex (grp bb x)" by (simp_all add: get_heap_def)
  have hd: "?g = bb_blocked bb ! 0" using ne f by (simp add: hd_conv_nth)
  have "set (fst ?h) - {?g} \<subseteq> {x. g_waiters (grp bb x) \<noteq> []}" using wt f by auto
  then have cmp: "cmp_ok (groupHeap_Less bb) (nd bb) (set (fst ?h) - {?g})"
    by (rule cmp_ok_subset [OF cmp_ok_groups])
  have ne': "fst ?h \<noteq> []" using ne f by simp
  from heap_Pop_ok [OF ne' ok cmp]
  obtain h where h: "heap_Pop (groupHeap_Less bb) ?h = Some (?g, h)" "heap_ok (nd bb) h"
      "mset (fst h) = mset (fst ?h) - {#?g#}" "snd h ?g = - 1" "\<forall>x. x \<notin> set (fst ?h) \<longrightarrow> snd h x = snd ?h x"
    by blast
  have d: "distinct (fst ?h)" using ok by (simp add: heap_ok_def idx_ok_def)
  have st: "set (fst h) = set (bb_blocked bb) - {bb_blocked bb ! 0}"
    using set_of_mset_remove [OF h(3) d] hd f by simp
  moreover have "snd h x = - 1" if "x \<notin> set (fst h)" for x
    using that st h(4,5) hd f off [of x] by (cases "x = ?g") auto
  moreover have "length (fst h) < length (bb_blocked bb)"
    using arg_cong [OF h(3), of size] ne f by (simp add: size_Diff_submset hd)
  moreover have "blocked_Pop bb = Some (bb_blocked bb ! 0, put_heap h bb)"
    using h(1) hd by (simp add: blocked_Pop_def)
  ultimately show ?thesis using h(2) by blast
qed

section \<open>refreshLocked restores the queues\<close>

text \<open>Where a group stands after a refresh: the other groups keep their place.\<close>

definition placed :: "nat \<Rightarrow> ByteBudget \<Rightarrow> ByteBudget \<Rightarrow> bool" where
  "placed g bb bb' \<longleftrightarrow>
     core bb' = core bb \<and> set (bb_reserveReady bb') - {g} = set (bb_reserveReady bb) - {g} \<and>
     set (bb_blocked bb') - {g} = set (bb_blocked bb) - {g} \<and>
     (g_waiters (grp bb g) \<noteq> [] \<longrightarrow>
        (if \<not> bb_fair bb \<or> nd bb g \<le> share g bb then g \<in> set (bb_reserveReady bb') else g \<in> set (bb_blocked bb')))"

lemma queue_exceptD:
  assumes "queue_except g bb"
  shows "member_ok bb" "idx_ok (get_heap bb)"
    "\<And>x. x \<noteq> g \<Longrightarrow> x \<in> set (bb_waiting bb) \<longleftrightarrow> g_waiters (grp bb x) \<noteq> []"
    "\<And>x. x \<noteq> g \<Longrightarrow> x \<in> set (bb_blocked bb) \<Longrightarrow> g_waiters (grp bb x) \<noteq> []"
    "\<And>x. x \<notin> set (bb_blocked bb) \<Longrightarrow> g_heapIndex (grp bb x) = - 1"
  using assms by (auto simp: queue_except_def member_ok_def)

lemma refresh_unqueue:
  assumes q: "queue_except g bb" and none: "g_waiters (grp bb g) = []"
  shows "\<exists>bb'. refreshLocked g bb = Some bb' \<and> queue_ok bb' \<and> placed g bb bb'"
proof -
  note qd = queue_exceptD [OF q]
  note m = qd(1) [unfolded member_ok_def]
  consider "g \<notin> set (bb_waiting bb)" | "g \<in> set (bb_reserveReady bb)" | "g \<in> set (bb_blocked bb)"
    using m by auto
  then show ?thesis
  proof cases
    case 1
    then have "g \<notin> set (bb_reserveReady bb)" "g \<notin> set (bb_blocked bb)" using m by auto
    moreover from this have "refreshLocked g bb = Some bb"
      using 1 none m by (simp add: refreshLocked_def Let_def)
    ultimately show ?thesis using q 1 none by (auto simp: queue_except_def queue_ok_def placed_def)
  next
    case 2
    let ?b = "ready_Remove g (waiting_Remove g bb)"
    have out: "g \<notin> set (bb_blocked bb)" and w: "g \<in> set (bb_waiting bb)" using 2 m by auto
    have "refreshLocked g bb = Some ?b"
      using 2 none m w out by (simp add: refreshLocked_def Let_def frame_simps)
    moreover have "queue_ok ?b"
      using q 2 out none by (auto simp: queue_ok_def queue_except_def member_ok_def frame_simps)
    moreover have "placed g bb ?b" using m none by (auto simp: placed_def frame_simps)
    ultimately show ?thesis by blast
  next
    case 3
    let ?b = "waiting_Remove g bb"
    have out: "g \<notin> set (bb_reserveReady bb)" and w: "g \<in> set (bb_waiting bb)" using 3 m by auto
    have hole: "heap_hole (nd bb) (bb_blocked bb) (length (bb_blocked bb)) (nat (g_heapIndex (grp bb g)))"
      using q 3 by (simp add: queue_except_def)
    have "\<exists>h. blocked_Remove (g_heapIndex (grp ?b g)) ?b = Some (put_heap h ?b) \<and> heap_ok (nd ?b) h \<and>
        set (fst h) = set (bb_blocked ?b) - {g} \<and> (\<forall>x. x \<notin> set (fst h) \<longrightarrow> snd h x = - 1)"
      by (rule blocked_Remove_ok) (use qd hole 3 in \<open>simp_all add: frame_simps\<close>)
    then obtain h where h: "blocked_Remove (g_heapIndex (grp ?b g)) ?b = Some (put_heap h ?b)"
        "heap_ok (nd bb) h" "set (fst h) = set (bb_blocked bb) - {g}" "\<forall>x. x \<notin> set (fst h) \<longrightarrow> snd h x = - 1"
      by (auto simp: frame_simps)
    have "refreshLocked g bb = Some (put_heap h ?b)"
      using none m w out h(1) idx_ok_position(1) [OF qd(2) 3]
      by (simp add: refreshLocked_def Let_def frame_simps)
    moreover have "queue_ok (put_heap h ?b)"
      using q 3 out none h by (auto simp: queue_ok_def queue_except_def member_ok_def frame_simps heap_ok_def)
    moreover have "placed g bb (put_heap h ?b)" using h none by (auto simp: placed_def frame_simps)
    ultimately show ?thesis by blast
  qed
qed

lemma queue_okI:
  assumes "core c = core bb" and "distinct (bb_waiting c)" and "distinct (bb_reserveReady c)"
    and "heap_ok (nd bb) (get_heap c)"
    and "\<And>x. g_allElem (grp c x) \<longleftrightarrow> x \<in> set (bb_waiting c)"
    and "\<And>x. g_reserveElem (grp c x) \<longleftrightarrow> x \<in> set (bb_reserveReady c)"
    and "\<And>x. x \<notin> set (bb_blocked c) \<Longrightarrow> g_heapIndex (grp c x) = - 1"
    and "set (bb_reserveReady c) \<inter> set (bb_blocked c) = {}"
    and "set (bb_waiting c) = set (bb_reserveReady c) \<union> set (bb_blocked c)"
    and "\<And>x. x \<in> set (bb_waiting c) \<longleftrightarrow> g_waiters (grp bb x) \<noteq> []"
  shows "queue_ok c"
proof -
  have "fst (get_heap c) = bb_blocked c" by (simp add: get_heap_def)
  then show ?thesis
    using assms core_eq(21) [OF assms(1)] nd_core [OF assms(1)]
    by (simp add: queue_ok_def member_ok_def heap_ok_def)
qed

lemma refresh_queue:
  assumes q: "queue_except g bb" and some: "g_waiters (grp bb g) \<noteq> []"
  shows "\<exists>bb'. refreshLocked g bb = Some bb' \<and> queue_ok bb' \<and> placed g bb bb'"
proof -
  note qd = queue_exceptD [OF q]
  note m = qd(1) [unfolded member_ok_def]
  define b where "b = (if \<not> g_allElem (grp bb g) then waiting_PushBack g bb else bb)"
  define E where "E = (\<not> bb_fair bb \<or> nd bb g \<le> share g bb)"
  have b: "bb_reserveReady b = bb_reserveReady bb" "bb_blocked b = bb_blocked bb" "get_heap b = get_heap bb"
      "nd b = nd bb" "core b = core bb" "set (bb_waiting b) = insert g (set (bb_waiting bb))"
      "distinct (bb_waiting b)" "\<And>x. g_allElem (grp b x) \<longleftrightarrow> x \<in> set (bb_waiting b)"
      "\<And>x. g_reserveElem (grp b x) = g_reserveElem (grp bb x)" "\<And>x. g_heapIndex (grp b x) = g_heapIndex (grp bb x)"
      "\<And>x. g_waiters (grp b x) = g_waiters (grp bb x)" "bb_fair b = bb_fair bb"
    using m by (auto simp: b_def frame_simps)
  have need: "groupNeed g b = Some (nd bb g)" and sh: "share g b = share g bb"
    using groupNeed_nd [OF some] groupNeed_core [OF b(5)] share_core [OF b(5)] by auto
  have r: "refreshLocked g bb =
    (if E then do {
       c \<leftarrow> (if g_heapIndex (grp b g) \<ge> 0 then blocked_Remove (g_heapIndex (grp b g)) b else Some b);
       Some (if \<not> g_reserveElem (grp c g) then ready_PushBack g c else c) }
     else do {
       let c = (if g_reserveElem (grp b g) then ready_Remove g b else b);
       if g_heapIndex (grp c g) < 0 then blocked_Push g c else blocked_Fix (g_heapIndex (grp c g)) c })"
    using some need sh b(12) by (simp add: refreshLocked_def E_def Let_def flip: b_def)
  have hole: "g \<in> set (bb_blocked bb) \<Longrightarrow>
      heap_hole (nd bb) (bb_blocked bb) (length (bb_blocked bb)) (nat (g_heapIndex (grp bb g)))"
    and ord: "g \<notin> set (bb_blocked bb) \<Longrightarrow> heap_ord (nd bb) (bb_blocked bb) (length (bb_blocked bb))"
    using q by (simp_all add: queue_except_def)
  have wt: "\<And>x. x \<in> set (bb_blocked bb) \<Longrightarrow> g_waiters (grp bb x) \<noteq> []" using qd(4) some by metis
  have wi: "\<And>x. g_waiters (grp bb x) = [] \<longleftrightarrow> x \<notin> set (bb_waiting b)"
    using qd(3) some b(6) by (metis insert_iff)
  have un: "set (bb_waiting b) = insert g (set (bb_reserveReady bb) \<union> set (bb_blocked bb))"
    and dj: "set (bb_reserveReady bb) \<inter> set (bb_blocked bb) = {}"
    and dr: "distinct (bb_reserveReady bb)"
    and re: "\<And>x. g_reserveElem (grp bb x) \<longleftrightarrow> x \<in> set (bb_reserveReady bb)"
    using m b(6) by auto
  have ok: "g \<notin> set (bb_blocked bb) \<Longrightarrow> heap_ok (nd bb) (get_heap bb)"
    using qd(2) ord by (simp add: heap_ok_def get_heap_def)
  note facts = b(1-5) b(7-11) un dj dr re qd(5) wi ok
  consider (none) "g \<notin> set (bb_reserveReady bb)" "g \<notin> set (bb_blocked bb)"
    | (ready) "g \<in> set (bb_reserveReady bb)" "g \<notin> set (bb_blocked bb)"
    | (blocked) "g \<notin> set (bb_reserveReady bb)" "g \<in> set (bb_blocked bb)"
    using m by auto
  then show ?thesis
  proof cases
    case none
    show ?thesis
    proof (cases E)
      case True
      have "refreshLocked g bb = Some (ready_PushBack g b)" using True r b none m by simp
      moreover have "queue_ok (ready_PushBack g b)"
        by (rule queue_okI [of _ bb]) (use facts none in \<open>auto simp: frame_simps\<close>)
      moreover have "placed g bb (ready_PushBack g b)" using True b by (auto simp: placed_def E_def frame_simps)
      ultimately show ?thesis by blast
    next
      case False
      have "\<exists>h. blocked_Push g b = Some (put_heap h b) \<and> heap_ok (nd b) h \<and>
          set (fst h) = insert g (set (bb_blocked b)) \<and> (\<forall>x. x \<notin> set (fst h) \<longrightarrow> snd h x = - 1)"
        by (rule blocked_Push_ok)
          (use none wt some qd(2,5) ord b in \<open>simp_all add: heap_ok_def, simp add: get_heap_def\<close>)
      then obtain h where h: "blocked_Push g b = Some (put_heap h b)" "heap_ok (nd bb) h"
          "set (fst h) = insert g (set (bb_blocked bb))" "\<forall>x. x \<notin> set (fst h) \<longrightarrow> snd h x = - 1"
        using b by auto
      have "refreshLocked g bb = Some (put_heap h b)" using False r h(1) b none m by simp
      moreover have "queue_ok (put_heap h b)"
        by (rule queue_okI [of _ bb]) (use facts h none in \<open>auto simp: frame_simps\<close>)
      moreover have "placed g bb (put_heap h b)" using False b h by (auto simp: placed_def E_def frame_simps)
      ultimately show ?thesis by blast
    qed
  next
    case ready
    show ?thesis
    proof (cases E)
      case True
      have "refreshLocked g bb = Some b" using True r b ready m by simp
      moreover have "queue_ok b"
        by (rule queue_okI [of _ bb]) (use facts ready in \<open>auto simp: frame_simps\<close>)
      moreover have "placed g bb b" using True b ready by (auto simp: placed_def E_def)
      ultimately show ?thesis by blast
    next
      case False
      let ?c = "ready_Remove g b"
      have "\<exists>h. blocked_Push g ?c = Some (put_heap h ?c) \<and> heap_ok (nd ?c) h \<and>
          set (fst h) = insert g (set (bb_blocked ?c)) \<and> (\<forall>x. x \<notin> set (fst h) \<longrightarrow> snd h x = - 1)"
        by (rule blocked_Push_ok)
          (use ready wt some qd(2,5) ord b in \<open>simp_all add: heap_ok_def frame_simps, simp add: get_heap_def\<close>)
      then obtain h where h: "blocked_Push g ?c = Some (put_heap h ?c)" "heap_ok (nd bb) h"
          "set (fst h) = insert g (set (bb_blocked bb))" "\<forall>x. x \<notin> set (fst h) \<longrightarrow> snd h x = - 1"
        using b by (auto simp: frame_simps)
      have "refreshLocked g bb = Some (put_heap h ?c)" using False r h(1) b ready m by (simp add: frame_simps)
      moreover have "queue_ok (put_heap h ?c)"
        by (rule queue_okI [of _ bb]) (use facts h ready in \<open>auto simp: frame_simps\<close>)
      moreover have "placed g bb (put_heap h ?c)"
        using False b h m by (auto simp: placed_def E_def frame_simps)
      ultimately show ?thesis by blast
    qed
  next
    case blocked
    note pos = idx_ok_position [OF qd(2) blocked(2)]
    show ?thesis
    proof (cases E)
      case True
      have "\<exists>h. blocked_Remove (g_heapIndex (grp b g)) b = Some (put_heap h b) \<and> heap_ok (nd b) h \<and>
          set (fst h) = set (bb_blocked b) - {g} \<and> (\<forall>x. x \<notin> set (fst h) \<longrightarrow> snd h x = - 1)"
        by (rule blocked_Remove_ok) (use blocked wt hole qd(2,5) b in simp_all)
      then obtain h where h: "blocked_Remove (g_heapIndex (grp b g)) b = Some (put_heap h b)" "heap_ok (nd bb) h"
          "set (fst h) = set (bb_blocked bb) - {g}" "\<forall>x. x \<notin> set (fst h) \<longrightarrow> snd h x = - 1"
        using b by auto
      have "refreshLocked g bb = Some (ready_PushBack g (put_heap h b))"
        using True r h(1) b blocked pos m by (simp add: frame_simps)
      moreover have "queue_ok (ready_PushBack g (put_heap h b))"
        by (rule queue_okI [of _ bb]) (use facts h blocked in \<open>auto simp: frame_simps\<close>)
      moreover have "placed g bb (ready_PushBack g (put_heap h b))"
        using True b h by (auto simp: placed_def E_def frame_simps)
      ultimately show ?thesis by blast
    next
      case False
      have "\<exists>h. blocked_Fix (g_heapIndex (grp b g)) b = Some (put_heap h b) \<and> heap_ok (nd b) h \<and>
          set (fst h) = set (bb_blocked b) \<and> (\<forall>x. x \<notin> set (fst h) \<longrightarrow> snd h x = - 1)"
        by (rule blocked_Fix_ok) (use blocked wt hole qd(2,5) b in simp_all)
      then obtain h where h: "blocked_Fix (g_heapIndex (grp b g)) b = Some (put_heap h b)" "heap_ok (nd bb) h"
          "set (fst h) = set (bb_blocked bb)" "\<forall>x. x \<notin> set (fst h) \<longrightarrow> snd h x = - 1"
        using b by auto
      have "refreshLocked g bb = Some (put_heap h b)" using False r h(1) b blocked pos m by simp
      moreover have "queue_ok (put_heap h b)"
        by (rule queue_okI [of _ bb]) (use facts h blocked in \<open>auto simp: frame_simps\<close>)
      moreover have "placed g bb (put_heap h b)" using False b h blocked by (auto simp: placed_def E_def frame_simps)
      ultimately show ?thesis by blast
    qed
  qed
qed

lemma refreshLocked_ok:
  assumes "queue_except g bb"
  shows "\<exists>bb'. refreshLocked g bb = Some bb' \<and> queue_ok bb' \<and> placed g bb bb'"
  using refresh_unqueue [OF assms] refresh_queue [OF assms] by blast

lemma queue_ok_except: "queue_ok bb \<Longrightarrow> queue_except g bb"
  by (rule queue_except_change [of bb]) simp_all

lemma queue_okD:
  assumes "queue_ok bb"
  shows "member_ok bb" "idx_ok (get_heap bb)" "heap_ok (nd bb) (get_heap bb)"
    "\<And>x. x \<in> set (bb_waiting bb) \<longleftrightarrow> g_waiters (grp bb x) \<noteq> []"
    "\<And>x. x \<in> set (bb_blocked bb) \<Longrightarrow> g_waiters (grp bb x) \<noteq> []"
    "\<And>x. x \<in> set (bb_reserveReady bb) \<Longrightarrow> g_waiters (grp bb x) \<noteq> []"
    "\<And>x. x \<notin> set (bb_blocked bb) \<Longrightarrow> g_heapIndex (grp bb x) = - 1"
    "set (bb_waiting bb) = set (bb_reserveReady bb) \<union> set (bb_blocked bb)"
    "set (bb_reserveReady bb) \<inter> set (bb_blocked bb) = {}"
    "distinct (bb_waiting bb)" "distinct (bb_reserveReady bb)" "distinct (bb_blocked bb)"
    "\<And>x. g_allElem (grp bb x) \<longleftrightarrow> x \<in> set (bb_waiting bb)"
    "\<And>x. g_reserveElem (grp bb x) \<longleftrightarrow> x \<in> set (bb_reserveReady bb)"
  using assms by (auto simp: queue_ok_def member_ok_def heap_ok_def get_heap_def idx_ok_def)

section \<open>nextReserveLocked finds an eligible group when there is one\<close>

definition waiting_active :: "ByteBudget \<Rightarrow> bool" where
  "waiting_active bb \<longleftrightarrow> (\<forall>g. g_waiters (grp bb g) \<noteq> [] \<longrightarrow> g_active (grp bb g))"

definition eligible :: "ByteBudget \<Rightarrow> nat \<Rightarrow> bool" where
  "eligible bb g \<longleftrightarrow> nd bb g \<le> share g bb"

lemma share_active:
  "g_active (grp bb g) \<Longrightarrow> g_active (grp bb x) \<Longrightarrow> share g bb = share x bb"
  by (simp add: share_def)

lemma eligible_core: "core a = core b \<Longrightarrow> eligible a g = eligible b g"
  by (simp add: eligible_def nd_core [of a b] share_core [of a b])

lemma waiting_active_core: "core a = core b \<Longrightarrow> waiting_active a = waiting_active b"
  by (simp add: waiting_active_def core_eq [of a b])

lemma promote_loop_ok:
  assumes "queue_ok bb" and "waiting_active bb"
  shows "\<exists>bb'. promote_loop bb = Some bb' \<and> queue_ok bb' \<and> core bb' = core bb \<and>
    bb_waiting bb' = bb_waiting bb \<and> (\<forall>x \<in> set (bb_blocked bb'). \<not> eligible bb x)"
  using assms
proof (induction "length (bb_blocked bb)" arbitrary: bb rule: less_induct)
  case less
  note q = queue_okD [OF less.prems(1)]
  show ?case
  proof (cases "bb_blocked bb = []")
    case True
    then show ?thesis using less.prems by (simp add: promote_loop.simps)
  next
    case False
    let ?g = "bb_blocked bb ! 0"
    have g: "?g \<in> set (bb_blocked bb)" using False by simp
    have need: "groupNeed ?g bb = Some (nd bb ?g)" using q(5) [OF g] by (rule groupNeed_nd)
    show ?thesis
    proof (cases "nd bb ?g > share ?g bb")
      case True
      have "\<not> eligible bb x" if x: "x \<in> set (bb_blocked bb)" for x
      proof -
        obtain i where i: "i < length (bb_blocked bb)" "x = bb_blocked bb ! i"
          using x by (auto simp: in_set_conv_nth)
        have "nd bb ?g \<le> nd bb x"
          using heap_ord_root_least [OF _ i(1), of "nd bb"] q(3) i(2) by (simp add: heap_ok_def get_heap_def)
        moreover have "share x bb = share ?g bb"
          using less.prems(2) q(5) [OF g] q(5) [OF x] by (intro share_active) (simp_all add: waiting_active_def)
        ultimately show ?thesis using True by (simp add: eligible_def not_le)
      qed
      then show ?thesis using True False need less.prems(1) by (simp add: promote_loop.simps)
    next
      case el: False
      obtain h where h: "blocked_Pop bb = Some (?g, put_heap h bb)" "heap_ok (nd bb) h"
          "set (fst h) = set (bb_blocked bb) - {?g}" "\<forall>x. x \<notin> set (fst h) \<longrightarrow> snd h x = - 1"
          "length (fst h) < length (bb_blocked bb)"
        using blocked_Pop_ok [OF q(3) False q(5) q(7)] by blast
      let ?b = "ready_PushBack ?g (put_heap h bb)"
      have c: "core ?b = core bb" by simp
      have "?g \<notin> set (bb_reserveReady bb)" using g q(9) by auto
      then have ok: "queue_ok ?b"
        by (intro queue_okI [of _ bb]) (use q h g in \<open>auto simp: frame_simps\<close>)
      have step: "promote_loop bb = promote_loop ?b"
        using el False need h(1) by (subst promote_loop.simps) simp
      obtain bb' where "promote_loop ?b = Some bb'" "queue_ok bb'" "core bb' = core ?b"
          "bb_waiting bb' = bb_waiting ?b" "\<forall>x \<in> set (bb_blocked bb'). \<not> eligible ?b x"
        using less.hyps [of ?b] ok less.prems(2) h(5) waiting_active_core [OF c] by (auto simp: frame_simps)
      then show ?thesis using step eligible_core [OF c] c by (auto simp: frame_simps)
    qed
  qed
qed

lemma ready_loop_ok:
  assumes "queue_ok bb" and "bb_fair bb" and "\<forall>x \<in> set (bb_blocked bb). \<not> eligible bb x"
  shows "\<exists>r bb'. ready_loop bb = Some (r, bb') \<and> queue_ok bb' \<and> core bb' = core bb \<and>
    (case r of None \<Rightarrow> \<forall>x \<in> set (bb_waiting bb). \<not> eligible bb x
             | Some g \<Rightarrow> g \<in> set (bb_waiting bb) \<and> eligible bb g)"
  using assms
proof (induction "length (bb_reserveReady bb)" arbitrary: bb rule: less_induct)
  case less
  note q = queue_okD [OF less.prems(1)]
  show ?case
  proof (cases "bb_reserveReady bb")
    case Nil
    then show ?thesis using less.prems q(8) by (simp add: ready_loop.simps)
  next
    case (Cons g rest)
    have g: "g \<in> set (bb_reserveReady bb)" using Cons by simp
    have need: "groupNeed g bb = Some (nd bb g)" using q(6) [OF g] by (rule groupNeed_nd)
    show ?thesis
    proof (cases "eligible bb g")
      case True
      then show ?thesis
        using Cons need less.prems(1) g q(8) by (simp add: ready_loop.simps eligible_def)
    next
      case False
      obtain b where b: "refreshLocked g bb = Some b" "queue_ok b" "placed g bb b"
        using refreshLocked_ok [OF queue_ok_except [OF less.prems(1)]] by blast
      note qb = queue_okD [OF b(2)]
      have c: "core b = core bb" and r: "set (bb_reserveReady b) - {g} = set (bb_reserveReady bb) - {g}"
        and bl: "set (bb_blocked b) - {g} = set (bb_blocked bb) - {g}" and gb: "g \<in> set (bb_blocked b)"
        using b(3) False q(6) [OF g] less.prems(2) by (auto simp: placed_def eligible_def)
      have "set (bb_reserveReady b) \<subset> set (bb_reserveReady bb)" using r gb qb(9) g by auto
      then have "card (set (bb_reserveReady b)) < card (set (bb_reserveReady bb))"
        by (intro psubset_card_mono) simp_all
      then have len: "length (bb_reserveReady b) < length (bb_reserveReady bb)"
        using distinct_card [OF q(11)] distinct_card [OF qb(11)] by simp
      have wt: "set (bb_waiting b) = set (bb_waiting bb)"
        using q(4) qb(4) core_eq(21) [OF c] by auto
      have "\<forall>x \<in> set (bb_blocked b). \<not> eligible b x"
        using less.prems(3) False bl eligible_core [OF c] by auto
      then obtain r bb' where r: "ready_loop b = Some (r, bb')" "queue_ok bb'" "core bb' = core b"
          "case r of None \<Rightarrow> \<forall>x \<in> set (bb_waiting b). \<not> eligible b x
             | Some g \<Rightarrow> g \<in> set (bb_waiting b) \<and> eligible b g"
        using less.hyps [OF len b(2)] core_eq(4) [OF c] less.prems(2) by auto
      have "ready_loop bb = ready_loop b"
        using False Cons need b(1) by (subst ready_loop.simps) (simp add: eligible_def)
      then show ?thesis
        using r c wt eligible_core [OF c] by (auto split: option.splits)
    qed
  qed
qed

lemma nextReserveLocked_ok:
  assumes "queue_ok bb" and "bb_fair bb" and "waiting_active bb"
  shows "\<exists>r bb'. nextReserveLocked bb = Some (r, bb') \<and> queue_ok bb' \<and> core bb' = core bb \<and>
    (case r of None \<Rightarrow> \<forall>x \<in> set (bb_waiting bb). \<not> eligible bb x
             | Some g \<Rightarrow> g \<in> set (bb_waiting bb) \<and> eligible bb g)"
proof -
  obtain b where b: "promote_loop bb = Some b" "queue_ok b" "core b = core bb"
      "bb_waiting b = bb_waiting bb" "\<forall>x \<in> set (bb_blocked b). \<not> eligible bb x"
    using promote_loop_ok [OF assms(1,3)] by blast
  have "bb_fair b" "\<forall>x \<in> set (bb_blocked b). \<not> eligible b x"
    using assms(2) core_eq(4) [OF b(3)] b(5) eligible_core [OF b(3)] by auto
  from ready_loop_ok [OF b(2) this] obtain r bb' where
    r: "ready_loop b = Some (r, bb')" "queue_ok bb'" "core bb' = core b"
      "case r of None \<Rightarrow> \<forall>x \<in> set (bb_waiting b). \<not> eligible b x
         | Some g \<Rightarrow> g \<in> set (bb_waiting b) \<and> eligible b g"
    by blast
  show ?thesis
    by (intro exI [of _ r] exI [of _ bb'])
      (use r b eligible_core [OF b(3)] in \<open>simp add: nextReserveLocked_def split: option.splits\<close>)
qed

end
