(* ===== verification/BudgetLedger.thy ===== *)
theory BudgetLedger
  imports BudgetQueues
begin

text \<open>
  Accounting of the fair byte budget. The ledger is what the callers hold: per group the
  bytes of the admitted messages and the escape bytes among them, the waiters they have
  been handed and not yet given back, and the registrations. \<open>binv\<close> ties every counter of
  the budget to the ledger: a group's usage is what its callers hold plus the credits
  of its waiters, the budget's counters are the sums over the groups, and the usage that
  is not escape stays within the cap. One lemma per operation shows that it keeps the
  invariant and what it does to the ledger.
\<close>

section \<open>The ledger and the invariant\<close>

record ledger =
  held :: "nat \<Rightarrow> nat"
  hesc :: "nat \<Rightarrow> nat"
  outst :: "nat set"
  regs :: "nat \<Rightarrow> nat"

definition ledger0 :: ledger where
  "ledger0 = \<lparr>held = (\<lambda>_. 0), hesc = (\<lambda>_. 0), outst = {}, regs = (\<lambda>_. 0)\<rparr>"

definition of_grp :: "ByteBudget \<Rightarrow> ledger \<Rightarrow> nat \<Rightarrow> nat set" where
  "of_grp bb L g = {w \<in> outst L. w_group (wtr bb w) = g}"

definition wtr_ok :: "ByteBudget \<Rightarrow> nat \<Rightarrow> bool" where
  "wtr_ok bb w \<longleftrightarrow>
     (let W = wtr bb w in
        w < next_wtr bb \<and> w_group W < next_grp bb \<and> 0 < w_n W \<and> w_credit W \<le> w_n W \<and>
        (w_granted W \<longleftrightarrow> w_credit W = w_n W) \<and> (w_elem W \<longleftrightarrow> \<not> w_granted W) \<and>
        (\<exists>c < next_chan bb. w_wake W = Some c \<and> (chanClosed bb c \<longleftrightarrow> w_granted W)))"

definition grp_ok :: "ByteBudget \<Rightarrow> ledger \<Rightarrow> nat \<Rightarrow> bool" where
  "grp_ok bb L g \<longleftrightarrow>
     (let G = grp bb g; S = of_grp bb L g in
        distinct (g_waiters G) \<and> set (g_waiters G) = {w \<in> S. \<not> w_granted (wtr bb w)} \<and>
        (\<forall>w \<in> set (tl (g_waiters G)). w_credit (wtr bb w) = 0) \<and>
        unat (g_used G) = held L g + (\<Sum>w \<in> S. unat (w_credit (wtr bb w))) \<and>
        unat (g_escape G) = hesc L g \<and>
        unat (g_pending G) = card S \<and>
        (g_active G \<longleftrightarrow> g_used G \<noteq> 0 \<or> g_pending G \<noteq> 0) \<and>
        unat (g_refs G) = regs L g + card S)"

definition sums_ok :: "ByteBudget \<Rightarrow> bool" where
  "sums_ok bb \<longleftrightarrow>
     unat (bb_used bb) = (\<Sum>g < next_grp bb. unat (g_used (grp bb g))) \<and>
     unat (bb_escape bb) = (\<Sum>g < next_grp bb. unat (g_escape (grp bb g))) \<and>
     unat (bb_active bb) = (\<Sum>g < next_grp bb. of_bool (g_active (grp bb g)))"

text \<open>A group is in the map exactly while a client or a waiter holds a reference to it.\<close>

definition names_ok :: "ByteBudget \<Rightarrow> bool" where
  "names_ok bb \<longleftrightarrow>
     (\<forall>k g. bb_groups bb k = Some g \<longleftrightarrow>
        0 < g \<and> g < next_grp bb \<and> g_key (grp bb g) = k \<and> g_refs (grp bb g) \<noteq> 0)"

definition cap_ok :: "ByteBudget \<Rightarrow> bool" where
  "cap_ok bb \<longleftrightarrow>
     (bb_total bb \<noteq> 0 \<longrightarrow> unat (bb_used bb) \<le> unat (bb_total bb) + unat (bb_escape bb)) \<and>
     unat (bb_total bb) + unat (bb_escape bb) < 2 ^ 64"

definition ledger_ok :: "ByteBudget \<Rightarrow> ledger \<Rightarrow> bool" where
  "ledger_ok bb L \<longleftrightarrow>
     finite (outst L) \<and> (\<forall>w \<in> outst L. wtr_ok bb w) \<and>
     inj_on (\<lambda>w. w_wake (wtr bb w)) (outst L) \<and> (\<forall>w \<in> outst L. 0 < w_group (wtr bb w)) \<and>
     (\<forall>g. g = 0 \<or> next_grp bb \<le> g \<longrightarrow> held L g = 0 \<and> hesc L g = 0 \<and> regs L g = 0) \<and>
     (\<forall>g. regs L g < 2 ^ 62) \<and> next_grp bb < 2 ^ 62 \<and> next_wtr bb < 2 ^ 62"

definition config_ok :: "ByteBudget \<Rightarrow> ledger \<Rightarrow> bool" where
  "config_ok bb L \<longleftrightarrow> bb_fair bb \<and> 0 < next_grp bb \<and>
     (bb_total bb = 0 \<longrightarrow> outst L = {}) \<and> (bb_total bb \<noteq> 0 \<longrightarrow> bb_reserve bb < bb_total bb)"

definition binv :: "ByteBudget \<Rightarrow> ledger \<Rightarrow> bool" where
  "binv bb L \<longleftrightarrow> config_ok bb L \<and> ledger_ok bb L \<and> sums_ok bb \<and> names_ok bb \<and> cap_ok bb \<and>
     (\<forall>g. grp_ok bb L g)"

definition fair_inv :: "ByteBudget \<Rightarrow> ledger \<Rightarrow> bool" where
  "fair_inv bb L \<longleftrightarrow> binv bb L \<and> queue_ok bb"

lemmas binv_defs = binv_def config_ok_def ledger_ok_def sums_ok_def names_ok_def cap_ok_def

section \<open>Frames\<close>

lemma of_grp_cong:
  "outst L' = outst L \<Longrightarrow> (\<And>w. w \<in> outst L \<Longrightarrow> w_group (wtr bb' w) = w_group (wtr bb w)) \<Longrightarrow>
   of_grp bb' L' g = of_grp bb L g"
  by (auto simp: of_grp_def)

lemma grp_ok_frame:
  assumes "grp_ok bb L g"
    and "g_waiters (grp bb' g) = g_waiters (grp bb g)" "g_used (grp bb' g) = g_used (grp bb g)"
      "g_escape (grp bb' g) = g_escape (grp bb g)" "g_pending (grp bb' g) = g_pending (grp bb g)"
      "g_active (grp bb' g) = g_active (grp bb g)" "g_refs (grp bb' g) = g_refs (grp bb g)"
    and S: "of_grp bb' L' g = of_grp bb L g" and W: "\<And>w. w \<in> of_grp bb L g \<Longrightarrow> wtr bb' w = wtr bb w"
    and "held L' g = held L g" "hesc L' g = hesc L g" "regs L' g = regs L g"
  shows "grp_ok bb' L' g"
proof -
  have "(\<Sum>w \<in> of_grp bb' L' g. unat (w_credit (wtr bb' w))) = (\<Sum>w \<in> of_grp bb L g. unat (w_credit (wtr bb w)))"
    using S W by (intro sum.cong) auto
  moreover have "{w \<in> of_grp bb' L' g. \<not> w_granted (wtr bb' w)} = {w \<in> of_grp bb L g. \<not> w_granted (wtr bb w)}"
    using S W by auto
  moreover have "wtr bb' w = wtr bb w" if "w \<in> set (tl (g_waiters (grp bb g)))" for w
    using W [of w] list.set_sel(2) [OF _ that] that assms(1) by (cases "g_waiters (grp bb g)") (auto simp: grp_ok_def Let_def)
  ultimately show ?thesis using assms by (simp add: grp_ok_def Let_def)
qed

lemma binv_core:
  assumes "core bb' = core bb" and "binv bb L"
  shows "binv bb' L"
proof -
  note c = core_eq [OF assms(1)]
  have "ledger_ok bb' L = ledger_ok bb L" by (simp only: ledger_ok_def wtr_ok_def c)
  moreover have "config_ok bb' L = config_ok bb L" by (simp only: config_ok_def c)
  moreover have "sums_ok bb' = sums_ok bb" by (simp only: sums_ok_def c)
  moreover have "names_ok bb' = names_ok bb" by (simp only: names_ok_def c)
  moreover have "cap_ok bb' = cap_ok bb" by (simp only: cap_ok_def c)
  moreover have "grp_ok bb' L g = grp_ok bb L g" for g by (simp only: grp_ok_def of_grp_def c Let_def)
  ultimately show ?thesis using assms(2) by (simp add: binv_def)
qed

lemma sum_bump:
  fixes f :: "'a \<Rightarrow> nat"
  assumes "finite S" "w \<in> S" "\<And>x. x \<in> S \<Longrightarrow> x \<noteq> w \<Longrightarrow> f' x = f x"
  shows "sum f' S + f w = sum f S + f' w"
proof -
  have "sum f' S = f' w + sum f' (S - {w})" "sum f S = f w + sum f (S - {w})"
    using assms(1,2) by (simp_all add: sum.remove)
  moreover have "sum f' (S - {w}) = sum f (S - {w})" using assms(3) by (intro sum.cong) auto
  ultimately show ?thesis by simp
qed

lemma sum_lessThan_change:
  fixes f :: "nat \<Rightarrow> nat"
  assumes "g < n" "\<And>x. x \<noteq> g \<Longrightarrow> f' x = f x"
  shows "(\<Sum>x<n. f' x) + f g = (\<Sum>x<n. f x) + f' g"
  by (rule sum_bump) (use assms in auto)

lemma activate_fields:
  "bb_total (activateLocked g bb) = bb_total bb" "bb_used (activateLocked g bb) = bb_used bb"
  "bb_escape (activateLocked g bb) = bb_escape bb" "bb_fair (activateLocked g bb) = bb_fair bb"
  "bb_reserve (activateLocked g bb) = bb_reserve bb" "bb_minGroup (activateLocked g bb) = bb_minGroup bb"
  "bb_groups (activateLocked g bb) = bb_groups bb" "bb_legacyWake (activateLocked g bb) = bb_legacyWake bb"
  "bb_waiting (activateLocked g bb) = bb_waiting bb" "bb_reserveReady (activateLocked g bb) = bb_reserveReady bb"
  "bb_blocked (activateLocked g bb) = bb_blocked bb" "wtr (activateLocked g bb) = wtr bb"
  "chanClosed (activateLocked g bb) = chanClosed bb" "next_grp (activateLocked g bb) = next_grp bb"
  "next_wtr (activateLocked g bb) = next_wtr bb" "next_chan (activateLocked g bb) = next_chan bb"
  by (simp_all add: activateLocked_def set_grp_def Let_def)

lemma activate_gfields:
  "g_key (grp (activateLocked g bb) x) = g_key (grp bb x)" "g_refs (grp (activateLocked g bb) x) = g_refs (grp bb x)"
  "g_used (grp (activateLocked g bb) x) = g_used (grp bb x)"
  "g_escape (grp (activateLocked g bb) x) = g_escape (grp bb x)"
  "g_pending (grp (activateLocked g bb) x) = g_pending (grp bb x)"
  "g_waiters (grp (activateLocked g bb) x) = g_waiters (grp bb x)"
  "g_allElem (grp (activateLocked g bb) x) = g_allElem (grp bb x)"
  "g_reserveElem (grp (activateLocked g bb) x) = g_reserveElem (grp bb x)"
  "g_heapIndex (grp (activateLocked g bb) x) = g_heapIndex (grp bb x)"
  by (simp_all add: activateLocked_def set_grp_def Let_def)

lemma activate_active:
  "bb_fair bb \<Longrightarrow> g_active (grp (activateLocked g bb) x) =
     (if x = g then g_used (grp bb g) \<noteq> 0 \<or> g_pending (grp bb g) \<noteq> 0 else g_active (grp bb x))"
  by (auto simp: activateLocked_def set_grp_def Let_def)

lemmas activate_simps = activate_fields activate_gfields activate_active

text \<open>The sums survive any consistent change of one group followed by its activation.\<close>

lemma activate_sums:
  assumes "bb_fair bb" and g: "g < next_grp bb" and small: "next_grp bb < 2 ^ 62" and sums: "sums_ok bb"
  shows "sums_ok (activateLocked g bb)"
proof -
  let ?A = "activateLocked g bb" and ?G = "grp bb g"
  let ?act = "g_used ?G \<noteq> 0 \<or> g_pending ?G \<noteq> 0"
  note gr = activate_active [OF assms(1), of g]
  define X where "X = (\<Sum>x < next_grp bb. of_bool (g_active (grp ?A x)) :: nat)"
  have "X + of_bool (g_active ?G) =
      (\<Sum>x < next_grp bb. of_bool (g_active (grp bb x))) + of_bool (g_active (grp ?A g))"
    unfolding X_def by (rule sum_lessThan_change [OF g]) (simp add: gr)
  then have act: "X + of_bool (g_active ?G) = unat (bb_active bb) + of_bool ?act"
    using sums by (simp add: sums_ok_def gr)
  have "(\<Sum>x < next_grp bb. of_bool (g_active (grp bb x)) :: nat) \<le> (\<Sum>x < next_grp bb. 1)"
    by (intro sum_mono) simp
  then have le: "unat (bb_active bb) < 2 ^ 62" using sums small by (simp add: sums_ok_def)
  have pos: "g_active ?G \<Longrightarrow> bb_active bb \<noteq> 0"
    using sums member_le_sum_lessThan [OF g, of "\<lambda>x. of_bool (g_active (grp bb x))"]
    by (auto simp: sums_ok_def)
  have "unat (bb_active ?A) = X"
    using act le pos assms(1)
    by (auto simp: activateLocked_def Let_def set_grp_def unat_Suc_exact unat_pred_exact split: if_splits)
  then show ?thesis
    using sums by (simp add: X_def sums_ok_def activate_fields activate_gfields)
qed

text \<open>Only the group the operation is about needs to be re-established.\<close>

lemma binv_update:
  assumes inv: "binv bb L" and "config_ok b L'" "ledger_ok b L'" "sums_ok b" "names_ok b" "cap_ok b"
    and g: "grp_ok b L' g"
    and grp: "\<And>x. x \<noteq> g \<Longrightarrow> grp b x = grp bb x"
    and old: "\<And>w. w \<in> outst L \<Longrightarrow> w_group (wtr bb w) \<noteq> g \<Longrightarrow> w \<in> outst L' \<and> wtr b w = wtr bb w"
    and new: "\<And>w. w \<in> outst L' \<Longrightarrow> w_group (wtr b w) \<noteq> g \<Longrightarrow> w \<in> outst L \<and> wtr b w = wtr bb w"
    and L: "\<And>x. x \<noteq> g \<Longrightarrow> held L' x = held L x \<and> hesc L' x = hesc L x \<and> regs L' x = regs L x"
  shows "binv b L'"
proof -
  have "grp_ok b L' x" for x
  proof (cases "x = g")
    case False
    have s: "of_grp b L' x = of_grp bb L x" using False old new unfolding of_grp_def by (metis (lifting))
    have "grp_ok bb L x" using inv by (simp add: binv_def)
    then show ?thesis
      by (rule grp_ok_frame) (use False s grp L old in \<open>auto simp: of_grp_def\<close>)
  qed (use g in simp)
  then show ?thesis using assms by (simp add: binv_def)
qed

lemma sums_ok_change:
  assumes sums: "sums_ok bb" and g: "g < next_grp bb" and "next_grp b = next_grp bb" "bb_active b = bb_active bb"
    and grp: "\<And>x. x \<noteq> g \<Longrightarrow> grp b x = grp bb x" and "g_active (grp b g) = g_active (grp bb g)"
    and u: "unat (bb_used b) + unat (g_used (grp bb g)) = unat (bb_used bb) + unat (g_used (grp b g))"
    and e: "unat (bb_escape b) + unat (g_escape (grp bb g)) = unat (bb_escape bb) + unat (g_escape (grp b g))"
  shows "sums_ok b"
proof -
  have act: "g_active (grp b x) = g_active (grp bb x)" for x using assms by (cases "x = g") auto
  have "(\<Sum>x < next_grp bb. unat (g_used (grp b x))) + unat (g_used (grp bb g)) =
      (\<Sum>x < next_grp bb. unat (g_used (grp bb x))) + unat (g_used (grp b g))"
    by (rule sum_lessThan_change [OF g]) (simp add: grp)
  moreover have "(\<Sum>x < next_grp bb. unat (g_escape (grp b x))) + unat (g_escape (grp bb g)) =
      (\<Sum>x < next_grp bb. unat (g_escape (grp bb x))) + unat (g_escape (grp b g))"
    by (rule sum_lessThan_change [OF g]) (simp add: grp)
  ultimately show ?thesis using sums u e assms(3,4) by (simp add: sums_ok_def act)
qed

lemma nd_same:
  assumes "g_used (grp b x) = g_used (grp bb x)" "g_waiters (grp b x) = g_waiters (grp bb x)"
    and "\<And>w. w \<in> set (g_waiters (grp bb x)) \<Longrightarrow> wtr b w = wtr bb w"
  shows "nd b x = nd bb x"
  using assms by (auto simp: nd_def groupNeed_def Let_def split: list.split)

lemma binvD:
  assumes "binv bb L"
  shows "bb_fair bb" "0 < next_grp bb" "config_ok bb L" "ledger_ok bb L" "sums_ok bb" "names_ok bb" "cap_ok bb"
    "\<And>g. grp_ok bb L g" "finite (outst L)" "\<And>w. w \<in> outst L \<Longrightarrow> wtr_ok bb w"
    "next_grp bb < 2 ^ 62" "next_wtr bb < 2 ^ 62"
  using assms by (simp_all add: binv_def config_ok_def ledger_ok_def)

lemma of_grp_finite: "binv bb L \<Longrightarrow> finite (of_grp bb L g)"
  by (simp add: of_grp_def binvD)

lemma grp_waiter:
  assumes "binv bb L" and "w \<in> set (g_waiters (grp bb g))"
  shows "w \<in> outst L" "w_group (wtr bb w) = g" "\<not> w_granted (wtr bb w)" "w_elem (wtr bb w)"
proof -
  have "w \<in> of_grp bb L g" and n: "\<not> w_granted (wtr bb w)"
    using binvD(8) [OF assms(1), of g] assms(2) by (auto simp: grp_ok_def Let_def)
  then show w: "w \<in> outst L" "w_group (wtr bb w) = g" "\<not> w_granted (wtr bb w)" by (simp_all add: of_grp_def)
  show "w_elem (wtr bb w)" using binvD(10) [OF assms(1) w(1)] n by (simp add: wtr_ok_def Let_def)
qed

lemma used_le_total:
  assumes "binv bb L" and "g < next_grp bb"
  shows "unat (g_used (grp bb g)) \<le> unat (bb_used bb)" "unat (g_escape (grp bb g)) \<le> unat (bb_escape bb)"
  using binvD(5) [OF assms(1)] member_le_sum_lessThan [OF assms(2), of "\<lambda>x. unat (g_used (grp bb x))"]
    member_le_sum_lessThan [OF assms(2), of "\<lambda>x. unat (g_escape (grp bb x))"]
  by (simp_all add: sums_ok_def)

text \<open>
  The escape bytes may exceed the usage: a caller can give a message back without its escape.
  The difference then wraps around, to a number above the total.
\<close>

lemma escape_le_used:
  assumes "binv bb L" and "bb_used bb - bb_escape bb \<le> bb_total bb"
  shows "unat (bb_escape bb) \<le> unat (bb_used bb)"
proof (rule ccontr)
  assume n: "\<not> ?thesis"
  have "unat (bb_used bb - bb_escape bb) = 2 ^ 64 + unat (bb_used bb) - unat (bb_escape bb)"
    using n by (simp add: unat_sub_if' linorder_not_le)
  then show False using assms(2) binvD(7) [OF assms(1)] n by (simp add: cap_ok_def u64_order)
qed

section \<open>Charging and releasing\<close>

text \<open>What \<open>charge\<close> and \<open>releaseLocked\<close> have in common: new usage counters of one group.\<close>

definition adjust :: "nat \<Rightarrow> u64 \<Rightarrow> u64 \<Rightarrow> u64 \<Rightarrow> u64 \<Rightarrow> ByteBudget \<Rightarrow> ByteBudget" where
  "adjust g u e U E bb = activateLocked g
     (bb\<lparr>grp := (grp bb)(g := (grp bb g)\<lparr>g_used := u, g_escape := e\<rparr>), bb_used := U, bb_escape := E\<rparr>)"

lemma adjust_fields:
  "bb_total (adjust g u e U E bb) = bb_total bb" "bb_used (adjust g u e U E bb) = U"
  "bb_escape (adjust g u e U E bb) = E" "bb_fair (adjust g u e U E bb) = bb_fair bb"
  "bb_reserve (adjust g u e U E bb) = bb_reserve bb" "bb_minGroup (adjust g u e U E bb) = bb_minGroup bb"
  "bb_groups (adjust g u e U E bb) = bb_groups bb" "bb_legacyWake (adjust g u e U E bb) = bb_legacyWake bb"
  "bb_waiting (adjust g u e U E bb) = bb_waiting bb" "bb_reserveReady (adjust g u e U E bb) = bb_reserveReady bb"
  "bb_blocked (adjust g u e U E bb) = bb_blocked bb" "wtr (adjust g u e U E bb) = wtr bb"
  "chanClosed (adjust g u e U E bb) = chanClosed bb" "next_grp (adjust g u e U E bb) = next_grp bb"
  "next_wtr (adjust g u e U E bb) = next_wtr bb" "next_chan (adjust g u e U E bb) = next_chan bb"
  by (simp_all add: adjust_def activate_fields)

lemma adjust_gfields:
  "g_key (grp (adjust g u e U E bb) x) = g_key (grp bb x)" "g_refs (grp (adjust g u e U E bb) x) = g_refs (grp bb x)"
  "g_used (grp (adjust g u e U E bb) x) = (if x = g then u else g_used (grp bb x))"
  "g_escape (grp (adjust g u e U E bb) x) = (if x = g then e else g_escape (grp bb x))"
  "g_pending (grp (adjust g u e U E bb) x) = g_pending (grp bb x)"
  "g_waiters (grp (adjust g u e U E bb) x) = g_waiters (grp bb x)"
  "g_allElem (grp (adjust g u e U E bb) x) = g_allElem (grp bb x)"
  "g_reserveElem (grp (adjust g u e U E bb) x) = g_reserveElem (grp bb x)"
  "g_heapIndex (grp (adjust g u e U E bb) x) = g_heapIndex (grp bb x)"
  by (simp_all add: adjust_def activate_gfields)

lemma adjust_active:
  "bb_fair bb \<Longrightarrow> g_active (grp (adjust g u e U E bb) x) =
     (if x = g then u \<noteq> 0 \<or> g_pending (grp bb g) \<noteq> 0 else g_active (grp bb x))"
  by (simp add: adjust_def activate_active)

lemma activate_other: "x \<noteq> g \<Longrightarrow> grp (activateLocked g bb) x = grp bb x"
  by (simp add: activateLocked_def set_grp_def Let_def)

lemma adjust_other: "x \<noteq> g \<Longrightarrow> grp (adjust g u e U E bb) x = grp bb x"
  by (simp add: adjust_def activate_other)

lemmas adjust_simps = adjust_fields adjust_gfields adjust_active adjust_other

lemma adjust_sums:
  assumes "sums_ok bb" "bb_fair bb" "g < next_grp bb" "next_grp bb < 2 ^ 62"
    and "unat U + unat (g_used (grp bb g)) = unat (bb_used bb) + unat u"
    and "unat E + unat (g_escape (grp bb g)) = unat (bb_escape bb) + unat e"
  shows "sums_ok (adjust g u e U E bb)"
  unfolding adjust_def
  by (rule activate_sums) (use assms in \<open>auto intro: sums_ok_change [of bb g]\<close>)

lemma charge_adjust:
  "bb_fair bb \<Longrightarrow> charge n g esc bb = adjust g (g_used (grp bb g) + n)
     (if esc then g_escape (grp bb g) + n else g_escape (grp bb g)) (bb_used bb + n)
     (if esc then bb_escape bb + n else bb_escape bb) bb"
  by (auto simp: charge_def adjust_def Let_def set_grp_def
      intro!: arg_cong [of _ _ "activateLocked g"] ByteBudget.equality)

lemma release_adjust:
  assumes "bb_fair bb" "n \<le> g_used (grp bb g)" "n \<le> bb_used bb"
  shows "releaseLocked n esc g bb = adjust g (g_used (grp bb g) - n) (g_escape (grp bb g) - esc)
     (bb_used bb - n) (bb_escape bb - esc) bb"
  using assms by (simp add: releaseLocked_def adjust_def Let_def set_grp_def not_less [symmetric])

lemma adjust_ok:
  assumes inv: "binv bb L" and g: "0 < g" "g < next_grp bb"
    and u: "unat u + held L g = unat (g_used (grp bb g)) + h" and e: "unat e = k"
    and U: "unat U + unat (g_used (grp bb g)) = unat (bb_used bb) + unat u"
    and E: "unat E + unat (g_escape (grp bb g)) = unat (bb_escape bb) + unat e"
    and cap: "bb_total bb \<noteq> 0 \<Longrightarrow> unat U \<le> unat (bb_total bb) + unat E"
      "unat (bb_total bb) + unat E < 2 ^ 64"
  shows "binv (adjust g u e U E bb) (L\<lparr>held := (held L)(g := h), hesc := (hesc L)(g := k)\<rparr>)"
    (is "binv ?b ?L")
proof (rule binv_update [OF inv, where g = g])
  note d = binvD [OF inv]
  show "config_ok ?b ?L" using d(3) by (simp add: config_ok_def adjust_simps)
  show "ledger_ok ?b ?L" using d(4) g by (simp add: ledger_ok_def wtr_ok_def adjust_simps)
  show "sums_ok ?b" using d g U E by (intro adjust_sums)
  show "names_ok ?b" using d(6) by (simp add: names_ok_def adjust_simps)
  show "cap_ok ?b" using cap by (simp add: cap_ok_def adjust_simps)
  have "of_grp ?b ?L g = of_grp bb L g" by (simp add: of_grp_def adjust_simps)
  then show "grp_ok ?b ?L g" using d(8) [of g] u e d(1) by (simp add: grp_ok_def Let_def adjust_simps)
qed (auto simp: adjust_simps)

lemma adjust_queue:
  assumes "queue_ok bb"
  shows "queue_except g (adjust g u e U E bb)"
  by (rule queue_except_change [OF assms]) (auto simp: adjust_simps intro: nd_same)

lemma queue_except_idle:
  assumes "queue_except g bb" and "g_waiters (grp bb g) = []" and "g \<notin> set (bb_waiting bb)"
  shows "queue_ok bb"
proof -
  have "g \<notin> set (bb_blocked bb)" using assms by (auto simp: queue_except_def member_ok_def)
  then show ?thesis using assms by (auto simp: queue_except_def queue_ok_def)
qed

text \<open>Bytes of a message admitted at once, inside the cap or as an escape.\<close>

lemma charge_ok:
  assumes inv: "binv bb L" and g: "0 < g" "g < next_grp bb"
    and ov: "unat (bb_total bb) + unat (bb_used bb) + unat n < 2 ^ 64" "unat (bb_total bb) + unat (bb_escape bb) + unat n < 2 ^ 64"
    and room: "\<not> esc \<Longrightarrow> bb_total bb \<noteq> 0 \<Longrightarrow> unat (bb_used bb) + unat n \<le> unat (bb_total bb) + unat (bb_escape bb)"
  shows "binv (charge n g esc bb) (L\<lparr>held := (held L)(g := held L g + unat n),
      hesc := (hesc L)(g := if esc then hesc L g + unat n else hesc L g)\<rparr>)"
proof -
  note d = binvD [OF inv] and le = used_le_total [OF inv g(2)]
  have G: "unat (g_escape (grp bb g)) = hesc L g"
    using d(8) [of g] by (auto simp: grp_ok_def Let_def)
  have x: "unat (g_used (grp bb g) + n) = unat (g_used (grp bb g)) + unat n"
    "unat (g_escape (grp bb g) + n) = unat (g_escape (grp bb g)) + unat n"
    "unat (bb_used bb + n) = unat (bb_used bb) + unat n" "unat (bb_escape bb + n) = unat (bb_escape bb) + unat n"
    using ov le by (auto intro!: unat_add_exact)
  have cap: "bb_total bb \<noteq> 0 \<Longrightarrow> unat (bb_used bb) \<le> unat (bb_total bb) + unat (bb_escape bb)"
    "unat (bb_total bb) + unat (bb_escape bb) < 2 ^ 64"
    using d(7) by (auto simp: cap_ok_def)
  show ?thesis
    unfolding charge_adjust [OF d(1)]
    by (rule adjust_ok [OF inv g]) (use G x ov room cap le in auto)
qed

lemma charge_queue: "bb_fair bb \<Longrightarrow> queue_ok bb \<Longrightarrow> queue_except g (charge n g esc bb)"
  by (simp add: charge_adjust adjust_queue)

text \<open>Acknowledged bytes coming back.\<close>

lemma releaseLocked_ok:
  assumes inv: "binv bb L" and g: "0 < g" "g < next_grp bb"
    and n: "unat n \<le> held L g" "unat e \<le> unat n" "unat e \<le> hesc L g"
  shows "binv (releaseLocked n e g bb) (L\<lparr>held := (held L)(g := held L g - unat n),
      hesc := (hesc L)(g := hesc L g - unat e)\<rparr>)"
    "queue_ok bb \<Longrightarrow> queue_except g (releaseLocked n e g bb)"
proof -
  note d = binvD [OF inv] and le = used_le_total [OF inv g(2)]
  have G: "unat (g_escape (grp bb g)) = hesc L g" "held L g \<le> unat (g_used (grp bb g))"
    using d(8) [of g] by (auto simp: grp_ok_def Let_def)
  have o: "n \<le> g_used (grp bb g)" "n \<le> bb_used bb" "e \<le> g_escape (grp bb g)" "e \<le> bb_escape bb"
    using G n le by (auto simp: u64_order)
  have x: "unat (g_used (grp bb g) - n) = unat (g_used (grp bb g)) - unat n"
    "unat (g_escape (grp bb g) - e) = unat (g_escape (grp bb g)) - unat e"
    "unat (bb_used bb - n) = unat (bb_used bb) - unat n" "unat (bb_escape bb - e) = unat (bb_escape bb) - unat e"
    using o by (auto intro!: unat_diff_exact)
  have cap: "bb_total bb \<noteq> 0 \<Longrightarrow> unat (bb_used bb) \<le> unat (bb_total bb) + unat (bb_escape bb)"
    "unat (bb_total bb) + unat (bb_escape bb) < 2 ^ 64"
    using d(7) by (auto simp: cap_ok_def)
  note r = release_adjust [OF d(1) o(1,2), of e]
  show "binv (releaseLocked n e g bb) (L\<lparr>held := (held L)(g := held L g - unat n),
      hesc := (hesc L)(g := hesc L g - unat e)\<rparr>)"
    unfolding r by (rule adjust_ok [OF inv g]) (use G n x o [unfolded u64_order] cap le in auto)
  show "queue_except g (releaseLocked n e g bb)" if "queue_ok bb"
    unfolding r by (rule adjust_queue [OF that])
qed

end
