(* ===== verification/BudgetSchedule.thy ===== *)
theory BudgetSchedule
  imports BudgetLedger
begin

text \<open>
  \<open>scheduleLocked\<close>, the round-robin of byte credits between the waiting groups: one turn
  credits the front waiter of the chosen group and keeps the accounting, the loop ends
  because every turn lowers the bytes still owed to the waiters, and it stops only when no
  further byte may be handed out.
\<close>

section \<open>One credit\<close>

text \<open>The body of a turn once the group and the credit are chosen, up to \<open>refreshLocked\<close>.\<close>

definition credit_front :: "nat \<Rightarrow> u64 \<Rightarrow> nat \<Rightarrow> ByteBudget \<Rightarrow> ByteBudget option" where
  "credit_front w c g bb =
     (let bb = set_wtr w (\<lambda>W. W\<lparr>w_credit := w_credit W + c\<rparr>) (charge c g False bb) in
      if w_credit (wtr bb w) = w_n (wtr bb w) then
        let bb = set_grp g (\<lambda>G. G\<lparr>g_waiters := remove1 w (g_waiters G)\<rparr>) bb;
            bb = set_wtr w (\<lambda>W. W\<lparr>w_elem := False, w_granted := True\<rparr>) bb
        in close_chan (w_wake (wtr bb w)) bb
      else Some bb)"

text \<open>
  How the budget may move while the callers' ledger stays the same: waiters only gain
  credit, and a group's queue only loses a prefix.
\<close>

definition evolves :: "ledger \<Rightarrow> ByteBudget \<Rightarrow> ByteBudget \<Rightarrow> bool" where
  "evolves L bb bb' \<longleftrightarrow>
     bb_total bb' = bb_total bb \<and> bb_reserve bb' = bb_reserve bb \<and> bb_minGroup bb' = bb_minGroup bb \<and>
     bb_fair bb' = bb_fair bb \<and> bb_escape bb' = bb_escape bb \<and> bb_groups bb' = bb_groups bb \<and>
     next_grp bb' = next_grp bb \<and> next_wtr bb' = next_wtr bb \<and> next_chan bb' = next_chan bb \<and>
     (\<forall>w. w_n (wtr bb' w) = w_n (wtr bb w) \<and> w_group (wtr bb' w) = w_group (wtr bb w) \<and>
          w_wake (wtr bb' w) = w_wake (wtr bb w)) \<and>
     (\<forall>w \<in> outst L. w_credit (wtr bb w) \<le> w_credit (wtr bb' w)) \<and>
     (\<forall>g. \<exists>k. g_waiters (grp bb' g) = drop k (g_waiters (grp bb g)))"

lemma evolves_refl: "evolves L bb bb"
  unfolding evolves_def by (auto intro: exI [of _ 0])

lemma evolves_core: "core bb' = core bb \<Longrightarrow> evolves L bb bb'"
  unfolding evolves_def by (auto simp: core_eq [of bb' bb] intro: exI [of _ 0])

lemma evolves_trans:
  assumes "evolves L a b" "evolves L b c"
  shows "evolves L a c"
proof -
  have "\<exists>k. g_waiters (grp c g) = drop k (g_waiters (grp a g))" for g
    using assms unfolding evolves_def by (metis drop_drop)
  then show ?thesis using assms unfolding evolves_def by (auto intro: order_trans)
qed

definition owed :: "ByteBudget \<Rightarrow> ledger \<Rightarrow> nat" where
  "owed bb L = (\<Sum>w \<in> outst L. unat (w_n (wtr bb w)) - unat (w_credit (wtr bb w)))"

lemma owed_core: "core bb' = core bb \<Longrightarrow> owed bb' L = owed bb L"
  by (simp add: owed_def core_eq [of bb' bb])

lemma front_waiter:
  assumes "binv bb L" and "g_waiters (grp bb g) = w # ws"
  shows "w \<in> outst L" "w_group (wtr bb w) = g" "\<not> w_granted (wtr bb w)" "wtr_ok bb w"
    "w_credit (wtr bb w) < w_n (wtr bb w)" "0 < g" "g < next_grp bb" "bb_total bb \<noteq> 0" "w \<in> of_grp bb L g"
proof -
  note w = grp_waiter [OF assms(1), of w g]
  show a: "w \<in> outst L" "w_group (wtr bb w) = g" "\<not> w_granted (wtr bb w)" using w assms(2) by auto
  show b: "wtr_ok bb w" using binvD(10) [OF assms(1) a(1)] .
  show "w_credit (wtr bb w) < w_n (wtr bb w)" "g < next_grp bb"
    using a b by (auto simp: wtr_ok_def Let_def order_less_le)
  show "0 < g" using binvD(4) [OF assms(1)] a by (auto simp: ledger_ok_def)
  show "bb_total bb \<noteq> 0" using binvD(3) [OF assms(1)] a by (auto simp: config_ok_def)
  show "w \<in> of_grp bb L g" using a by (simp add: of_grp_def)
qed

text \<open>The budget after the credit, complete (\<open>full\<close>) or not.\<close>

definition credited :: "nat \<Rightarrow> u64 \<Rightarrow> nat \<Rightarrow> ByteBudget \<Rightarrow> ByteBudget" where
  "credited w c g bb =
     (let full = (w_credit (wtr bb w) + c = w_n (wtr bb w));
          b = adjust g (g_used (grp bb g) + c) (g_escape (grp bb g)) (bb_used bb + c) (bb_escape bb) bb
      in b\<lparr>grp := (grp b)(g := (grp b g)\<lparr>g_waiters := (if full then tl (g_waiters (grp b g)) else g_waiters (grp b g))\<rparr>),
           wtr := (wtr bb)(w := (wtr bb w)\<lparr>w_credit := w_credit (wtr bb w) + c, w_elem := \<not> full, w_granted := full\<rparr>),
           chanClosed := (\<lambda>x. chanClosed bb x \<or> (full \<and> Some x = w_wake (wtr bb w)))\<rparr>)"

lemma credit_front_credited:
  assumes inv: "binv bb L" and ws: "g_waiters (grp bb g) = w # ws"
  shows "credit_front w c g bb = Some (credited w c g bb)"
proof -
  note f = front_waiter [OF inv ws]
  obtain ch where ch: "w_wake (wtr bb w) = Some ch" "\<not> chanClosed bb ch" "w_elem (wtr bb w)"
    using f(3,4) by (auto simp: wtr_ok_def Let_def)
  have noop: "f(g := (f g)\<lparr>g_waiters := w # ws\<rparr>) = f" if "g_waiters (f g) = w # ws" for f :: "nat \<Rightarrow> budgetGroup"
  proof -
    have "(f g)\<lparr>g_waiters := w # ws\<rparr> = f g" by (rule budgetGroup.equality) (simp_all add: that)
    then show ?thesis by (simp only: fun_upd_triv)
  qed
  have elem: "W\<lparr>w_credit := x, w_elem := True, w_granted := False\<rparr> = W\<lparr>w_credit := x\<rparr>"
    if "w_elem W" "\<not> w_granted W" for W :: budgetWaiter and x
    using that by (auto intro!: budgetWaiter.equality)
  have closed: "(\<lambda>x. chanClosed bb x \<or> x = ch) = (chanClosed bb)(ch := True)" by (rule ext) auto
  show ?thesis
    using ws f(3) ch
    by (auto simp: credit_front_def credited_def Let_def set_wtr_def set_grp_def noop elem closed
        charge_adjust [OF binvD(1) [OF inv]] close_chan_def adjust_fields adjust_gfields
        intro!: ByteBudget.equality)
qed

lemma credited_fields:
  "bb_total (credited w c g bb) = bb_total bb" "bb_used (credited w c g bb) = bb_used bb + c"
  "bb_escape (credited w c g bb) = bb_escape bb" "bb_fair (credited w c g bb) = bb_fair bb"
  "bb_reserve (credited w c g bb) = bb_reserve bb" "bb_minGroup (credited w c g bb) = bb_minGroup bb"
  "bb_groups (credited w c g bb) = bb_groups bb" "bb_waiting (credited w c g bb) = bb_waiting bb"
  "bb_reserveReady (credited w c g bb) = bb_reserveReady bb" "bb_blocked (credited w c g bb) = bb_blocked bb"
  "next_grp (credited w c g bb) = next_grp bb" "next_wtr (credited w c g bb) = next_wtr bb"
  "next_chan (credited w c g bb) = next_chan bb"
  "x \<noteq> w \<Longrightarrow> wtr (credited w c g bb) x = wtr bb x" "y \<noteq> g \<Longrightarrow> grp (credited w c g bb) y = grp bb y"
  "g_key (grp (credited w c g bb) y) = g_key (grp bb y)" "g_refs (grp (credited w c g bb) y) = g_refs (grp bb y)"
  "g_pending (grp (credited w c g bb) y) = g_pending (grp bb y)"
  "g_escape (grp (credited w c g bb) y) = g_escape (grp bb y)"
  "g_used (grp (credited w c g bb) g) = g_used (grp bb g) + c"
  "g_allElem (grp (credited w c g bb) y) = g_allElem (grp bb y)"
  "g_reserveElem (grp (credited w c g bb) y) = g_reserveElem (grp bb y)"
  "g_heapIndex (grp (credited w c g bb) y) = g_heapIndex (grp bb y)"
  "w_n (wtr (credited w c g bb) x) = w_n (wtr bb x)" "w_group (wtr (credited w c g bb) x) = w_group (wtr bb x)"
  "w_wake (wtr (credited w c g bb) x) = w_wake (wtr bb x)"
  "w_credit (wtr (credited w c g bb) w) = w_credit (wtr bb w) + c"
  by (simp_all add: credited_def Let_def adjust_fields adjust_gfields adjust_other)

lemma credited_full:
  fixes w c bb
  defines "full \<equiv> w_credit (wtr bb w) + c = w_n (wtr bb w)"
  shows "w_granted (wtr (credited w c g bb) w) = full" "w_elem (wtr (credited w c g bb) w) = (\<not> full)"
    "chanClosed (credited w c g bb) x = (chanClosed bb x \<or> (full \<and> Some x = w_wake (wtr bb w)))"
    "g_waiters (grp (credited w c g bb) g) = (if full then tl (g_waiters (grp bb g)) else g_waiters (grp bb g))"
    "bb_fair bb \<Longrightarrow> g_active (grp (credited w c g bb) g) = (g_used (grp bb g) + c \<noteq> 0 \<or> g_pending (grp bb g) \<noteq> 0)"
  by (auto simp: credited_def Let_def adjust_simps full_def)

lemma credited_sums:
  assumes "binv bb L" "g < next_grp bb" "unat (bb_used bb) + unat c < 2 ^ 64"
  shows "sums_ok (credited w c g bb)"
proof -
  let ?b = "adjust g (g_used (grp bb g) + c) (g_escape (grp bb g)) (bb_used bb + c) (bb_escape bb) bb"
  note d = binvD [OF assms(1)]
  have "unat (bb_used bb + c) = unat (bb_used bb) + unat c"
    "unat (g_used (grp bb g) + c) = unat (g_used (grp bb g)) + unat c"
    using assms(3) used_le_total [OF assms(1,2)] by (auto intro!: unat_add_exact)
  then have "sums_ok ?b" using d assms(2) by (intro adjust_sums) auto
  then show ?thesis
    by (rule sums_ok_change) (use assms(2) in \<open>auto simp: credited_def Let_def adjust_fields adjust_gfields\<close>)
qed

lemma credited_wtr_ok:
  assumes inv: "binv bb L" and ws: "g_waiters (grp bb g) = w # ws" and x: "x \<in> outst L"
    and c: "unat (w_credit (wtr bb w)) + unat c \<le> unat (w_n (wtr bb w))"
  shows "wtr_ok (credited w c g bb) x"
proof (cases "x = w")
  case True
  have u: "unat (w_credit (wtr bb w) + c) = unat (w_credit (wtr bb w)) + unat c"
    using c unat_less_2_64 [of "w_n (wtr bb w)"] by (intro unat_add_exact) (simp del: unat_less_2_64)
  then have "w_credit (wtr bb w) + c \<le> w_n (wtr bb w)" using c by (simp add: u64_order)
  then show ?thesis
    using front_waiter(3,4) [OF inv ws] True by (auto simp: wtr_ok_def Let_def credited_fields credited_full)
next
  case False
  note w = front_waiter(1) [OF inv ws]
  have "w_wake (wtr bb x) \<noteq> w_wake (wtr bb w)"
    using binvD(4) [OF inv] x w False by (auto simp: ledger_ok_def inj_on_def)
  then show ?thesis
    using binvD(10) [OF inv x] False by (auto simp: wtr_ok_def Let_def credited_fields credited_full)
qed

lemma credited_grp_ok:
  assumes inv: "binv bb L" and ws: "g_waiters (grp bb g) = w # ws"
    and c: "unat (w_credit (wtr bb w)) + unat c \<le> unat (w_n (wtr bb w))"
    and room: "unat (bb_used bb) + unat c < 2 ^ 64"
  shows "grp_ok (credited w c g bb) L g"
proof -
  let ?b = "credited w c g bb" and ?S = "of_grp bb L g"
  note f = front_waiter [OF inv ws] and d = binvD [OF inv]
  have S: "of_grp ?b L g = ?S" by (simp add: of_grp_def credited_fields)
  have cr: "unat (w_credit (wtr bb w) + c) = unat (w_credit (wtr bb w)) + unat c"
    using c unat_less_2_64 [of "w_n (wtr bb w)"] by (intro unat_add_exact) (simp del: unat_less_2_64)
  have u: "unat (g_used (grp bb g) + c) = unat (g_used (grp bb g)) + unat c"
    using room used_le_total [OF inv f(7)] by (intro unat_add_exact) simp
  have "(\<Sum>x \<in> ?S. unat (w_credit (wtr ?b x))) + unat (w_credit (wtr bb w)) =
      (\<Sum>x \<in> ?S. unat (w_credit (wtr bb x))) + unat (w_credit (wtr ?b w))"
    by (rule sum_bump) (simp_all add: of_grp_finite [OF inv] f(9) credited_fields)
  then have sum: "(\<Sum>x \<in> ?S. unat (w_credit (wtr ?b x))) = (\<Sum>x \<in> ?S. unat (w_credit (wtr bb x))) + unat c"
    by (simp add: credited_fields cr)
  note G = d(8) [of g, unfolded grp_ok_def Let_def ws]
  have dist: "w \<notin> set ws" "distinct ws" using G by auto
  have gr: "w_granted (wtr ?b x) = w_granted (wtr bb x)" if "x \<noteq> w" for x using that by (simp add: credited_fields)
  have set: "set (w # ws) = {x \<in> ?S. \<not> w_granted (wtr bb x)}" using G by blast
  have wt: "set (g_waiters (grp ?b g)) = {x \<in> ?S. \<not> w_granted (wtr ?b x)}"
  proof (cases "w_credit (wtr bb w) + c = w_n (wtr bb w)")
    case True
    then have "{x \<in> ?S. \<not> w_granted (wtr ?b x)} = {x \<in> ?S. \<not> w_granted (wtr bb x)} - {w}"
      using gr f(3) by (auto simp: credited_full) metis
    then show ?thesis using True dist by (simp add: credited_full ws set [symmetric])
  next
    case False
    then have "{x \<in> ?S. \<not> w_granted (wtr ?b x)} = {x \<in> ?S. \<not> w_granted (wtr bb x)}"
      using gr f(3) by (metis credited_full(1))
    then show ?thesis using False by (simp add: credited_full ws set [symmetric])
  qed
  have zero: "w_credit (wtr ?b x) = 0" if "x \<in> set ws" for x
    using that G dist by (cases "x = w") (auto simp: credited_fields)
  then have tl: "\<forall>x \<in> set (tl (g_waiters (grp ?b g))). w_credit (wtr ?b x) = 0"
    by (cases ws) (auto simp: credited_full ws)
  have "distinct (g_waiters (grp ?b g))" using G by (simp add: credited_full ws)
  then show ?thesis
    using G S sum wt tl u d(1) by (simp add: grp_ok_def Let_def credited_fields credited_full)
qed

lemma credited_ok:
  assumes inv: "binv bb L" and ws: "g_waiters (grp bb g) = w # ws"
    and c: "unat (w_credit (wtr bb w)) + unat c \<le> unat (w_n (wtr bb w))"
    and room: "unat (bb_used bb) + unat c \<le> unat (bb_total bb) + unat (bb_escape bb)"
  shows "binv (credited w c g bb) L"
proof (rule binv_update [OF inv, where g = g])
  let ?b = "credited w c g bb"
  note f = front_waiter [OF inv ws] and d = binvD [OF inv]
  have lt: "unat (bb_total bb) + unat (bb_escape bb) < 2 ^ 64" using d(7) by (simp add: cap_ok_def)
  then have ov: "unat (bb_used bb) + unat c < 2 ^ 64" using room by simp
  then have u: "unat (bb_used bb + c) = unat (bb_used bb) + unat c" by (rule unat_add_exact)
  show "config_ok ?b L" using d(3) by (simp add: config_ok_def credited_fields)
  show "ledger_ok ?b L"
    using d(4) credited_wtr_ok [OF inv ws _ c] by (simp add: ledger_ok_def credited_fields)
  show "sums_ok ?b" by (rule credited_sums [OF inv f(7) ov])
  show "names_ok ?b" using d(6) by (simp add: names_ok_def credited_fields)
  show "cap_ok ?b" using room u lt by (simp add: cap_ok_def credited_fields)
  show "grp_ok ?b L g" by (rule credited_grp_ok [OF inv ws c ov])
  show "w' \<in> outst L \<and> wtr ?b w' = wtr bb w'" if "w' \<in> outst L" "w_group (wtr bb w') \<noteq> g" for w'
    using that f(2) by (cases "w' = w") (auto simp: credited_fields)
  show "w' \<in> outst L \<and> wtr ?b w' = wtr bb w'" if "w' \<in> outst L" "w_group (wtr ?b w') \<noteq> g" for w'
    using that f(2) by (cases "w' = w") (auto simp: credited_fields)
qed (simp_all add: credited_fields)

lemma credited_queue:
  assumes inv: "binv bb L" and ws: "g_waiters (grp bb g) = w # ws" and q: "queue_ok bb"
  shows "queue_except g (credited w c g bb)"
proof (rule queue_except_change [OF q])
  show "nd (credited w c g bb) x = nd bb x" if "x \<noteq> g" for x
  proof (rule nd_same)
    fix y assume "y \<in> set (g_waiters (grp bb x))"
    then have "y \<noteq> w" using grp_waiter(2) [OF inv, of y x] front_waiter(2) [OF inv ws] that by auto
    then show "wtr (credited w c g bb) y = wtr bb y" by (simp add: credited_fields)
  qed (simp_all add: that credited_fields)
qed (simp_all add: credited_fields)

lemma credited_evolves:
  assumes inv: "binv bb L" and ws: "g_waiters (grp bb g) = w # ws"
    and c: "unat (w_credit (wtr bb w)) + unat c \<le> unat (w_n (wtr bb w))"
  shows "evolves L bb (credited w c g bb)" and "0 < c \<Longrightarrow> owed (credited w c g bb) L < owed bb L"
proof -
  let ?b = "credited w c g bb"
  have cr: "unat (w_credit (wtr bb w) + c) = unat (w_credit (wtr bb w)) + unat c"
    using c unat_less_2_64 [of "w_n (wtr bb w)"] by (intro unat_add_exact) (simp del: unat_less_2_64)
  have "w_credit (wtr bb x) \<le> w_credit (wtr ?b x)" for x
    using cr by (cases "x = w") (auto simp: credited_fields u64_order)
  moreover have "\<exists>k. g_waiters (grp ?b x) = drop k (g_waiters (grp bb x))" for x
    by (cases "x = g") (auto simp: credited_fields credited_full drop_Suc intro: exI [of _ 0] exI [of _ 1])
  ultimately show "evolves L bb ?b" by (simp add: evolves_def credited_fields)
  assume "0 < c"
  then have "0 < unat c" by (simp add: unat_gt_0)
  moreover have "owed ?b L + (unat (w_n (wtr bb w)) - unat (w_credit (wtr bb w))) =
      owed bb L + (unat (w_n (wtr ?b w)) - unat (w_credit (wtr ?b w)))"
    unfolding owed_def
    by (rule sum_bump) (simp_all add: binvD(9) [OF inv] front_waiter(1) [OF inv ws] credited_fields)
  ultimately show "owed ?b L < owed bb L" using c by (simp add: credited_fields cr)
qed

section \<open>One turn\<close>

definition requeue :: "nat \<Rightarrow> ByteBudget \<Rightarrow> ByteBudget" where
  "requeue g bb =
     (let bb = (if g_allElem (grp bb g) then bb\<lparr>bb_waiting := move_to_back g (bb_waiting bb)\<rparr> else bb)
      in if g_reserveElem (grp bb g) then bb\<lparr>bb_reserveReady := move_to_back g (bb_reserveReady bb)\<rparr> else bb)"

definition turn_tail :: "u64 \<Rightarrow> u64 \<Rightarrow> nat \<Rightarrow> ByteBudget \<Rightarrow> (bool \<times> ByteBudget) option" where
  "turn_tail base used g bb = do {
     w \<leftarrow> (case g_waiters (grp bb g) of [] \<Rightarrow> None | w # _ \<Rightarrow> Some w);
     room \<leftarrow> (if bb_total bb = 0 then Some MaxUint64
              else if \<not> bb_fair bb then Some (bb_total bb - used)
              else do {
                need \<leftarrow> groupNeed g bb;
                Some (if need \<le> share g bb then bb_total bb - used else base)
              });
     let credit = w_n (wtr bb w) - w_credit (wtr bb w);
     let credit = (if credit > budgetQuantum then budgetQuantum else credit);
     let credit = (if credit > room then room else credit);
     if credit = 0 then Some (False, bb)
     else do {
       bb \<leftarrow> credit_front w credit g bb;
       bb \<leftarrow> refreshLocked g bb;
       Some (True, requeue g bb)
     }
   }"

lemma schedule_turn_tail:
  "schedule_turn bb =
     (let used = bb_used bb - bb_escape bb in
      if bb_total bb \<noteq> 0 \<and> used \<ge> bb_total bb then Some (False, bb)
      else do {
        let base = (if bb_total bb = 0 then MaxUint64
                    else if used < bb_total bb - bb_reserve bb then bb_total bb - bb_reserve bb - used
                    else 0);
        (pick, bb) \<leftarrow> (if base \<noteq> 0 \<or> \<not> bb_fair bb then
                         (case bb_waiting bb of [] \<Rightarrow> None | g # _ \<Rightarrow> Some (Some g, bb))
                       else nextReserveLocked bb);
        case pick of None \<Rightarrow> Some (False, bb) | Some g \<Rightarrow> turn_tail base used g bb
      })"
  unfolding schedule_turn_def turn_tail_def credit_front_def requeue_def Let_def by (rule refl)

lemma move_to_back_set [simp]: "g \<in> set xs \<Longrightarrow> distinct xs \<Longrightarrow> set (move_to_back g xs) = set xs"
  by (auto simp: move_to_back_def)

lemma move_to_back_distinct [simp]: "distinct xs \<Longrightarrow> distinct (move_to_back g xs)"
  by (simp add: move_to_back_def)

lemma requeue_ok:
  assumes "queue_ok bb"
  shows "queue_ok (requeue g bb)" "core (requeue g bb) = core bb"
proof -
  note q = queue_okD [OF assms]
  show c: "core (requeue g bb) = core bb" by (simp add: requeue_def Let_def)
  have sets: "set (bb_waiting (requeue g bb)) = set (bb_waiting bb)" "distinct (bb_waiting (requeue g bb))"
    "set (bb_reserveReady (requeue g bb)) = set (bb_reserveReady bb)" "distinct (bb_reserveReady (requeue g bb))"
    using q(10,11,13,14) by (simp_all add: requeue_def Let_def)
  have same: "bb_blocked (requeue g bb) = bb_blocked bb" "grp (requeue g bb) = grp bb" "get_heap (requeue g bb) = get_heap bb"
    by (simp_all add: requeue_def Let_def get_heap_def)
  show "queue_ok (requeue g bb)"
    by (rule queue_okI [OF c]; simp only: sets same) (use q in blast)+
qed

text \<open>
  What a credit of \<open>base\<close> bytes respects: one group grows, and the usage stays within \<open>base\<close> of
  the former one unless the group stays within its fair share.
\<close>

definition guarded :: "u64 \<Rightarrow> nat \<Rightarrow> ByteBudget \<Rightarrow> ByteBudget \<Rightarrow> bool" where
  "guarded base g bb bb' \<longleftrightarrow>
     (\<forall>x. x \<noteq> g \<longrightarrow> g_used (grp bb' x) = g_used (grp bb x)) \<and> g_used (grp bb g) < g_used (grp bb' g) \<and>
     (bb_used bb' - bb_escape bb' \<le> bb_used bb - bb_escape bb + base \<or> eligible bb g)"

text \<open>The credit of a turn is positive and fits both the request and the room.\<close>

lemma turn_tail_ok:
  assumes inv: "fair_inv bb L" and ne: "g_waiters (grp bb g) \<noteq> []"
    and used: "used = bb_used bb - bb_escape bb" "used < bb_total bb"
    and base: "base \<le> bb_total bb - used" "base \<noteq> 0 \<or> eligible bb g"
  shows "\<exists>bb'. turn_tail base used g bb = Some (True, bb') \<and> fair_inv bb' L \<and> evolves L bb bb' \<and>
    owed bb' L < owed bb L \<and> guarded base g bb bb'"
proof -
  have b: "binv bb L" and q: "queue_ok bb" using inv by (auto simp: fair_inv_def)
  obtain w ws where ws: "g_waiters (grp bb g) = w # ws" using ne by (cases "g_waiters (grp bb g)") auto
  note f = front_waiter [OF b ws]
  define room where "room = (if nd bb g \<le> share g bb then bb_total bb - used else base)"
  define rest where "rest = w_n (wtr bb w) - w_credit (wtr bb w)"
  define c where "c = (let c = (if rest > budgetQuantum then budgetQuantum else rest) in if c > room then room else c)"
  have room: "room \<noteq> 0" "room \<le> bb_total bb - used"
    using used(2) base by (auto simp: room_def eligible_def)
  have rest: "rest \<noteq> 0" "unat rest = unat (w_n (wtr bb w)) - unat (w_credit (wtr bb w))"
    using f(5) by (auto simp: rest_def unat_diff_exact order_less_imp_le)
  have c: "c \<noteq> 0" "c \<le> rest" "c \<le> room"
    using room(1) rest(1) by (auto simp: c_def Let_def budgetQuantum_def)
  have fit: "unat (w_credit (wtr bb w)) + unat c \<le> unat (w_n (wtr bb w))"
    using c(2) rest(2) f(5) by (simp add: u64_order)
  have le: "unat (bb_escape bb) \<le> unat (bb_used bb)" using escape_le_used [OF b] used by (simp add: order_less_imp_le)
  have "unat c \<le> unat (bb_total bb) - (unat (bb_used bb) - unat (bb_escape bb))"
    using c(3) room(2) used le by (simp add: u64_order unat_diff_exact)
  moreover have "unat (bb_used bb) - unat (bb_escape bb) < unat (bb_total bb)"
    using used le by (simp add: u64_order unat_diff_exact)
  ultimately have cap: "unat (bb_used bb) + unat c \<le> unat (bb_total bb) + unat (bb_escape bb)"
    using le by linarith
  let ?b = "credited w c g bb"
  have b1: "binv ?b L" by (rule credited_ok [OF b ws fit cap])
  obtain b2 where b2: "refreshLocked g ?b = Some b2" "queue_ok b2" "core b2 = core ?b"
    using refreshLocked_ok [OF credited_queue [OF b ws q, of c]] by (auto simp: placed_def)
  note r = requeue_ok [OF b2(2), of g]
  have core: "core (requeue g b2) = core ?b" using r(2) b2(3) by simp
  have "turn_tail base used g bb = Some (True, requeue g b2)"
    using b2(1) c(1) f(8) binvD(1) [OF b] groupNeed_nd [OF ne] credit_front_credited [OF b ws, of c] c_def
    by (cases "budgetQuantum < rest"; cases "room < budgetQuantum"; cases "room < rest")
      (simp_all add: turn_tail_def ws Let_def room_def [symmetric] rest_def [symmetric])
  moreover have "fair_inv (requeue g b2) L" using binv_core [OF core b1] r(1) by (simp add: fair_inv_def)
  moreover have "evolves L bb (requeue g b2)"
    using credited_evolves(1) [OF b ws fit] evolves_core [OF core] by (rule evolves_trans)
  moreover have "owed (requeue g b2) L < owed bb L"
    using credited_evolves(2) [OF b ws fit] c(1) owed_core [OF core] by (simp add: word_neq_0_conv)
  moreover have "guarded base g bb (requeue g b2)"
  proof -
    have gl: "g < next_grp bb" using binvD(10) [OF b grp_waiter(1) [OF b, of w g]] grp_waiter(2) [OF b, of w g] ws by (simp add: wtr_ok_def Let_def)
    have u: "g_used (grp (requeue g b2) x) = g_used (grp ?b x)" for x using core_eq [OF core] by simp
    have "unat (g_used (grp bb g) + c) = unat (g_used (grp bb g)) + unat c"
      using used_le_total(1) [OF b, of g] cap binvD(7) [OF b] gl by (intro unat_add_exact) (simp add: cap_ok_def)
    then have "g_used (grp bb g) < g_used (grp ?b g)" using c(1) by (simp add: credited_fields u64_order u64_neq_0)
    moreover have "bb_used bb - bb_escape bb + c \<le> bb_used bb - bb_escape bb + base" if "\<not> eligible bb g"
    proof -
      have cb: "unat c \<le> unat base" using c(3) that by (simp add: room_def eligible_def u64_order)
      have "unat base \<le> unat (bb_total bb) - unat used" "unat used < unat (bb_total bb)"
        using base(1) used(2) by (simp_all add: u64_order unat_diff_exact)
      then have "unat used + unat base < 2 ^ 64" using unat_less_2_64 [of "bb_total bb"] by (simp del: unat_less_2_64)
      then have "unat (used + c) = unat used + unat c" "unat (used + base) = unat used + unat base"
        using cb by (auto intro!: unat_add_exact)
      then show ?thesis using cb used(1) by (simp add: u64_order)
    qed
    ultimately show ?thesis
      using core_eq [OF core] u by (auto simp: guarded_def credited_fields diff_add_eq)
  qed
  ultimately show ?thesis by blast
qed

text \<open>
  What the scheduler never does: hand out a byte of the reserve to a group beyond its fair share.
\<close>

definition protects :: "ByteBudget \<Rightarrow> ByteBudget \<Rightarrow> bool" where
  "protects bb bb' \<longleftrightarrow> (\<exists>g. g_waiters (grp bb g) \<noteq> [] \<and> (\<forall>x. x \<noteq> g \<longrightarrow> g_used (grp bb' x) = g_used (grp bb x)) \<and> g_used (grp bb g) < g_used (grp bb' g) \<and>
     (bb_used bb' - bb_escape bb' \<le> bb_total bb - bb_reserve bb \<or> eligible bb g))"

text \<open>No further byte may be handed to a waiter.\<close>

definition saturated :: "ByteBudget \<Rightarrow> bool" where
  "saturated bb \<longleftrightarrow>
     bb_waiting bb = [] \<or> bb_used bb - bb_escape bb \<ge> bb_total bb \<or>
     (bb_used bb - bb_escape bb \<ge> bb_total bb - bb_reserve bb \<and> (\<forall>g \<in> set (bb_waiting bb). \<not> eligible bb g))"

lemma waiting_active_inv: "binv bb L \<Longrightarrow> waiting_active bb"
  unfolding waiting_active_def
proof (intro allI impI)
  fix g assume inv: "binv bb L" and ne: "g_waiters (grp bb g) \<noteq> []"
  then obtain w ws where "g_waiters (grp bb g) = w # ws" by (cases "g_waiters (grp bb g)") auto
  then have "of_grp bb L g \<noteq> {}" using front_waiter(9) [OF inv] by blast
  then have "card (of_grp bb L g) \<noteq> 0" using of_grp_finite [OF inv] by simp
  then have "unat (g_pending (grp bb g)) \<noteq> 0" using binvD(8) [OF inv, of g] by (simp add: grp_ok_def Let_def)
  then have "g_pending (grp bb g) \<noteq> 0" by (metis unat_0)
  then show "g_active (grp bb g)" using binvD(8) [OF inv, of g] by (simp add: grp_ok_def Let_def)
qed

lemma schedule_turn_ok:
  assumes inv: "fair_inv bb L" and ne: "bb_waiting bb \<noteq> []"
  shows "\<exists>more bb'. schedule_turn bb = Some (more, bb') \<and> fair_inv bb' L \<and> evolves L bb bb' \<and>
    (if more then owed bb' L < owed bb L \<and> protects bb bb' else saturated bb')"
proof -
  have b: "binv bb L" and q: "queue_ok bb" using inv by (auto simp: fair_inv_def)
  obtain g0 rest where hd: "bb_waiting bb = g0 # rest" using ne by (cases "bb_waiting bb") auto
  have w0: "g_waiters (grp bb g0) \<noteq> []" using queue_okD(4) [OF q, of g0] hd by simp
  then obtain w ws where "g_waiters (grp bb g0) = w # ws" by (cases "g_waiters (grp bb g0)") auto
  then have tot: "bb_total bb \<noteq> 0" using front_waiter(8) [OF b] by blast
  have fair: "bb_fair bb" and res: "bb_reserve bb < bb_total bb"
    using binvD(1,3) [OF b] tot by (auto simp: config_ok_def)
  define used where "used = bb_used bb - bb_escape bb"
  define base where "base = (if used < bb_total bb - bb_reserve bb then bb_total bb - bb_reserve bb - used else 0)"
  have base_le: "base \<le> bb_total bb - used" if "used < bb_total bb"
    using that res by (auto simp: base_def u64_order unat_diff_exact)
  have base0: "base = 0 \<longleftrightarrow> bb_total bb - bb_reserve bb \<le> used" by (auto simp: base_def)
  have eq: "schedule_turn bb = (if used \<ge> bb_total bb then Some (False, bb) else
      Option.bind (if base \<noteq> 0 then Some (Some g0, bb) else nextReserveLocked bb)
        (\<lambda>(pick, bb). case pick of None \<Rightarrow> Some (False, bb) | Some g \<Rightarrow> turn_tail base used g bb))"
    using tot fair by (simp add: schedule_turn_tail Let_def used_def [symmetric] base_def [symmetric] hd)
  consider "used \<ge> bb_total bb" | "used < bb_total bb" "base \<noteq> 0" | "used < bb_total bb" "base = 0"
    by fastforce
  then show ?thesis
  proof cases
    case 1
    then show ?thesis
      using inv evolves_refl [of L bb] by (auto simp: eq saturated_def used_def)
  next
    case 2
    have n2: "\<not> bb_total bb \<le> used" using 2 by simp
    obtain b2 where b2: "turn_tail base used g0 bb = Some (True, b2)" "fair_inv b2 L" "evolves L bb b2" "owed b2 L < owed bb L"
        "guarded base g0 bb b2"
      using turn_tail_ok [OF inv w0 used_def 2(1) base_le [OF 2(1)]] 2(2) by blast
    have "used + base = bb_total bb - bb_reserve bb" using 2(2) by (auto simp: base_def split: if_splits)
    then have "protects bb b2" using b2(5) w0 by (auto simp: guarded_def protects_def used_def [symmetric])
    then show ?thesis using b2 n2 2(2) by (auto simp: eq)
  next
    case 3
    from nextReserveLocked_ok [OF q fair waiting_active_inv [OF b]] obtain r bb1 where
      r: "nextReserveLocked bb = Some (r, bb1)" "queue_ok bb1" "core bb1 = core bb"
        "case r of None \<Rightarrow> \<forall>x \<in> set (bb_waiting bb). \<not> eligible bb x
           | Some g \<Rightarrow> g \<in> set (bb_waiting bb) \<and> eligible bb g" by blast
    have inv1: "fair_inv bb1 L" using binv_core [OF r(3) b] r(2) by (simp add: fair_inv_def)
    have wt: "set (bb_waiting bb1) = set (bb_waiting bb)"
      using queue_okD(4) [OF q] queue_okD(4) [OF r(2)] core_eq(21) [OF r(3)] by auto
    have n3: "\<not> bb_total bb \<le> used" using 3 by simp
    show ?thesis
    proof (cases r)
      case None
      then have "saturated bb1"
        using r(4) 3 base0 core_eq [OF r(3)] eligible_core [OF r(3)] wt by (auto simp: saturated_def used_def)
      then show ?thesis using r inv1 evolves_core [OF r(3)] None 3 n3 by (auto simp: eq)
    next
      case (Some g)
      have gw: "g_waiters (grp bb1 g) \<noteq> []" using r(4) Some wt queue_okD(4) [OF r(2)] by auto
      have u1: "used = bb_used bb1 - bb_escape bb1" "used < bb_total bb1" "base \<le> bb_total bb1 - used"
        using used_def 3(1) base_le core_eq [OF r(3)] by auto
      have el: "base \<noteq> 0 \<or> eligible bb1 g" using r(4) Some eligible_core [OF r(3)] by simp
      obtain b2 where b2: "turn_tail base used g bb1 = Some (True, b2)" "fair_inv b2 L" "evolves L bb1 b2"
          "owed b2 L < owed bb1 L" "guarded base g bb1 b2"
        using turn_tail_ok [OF inv1 gw u1 el] by blast
      have "protects bb b2" using b2(5) r(4) Some gw core_eq [OF r(3)] by (auto simp: guarded_def protects_def)
      moreover have "evolves L bb b2" using evolves_core [OF r(3)] b2(3) by (rule evolves_trans)
      ultimately show ?thesis using b2 r(1) Some 3 n3 owed_core [OF r(3)] by (auto simp: eq)
    qed
  qed
qed

section \<open>The loop\<close>

lemma scheduleLocked_ok:
  assumes "fair_inv bb L"
  shows "\<exists>bb'. scheduleLocked bb = Some bb' \<and> fair_inv bb' L \<and> evolves L bb bb' \<and> saturated bb'"
  using assms
proof (induction "owed bb L" arbitrary: bb rule: less_induct)
  case less
  show ?case
  proof (cases "bb_waiting bb = []")
    case True
    then show ?thesis
      using less.prems evolves_refl [of L bb] by (simp add: scheduleLocked.simps [of bb] saturated_def)
  next
    case False
    obtain more b where t: "schedule_turn bb = Some (more, b)" "fair_inv b L" "evolves L bb b"
        "if more then owed b L < owed bb L \<and> protects bb b else saturated b"
      using schedule_turn_ok [OF less.prems False] by blast
    show ?thesis
    proof (cases more)
      case True
      then obtain c where c: "scheduleLocked b = Some c" "fair_inv c L" "evolves L b c" "saturated c"
        using less.hyps [of b] t by auto
      then show ?thesis
        using evolves_trans [OF t(3) c(3)] t(1) True False by (auto simp: scheduleLocked.simps [of bb])
    next
      case no: False
      then show ?thesis using t False by (auto simp: scheduleLocked.simps [of bb])
    qed
  qed
qed

end
