(* ===== verification/BudgetOps.thy ===== *)
theory BudgetOps
  imports BudgetSchedule
begin

text \<open>
  The operations of the fair budget against the ledger: adding, cancelling and collecting
  a waiter, registering a group, and on top of them \<open>reserveFor\<close>, \<open>cancel\<close>, \<open>releaseFor\<close>,
  \<open>register\<close> and \<open>unregister\<close> as whole operations. A caller that follows the contract of
  \<open>budget_pre\<close> never makes one of them panic or loop, in any order of the calls.
\<close>

section \<open>A waiter goes away\<close>

definition drop_waiter :: "nat \<Rightarrow> ByteBudget \<Rightarrow> ByteBudget" where
  "drop_waiter g bb = unregisterLocked g (activateLocked g (set_grp g (\<lambda>G. G\<lparr>g_pending := g_pending G - 1\<rparr>) bb))"

lemma drop_waiter_fields:
  "bb_total (drop_waiter g bb) = bb_total bb" "bb_used (drop_waiter g bb) = bb_used bb"
  "bb_escape (drop_waiter g bb) = bb_escape bb" "bb_fair (drop_waiter g bb) = bb_fair bb"
  "bb_reserve (drop_waiter g bb) = bb_reserve bb" "bb_minGroup (drop_waiter g bb) = bb_minGroup bb"
  "bb_waiting (drop_waiter g bb) = bb_waiting bb" "bb_reserveReady (drop_waiter g bb) = bb_reserveReady bb"
  "bb_blocked (drop_waiter g bb) = bb_blocked bb" "wtr (drop_waiter g bb) = wtr bb"
  "chanClosed (drop_waiter g bb) = chanClosed bb" "next_grp (drop_waiter g bb) = next_grp bb"
  "next_wtr (drop_waiter g bb) = next_wtr bb" "next_chan (drop_waiter g bb) = next_chan bb"
  "x \<noteq> g \<Longrightarrow> grp (drop_waiter g bb) x = grp bb x"
  "g_key (grp (drop_waiter g bb) x) = g_key (grp bb x)" "g_used (grp (drop_waiter g bb) x) = g_used (grp bb x)"
  "g_escape (grp (drop_waiter g bb) x) = g_escape (grp bb x)"
  "g_waiters (grp (drop_waiter g bb) x) = g_waiters (grp bb x)"
  "g_allElem (grp (drop_waiter g bb) x) = g_allElem (grp bb x)"
  "g_reserveElem (grp (drop_waiter g bb) x) = g_reserveElem (grp bb x)"
  "g_heapIndex (grp (drop_waiter g bb) x) = g_heapIndex (grp bb x)"
  "g_pending (grp (drop_waiter g bb) g) = g_pending (grp bb g) - 1"
  "bb_fair bb \<Longrightarrow> g_refs (grp (drop_waiter g bb) g) = g_refs (grp bb g) - 1"
  "bb_fair bb \<Longrightarrow> g_active (grp (drop_waiter g bb) g) = (g_used (grp bb g) \<noteq> 0 \<or> g_pending (grp bb g) - 1 \<noteq> 0)"
  by (simp_all add: drop_waiter_def unregisterLocked_def Let_def set_grp_def activate_simps activate_other)

lemma sums_ok_cong:
  assumes "sums_ok bb" "next_grp b = next_grp bb" "bb_used b = bb_used bb" "bb_escape b = bb_escape bb"
    "bb_active b = bb_active bb" "\<And>x. g_used (grp b x) = g_used (grp bb x)"
    "\<And>x. g_escape (grp b x) = g_escape (grp bb x)" "\<And>x. g_active (grp b x) = g_active (grp bb x)"
  shows "sums_ok b"
  using assms by (simp add: sums_ok_def)

lemma drop_waiter_sums:
  assumes "sums_ok bb" "bb_fair bb" "g < next_grp bb" "next_grp bb < 2 ^ 62"
  shows "sums_ok (drop_waiter g bb)"
proof -
  let ?c = "set_grp g (\<lambda>G. G\<lparr>g_pending := g_pending G - 1\<rparr>) bb"
  have "sums_ok ?c" by (rule sums_ok_cong [OF assms(1)]) (simp_all add: set_grp_def)
  then have "sums_ok (activateLocked g ?c)" using assms by (intro activate_sums) (simp_all add: set_grp_def)
  then show ?thesis
    by (rule sums_ok_cong) (simp_all add: drop_waiter_def unregisterLocked_def Let_def set_grp_def)
qed

lemma unregister_names:
  assumes "names_ok bb" "g_refs (grp bb g) \<noteq> 0" "bb_fair bb" "0 < g" "g < next_grp bb"
  shows "names_ok (unregisterLocked g bb)"
proof -
  have n: "bb_groups bb k = Some x \<longleftrightarrow> 0 < x \<and> x < next_grp bb \<and> g_key (grp bb x) = k \<and> g_refs (grp bb x) \<noteq> 0" for k x
    using assms(1) by (simp add: names_ok_def)
  have g: "bb_groups bb (g_key (grp bb g)) = Some g" using n [of "g_key (grp bb g)" g] assms by simp
  have uniq: "x = g" if "0 < x" "x < next_grp bb" "g_key (grp bb x) = g_key (grp bb g)" "g_refs (grp bb x) \<noteq> 0" for x
    using n [THEN iffD2, OF conjI [OF that(1) conjI [OF that(2) conjI [OF that(3,4)]]]] g by (simp only: option.inject)
  let ?b = "unregisterLocked g bb"
  have f: "next_grp ?b = next_grp bb" "\<And>x. g_key (grp ?b x) = g_key (grp bb x)"
    "\<And>x. g_refs (grp ?b x) = (if x = g then g_refs (grp bb g) - 1 else g_refs (grp bb x))"
    "bb_groups ?b = (if g_refs (grp bb g) - 1 = 0 then (bb_groups bb)(g_key (grp bb g) := None) else bb_groups bb)"
    using assms(3) by (simp_all add: unregisterLocked_def Let_def set_grp_def)
  have "bb_groups ?b k = Some x \<longleftrightarrow> 0 < x \<and> x < next_grp bb \<and> g_key (grp bb x) = k \<and> g_refs (grp ?b x) \<noteq> 0" for k x
  proof (cases "g_refs (grp bb g) - 1 = 0")
    case True
    then show ?thesis using uniq [of x] n [of k x] by (cases "k = g_key (grp bb g)") (auto simp: f)
  next
    case False
    then show ?thesis using n [of k x] assms(2) by (auto simp: f)
  qed
  then show ?thesis by (simp add: names_ok_def f)
qed

lemma drop_waiter_names:
  assumes "names_ok bb" "g_refs (grp bb g) \<noteq> 0" "bb_fair bb" "0 < g" "g < next_grp bb"
  shows "names_ok (drop_waiter g bb)"
  unfolding drop_waiter_def
  by (rule unregister_names) (use assms in \<open>auto simp: names_ok_def activate_simps set_grp_def\<close>)

lemma set_tl_remove1: "set (tl (remove1 w xs)) \<subseteq> set (tl xs)"
  by (cases xs; cases "tl xs") (auto dest: notin_set_remove1 set_mp [OF set_remove1_subset])

text \<open>
  The waiter \<open>w\<close> leaves the ledger of its group: its credit either went back to the budget
  or becomes bytes the caller holds.
\<close>

lemma waiter_gone:
  assumes inv: "binv bb L" and w: "w \<in> outst L" and g: "g = w_group (wtr bb w)"
    and b: "bb_fair b" "bb_total b = bb_total bb" "bb_reserve b = bb_reserve bb" "next_grp b = next_grp bb"
      "next_wtr b = next_wtr bb" "next_chan b = next_chan bb" "chanClosed b = chanClosed bb"
      "bb_escape b = bb_escape bb" "unat (bb_used b) \<le> unat (bb_used bb)"
    and wt: "\<And>x. x \<noteq> w \<Longrightarrow> wtr b x = wtr bb x" and gr: "\<And>x. x \<noteq> g \<Longrightarrow> grp b x = grp bb x"
    and sums: "sums_ok b" and names: "names_ok b"
    and G: "g_waiters (grp b g) = remove1 w (g_waiters (grp bb g))"
      "unat (g_used (grp b g)) + unat (w_credit (wtr bb w)) = unat (g_used (grp bb g)) + m"
      "g_escape (grp b g) = g_escape (grp bb g)" "g_pending (grp b g) = g_pending (grp bb g) - 1"
      "g_refs (grp b g) = g_refs (grp bb g) - 1"
      "g_active (grp b g) \<longleftrightarrow> g_used (grp b g) \<noteq> 0 \<or> g_pending (grp b g) \<noteq> 0"
  shows "binv b (L\<lparr>outst := outst L - {w}, held := (held L)(g := held L g + m)\<rparr>)" (is "binv b ?L")
proof (rule binv_update [OF inv, where g = g])
  note d = binvD [OF inv]
  have gg: "0 < g" "g < next_grp bb"
    using d(4,10) w g by (auto simp: ledger_ok_def wtr_ok_def Let_def)
  show "config_ok b ?L" using d(3) b by (auto simp: config_ok_def)
  show "ledger_ok b ?L"
    using d(4) b wt gg by (auto simp: ledger_ok_def wtr_ok_def Let_def inj_on_def)
  show "cap_ok b" using d(7) b by (auto simp: cap_ok_def)
  let ?S = "of_grp bb L g"
  have S: "of_grp b ?L g = ?S - {w}" and wS: "w \<in> ?S" using w g wt by (auto simp: of_grp_def)
  note old = d(8) [of g, unfolded grp_ok_def Let_def]
  have fin: "finite ?S" by (rule of_grp_finite [OF inv])
  have card: "card ?S = Suc (card (?S - {w}))" using wS fin by (metis card_Suc_Diff1)
  have ne: "g_pending (grp bb g) \<noteq> 0" "g_refs (grp bb g) \<noteq> 0" using old card by auto
  have sum: "(\<Sum>x \<in> ?S. unat (w_credit (wtr bb x))) =
      unat (w_credit (wtr bb w)) + (\<Sum>x \<in> ?S - {w}. unat (w_credit (wtr b x)))"
    using fin wS wt by (simp add: sum.remove)
  have set: "set (g_waiters (grp b g)) = {x \<in> ?S - {w}. \<not> w_granted (wtr b x)}"
    using old G(1) wt by auto
  have tl: "\<forall>x \<in> set (tl (g_waiters (grp b g))). w_credit (wtr b x) = 0"
  proof
    fix x assume x: "x \<in> set (tl (g_waiters (grp b g)))"
    then have "x \<in> set (g_waiters (grp b g))" by (metis list.sel(2) list.set_sel(2))
    then have "x \<noteq> w" using set by auto
    moreover have "x \<in> set (tl (g_waiters (grp bb g)))" using x G(1) set_tl_remove1 [of w "g_waiters (grp bb g)"] by auto
    ultimately show "w_credit (wtr b x) = 0" using old wt by auto
  qed
  show "grp_ok b ?L g"
    unfolding grp_ok_def Let_def S
    using old set tl sum G card unat_pred_exact [OF ne(1)] unat_pred_exact [OF ne(2)] by auto
  show "x \<in> outst ?L \<and> wtr b x = wtr bb x" if "x \<in> outst L" "w_group (wtr bb x) \<noteq> g" for x
    using that g wt by (cases "x = w") auto
qed (use sums names wt gr in auto)

text \<open>\<open>removeWaiterLocked\<close> up to the point where the waiter's pending count is dropped.\<close>

definition refund :: "nat \<Rightarrow> ByteBudget \<Rightarrow> ByteBudget" where
  "refund w bb =
     (let g = w_group (wtr bb w);
          bb = (if w_elem (wtr bb w)
                then set_wtr w (\<lambda>W. W\<lparr>w_elem := False\<rparr>)
                       (set_grp g (\<lambda>G. G\<lparr>g_waiters := remove1 w (g_waiters G)\<rparr>) bb)
                else bb)
      in if w_credit (wtr bb w) \<noteq> 0
         then set_wtr w (\<lambda>W. W\<lparr>w_credit := 0\<rparr>) (releaseLocked (w_credit (wtr bb w)) 0 g bb)
         else bb)"

lemma removeWaiterLocked_refund:
  "removeWaiterLocked w bb = refreshLocked (w_group (wtr bb w)) (drop_waiter (w_group (wtr bb w)) (refund w bb))"
  unfolding removeWaiterLocked_def refund_def drop_waiter_def Let_def by (rule refl)

definition unlink :: "nat \<Rightarrow> ByteBudget \<Rightarrow> ByteBudget" where
  "unlink w bb =
     bb\<lparr>wtr := (wtr bb)(w := (wtr bb w)\<lparr>w_elem := False\<rparr>),
        grp := (grp bb)(w_group (wtr bb w) := (grp bb (w_group (wtr bb w)))
                  \<lparr>g_waiters := remove1 w (g_waiters (grp bb (w_group (wtr bb w))))\<rparr>)\<rparr>"

lemma wtr_upd_id: "\<not> w_elem (f w) \<Longrightarrow> f(w := (f w)\<lparr>w_elem := False\<rparr>) = f"
proof -
  assume "\<not> w_elem (f w)"
  then have "(f w)\<lparr>w_elem := False\<rparr> = f w" by (intro budgetWaiter.equality) simp_all
  then show ?thesis by (simp only: fun_upd_triv)
qed

lemma grp_upd_id: "w \<notin> set (g_waiters (f g)) \<Longrightarrow> f(g := (f g)\<lparr>g_waiters := remove1 w (g_waiters (f g))\<rparr>) = f"
proof -
  assume "w \<notin> set (g_waiters (f g))"
  then have "(f g)\<lparr>g_waiters := remove1 w (g_waiters (f g))\<rparr> = f g"
    by (intro budgetGroup.equality) (simp_all add: remove1_idem)
  then show ?thesis by (simp only: fun_upd_triv)
qed

lemma refund_adjust:
  assumes inv: "binv bb L" and w: "w \<in> outst L" and g: "g = w_group (wtr bb w)" and c: "c = w_credit (wtr bb w)"
  shows "refund w bb = (if c \<noteq> 0 then set_wtr w (\<lambda>W. W\<lparr>w_credit := 0\<rparr>)
      (adjust g (g_used (grp bb g) - c) (g_escape (grp bb g)) (bb_used bb - c) (bb_escape bb) (unlink w bb))
    else unlink w bb)"
    and "unat c \<le> unat (g_used (grp bb g))" and "unat c \<le> unat (bb_used bb)"
proof -
  note d = binvD [OF inv]
  have ok: "wtr_ok bb w" and gg: "g < next_grp bb" using d(10) [OF w] g by (auto simp: wtr_ok_def Let_def)
  have elem: "w_elem (wtr bb w) \<longleftrightarrow> w \<in> set (g_waiters (grp bb g))"
    using d(8) [of g] ok w g by (auto simp: grp_ok_def wtr_ok_def Let_def of_grp_def)
  have wS: "w \<in> of_grp bb L g" using w g by (simp add: of_grp_def)
  have "unat c \<le> (\<Sum>x \<in> of_grp bb L g. unat (w_credit (wtr bb x)))"
    unfolding c by (rule member_le_sum [OF wS]) (simp_all add: of_grp_finite [OF inv])
  then show c1: "unat c \<le> unat (g_used (grp bb g))" using d(8) [of g] by (simp add: grp_ok_def Let_def)
  then show c2: "unat c \<le> unat (bb_used bb)" using used_le_total [OF inv gg] by simp
  have un: "unlink w bb = (if w_elem (wtr bb w)
      then set_wtr w (\<lambda>W. W\<lparr>w_elem := False\<rparr>) (set_grp g (\<lambda>G. G\<lparr>g_waiters := remove1 w (g_waiters G)\<rparr>) bb) else bb)"
    using elem wtr_upd_id [of "wtr bb" w] grp_upd_id [of w "grp bb" g]
    by (auto simp: unlink_def g set_wtr_def set_grp_def intro!: ByteBudget.equality)
  have f: "bb_fair (unlink w bb)" "g_used (grp (unlink w bb) g) = g_used (grp bb g)" "bb_used (unlink w bb) = bb_used bb"
    "g_escape (grp (unlink w bb) g) = g_escape (grp bb g)" "bb_escape (unlink w bb) = bb_escape bb"
    "w_credit (wtr (unlink w bb) w) = c"
    using d(1) by (simp_all add: unlink_def c)
  have rel: "releaseLocked c 0 g (unlink w bb) =
      adjust g (g_used (grp bb g) - c) (g_escape (grp bb g)) (bb_used bb - c) (bb_escape bb) (unlink w bb)"
    using release_adjust [OF f(1), of c g 0] c1 c2 f by (simp add: u64_order)
  show "refund w bb = (if c \<noteq> 0 then set_wtr w (\<lambda>W. W\<lparr>w_credit := 0\<rparr>)
      (adjust g (g_used (grp bb g) - c) (g_escape (grp bb g)) (bb_used bb - c) (bb_escape bb) (unlink w bb))
    else unlink w bb)"
    by (simp only: refund_def Let_def g [symmetric] un [symmetric] rel f)
qed

lemma unlink_fields:
  "bb_total (unlink w bb) = bb_total bb" "bb_used (unlink w bb) = bb_used bb" "bb_escape (unlink w bb) = bb_escape bb"
  "bb_fair (unlink w bb) = bb_fair bb" "bb_reserve (unlink w bb) = bb_reserve bb"
  "bb_minGroup (unlink w bb) = bb_minGroup bb" "bb_groups (unlink w bb) = bb_groups bb"
  "bb_active (unlink w bb) = bb_active bb" "bb_waiting (unlink w bb) = bb_waiting bb"
  "bb_reserveReady (unlink w bb) = bb_reserveReady bb" "bb_blocked (unlink w bb) = bb_blocked bb"
  "chanClosed (unlink w bb) = chanClosed bb" "next_grp (unlink w bb) = next_grp bb"
  "next_wtr (unlink w bb) = next_wtr bb" "next_chan (unlink w bb) = next_chan bb"
  "x \<noteq> w \<Longrightarrow> wtr (unlink w bb) x = wtr bb x" "x \<noteq> w_group (wtr bb w) \<Longrightarrow> grp (unlink w bb) x = grp bb x"
  "g_key (grp (unlink w bb) x) = g_key (grp bb x)" "g_refs (grp (unlink w bb) x) = g_refs (grp bb x)"
  "g_used (grp (unlink w bb) x) = g_used (grp bb x)" "g_escape (grp (unlink w bb) x) = g_escape (grp bb x)"
  "g_pending (grp (unlink w bb) x) = g_pending (grp bb x)" "g_active (grp (unlink w bb) x) = g_active (grp bb x)"
  "g_allElem (grp (unlink w bb) x) = g_allElem (grp bb x)" "g_reserveElem (grp (unlink w bb) x) = g_reserveElem (grp bb x)"
  "g_heapIndex (grp (unlink w bb) x) = g_heapIndex (grp bb x)"
  "g_waiters (grp (unlink w bb) (w_group (wtr bb w))) = remove1 w (g_waiters (grp bb (w_group (wtr bb w))))"
  by (simp_all add: unlink_def)

lemma refund_fields:
  assumes inv: "binv bb L" and w: "w \<in> outst L" and g: "g = w_group (wtr bb w)" and c: "c = w_credit (wtr bb w)"
  defines "b \<equiv> refund w bb"
  shows "bb_total b = bb_total bb" "bb_used b = bb_used bb - c" "bb_escape b = bb_escape bb"
    "bb_fair b = bb_fair bb" "bb_reserve b = bb_reserve bb" "bb_minGroup b = bb_minGroup bb"
    "bb_groups b = bb_groups bb" "bb_waiting b = bb_waiting bb" "bb_reserveReady b = bb_reserveReady bb"
    "bb_blocked b = bb_blocked bb" "chanClosed b = chanClosed bb" "next_grp b = next_grp bb"
    "next_wtr b = next_wtr bb" "next_chan b = next_chan bb"
    "\<And>x. x \<noteq> w \<Longrightarrow> wtr b x = wtr bb x" "\<And>x. x \<noteq> g \<Longrightarrow> grp b x = grp bb x"
    "\<And>x. g_key (grp b x) = g_key (grp bb x)" "\<And>x. g_refs (grp b x) = g_refs (grp bb x)"
    "g_used (grp b g) = g_used (grp bb g) - c" "\<And>x. g_escape (grp b x) = g_escape (grp bb x)"
    "\<And>x. g_pending (grp b x) = g_pending (grp bb x)"
    "\<And>x. g_allElem (grp b x) = g_allElem (grp bb x)" "\<And>x. g_reserveElem (grp b x) = g_reserveElem (grp bb x)"
    "\<And>x. g_heapIndex (grp b x) = g_heapIndex (grp bb x)"
    "g_waiters (grp b g) = remove1 w (g_waiters (grp bb g))" "sums_ok b" "names_ok b"
proof -
  note r = refund_adjust [OF inv w g c] and d = binvD [OF inv]
  show "bb_total b = bb_total bb" "bb_used b = bb_used bb - c" "bb_escape b = bb_escape bb"
    "bb_fair b = bb_fair bb" "bb_reserve b = bb_reserve bb" "bb_minGroup b = bb_minGroup bb"
    "bb_groups b = bb_groups bb" "bb_waiting b = bb_waiting bb" "bb_reserveReady b = bb_reserveReady bb"
    "bb_blocked b = bb_blocked bb" "chanClosed b = chanClosed bb" "next_grp b = next_grp bb"
    "next_wtr b = next_wtr bb" "next_chan b = next_chan bb"
    "\<And>x. x \<noteq> w \<Longrightarrow> wtr b x = wtr bb x" "\<And>x. x \<noteq> g \<Longrightarrow> grp b x = grp bb x"
    and key: "\<And>x. g_key (grp b x) = g_key (grp bb x)" and refs: "\<And>x. g_refs (grp b x) = g_refs (grp bb x)"
    and "g_used (grp b g) = g_used (grp bb g) - c" "\<And>x. g_escape (grp b x) = g_escape (grp bb x)"
    "\<And>x. g_pending (grp b x) = g_pending (grp bb x)"
    "\<And>x. g_allElem (grp b x) = g_allElem (grp bb x)" "\<And>x. g_reserveElem (grp b x) = g_reserveElem (grp bb x)"
    "\<And>x. g_heapIndex (grp b x) = g_heapIndex (grp bb x)"
    "g_waiters (grp b g) = remove1 w (g_waiters (grp bb g))"
    by (auto simp: b_def r(1) unlink_fields set_wtr_def adjust_fields adjust_gfields adjust_other g)
  then show "names_ok b" using d(6) by (simp add: names_ok_def)
  have u: "sums_ok (unlink w bb)" by (rule sums_ok_cong [OF d(5)]) (simp_all add: unlink_fields)
  have gg: "g < next_grp bb" using d(10) [OF w] g by (auto simp: wtr_ok_def Let_def)
  have "sums_ok (adjust g (g_used (grp bb g) - c) (g_escape (grp bb g)) (bb_used bb - c) (bb_escape bb) (unlink w bb))"
    using r(2,3) gg d(1,11)
    by (intro adjust_sums [OF u]) (simp_all add: unlink_fields unat_diff_exact u64_order)
  then show "sums_ok b" using u by (simp add: b_def r(1) set_wtr_def sums_ok_def)
qed

lemma removeWaiterLocked_ok:
  assumes inv: "fair_inv bb L" and w: "w \<in> outst L"
  shows "\<exists>bb'. removeWaiterLocked w bb = Some bb' \<and> fair_inv bb' (L\<lparr>outst := outst L - {w}\<rparr>) \<and>
    bb_total bb' = bb_total bb \<and> next_grp bb' = next_grp bb \<and> unat (bb_used bb') \<le> unat (bb_used bb) \<and>
    bb_escape bb' = bb_escape bb \<and> next_wtr bb' = next_wtr bb \<and> next_chan bb' = next_chan bb \<and>
    (\<forall>x. x \<noteq> w \<longrightarrow> wtr bb' x = wtr bb x)"
proof -
  have b: "binv bb L" and q: "queue_ok bb" using inv by (auto simp: fair_inv_def)
  define g where "g = w_group (wtr bb w)"
  define c where "c = w_credit (wtr bb w)"
  let ?r = "refund w bb" let ?b = "drop_waiter g ?r"
  note d = binvD [OF b] and rf = refund_fields [OF b w g_def c_def] and le = refund_adjust(2,3) [OF b w g_def c_def]
  have gg: "0 < g" "g < next_grp bb" using d(4,10) w g_def by (auto simp: ledger_ok_def wtr_ok_def Let_def)
  have wS: "w \<in> of_grp bb L g" using w by (simp add: of_grp_def g_def)
  then have "0 < card (of_grp bb L g)" using of_grp_finite [OF b] card_gt_0_iff by blast
  then have ne: "g_refs (grp bb g) \<noteq> 0" using d(8) [of g] by (auto simp: grp_ok_def Let_def)
  have cr: "unat (bb_used bb - c) = unat (bb_used bb) - unat c" "unat (g_used (grp bb g) - c) = unat (g_used (grp bb g)) - unat c"
    using le by (simp_all add: unat_diff_exact u64_order)
  have b1: "binv ?b (L\<lparr>outst := outst L - {w}, held := (held L)(g := held L g + 0)\<rparr>)"
  proof (rule waiter_gone [OF b w g_def])
    show "sums_ok ?b" using rf d gg by (intro drop_waiter_sums) simp_all
    show "names_ok ?b" using rf d gg ne by (intro drop_waiter_names) simp_all
  qed (use d(1) le in \<open>simp_all add: drop_waiter_fields rf cr c_def [symmetric]\<close>)
  then have b2: "binv ?b (L\<lparr>outst := outst L - {w}\<rparr>)" by simp
  have "queue_except g ?b"
  proof (rule queue_except_change [OF q])
    show "nd ?b x = nd bb x" if "x \<noteq> g" for x
    proof (rule nd_same)
      fix y assume "y \<in> set (g_waiters (grp bb x))"
      then have "y \<noteq> w" using grp_waiter(2) [OF b, of y x] g_def that by auto
      then show "wtr ?b y = wtr bb y" by (simp add: drop_waiter_fields rf)
    qed (simp_all add: that drop_waiter_fields rf)
  qed (simp_all add: drop_waiter_fields rf)
  from refreshLocked_ok [OF this] obtain b' where
    b': "refreshLocked g ?b = Some b'" "queue_ok b'" "core b' = core ?b" by (auto simp: placed_def)
  have "fair_inv b' (L\<lparr>outst := outst L - {w}\<rparr>)"
    using binv_core [OF b'(3) b2] b'(2) by (simp add: fair_inv_def)
  then show ?thesis
    using b'(1) core_eq [OF b'(3)] cr
    by (auto simp: removeWaiterLocked_refund g_def [symmetric] drop_waiter_fields rf)
qed

lemma queue_ok_same:
  assumes "queue_ok bb" "bb_waiting b = bb_waiting bb" "bb_reserveReady b = bb_reserveReady bb"
    "bb_blocked b = bb_blocked bb" "\<And>x. g_allElem (grp b x) = g_allElem (grp bb x)"
    "\<And>x. g_reserveElem (grp b x) = g_reserveElem (grp bb x)" "\<And>x. g_heapIndex (grp b x) = g_heapIndex (grp bb x)"
    "\<And>x. g_waiters (grp b x) = g_waiters (grp bb x)" "\<And>x. nd b x = nd bb x"
  shows "queue_ok b"
proof -
  have "nd b = nd bb" using assms(9) by (rule ext)
  then have "queue_ok b = queue_ok bb" by (simp only: queue_ok_def member_ok_def get_heap_def assms(2-8))
  with assms(1) show ?thesis by simp
qed

lemma waiter_group:
  assumes "binv bb L" and "w \<in> outst L"
  shows "0 < w_group (wtr bb w)" "w_group (wtr bb w) < next_grp bb"
    "0 < card (of_grp bb L (w_group (wtr bb w)))" "g_refs (grp bb (w_group (wtr bb w))) \<noteq> 0"
proof -
  let ?g = "w_group (wtr bb w)"
  note d = binvD [OF assms(1)]
  show "0 < ?g" "?g < next_grp bb" using d(4,10) assms(2) by (auto simp: ledger_ok_def wtr_ok_def Let_def)
  have "w \<in> of_grp bb L ?g" using assms(2) by (simp add: of_grp_def)
  then show "0 < card (of_grp bb L ?g)" using of_grp_finite [OF assms(1)] card_gt_0_iff by blast
  then show "g_refs (grp bb ?g) \<noteq> 0" using d(8) [of ?g] by (auto simp: grp_ok_def Let_def)
qed

text \<open>A granted waiter is collected: its reservation becomes bytes the caller holds.\<close>

lemma collect_ok:
  assumes inv: "fair_inv bb L" and w: "w \<in> outst L" and gr: "w_granted (wtr bb w)"
  defines "g \<equiv> w_group (wtr bb w)"
  shows "fair_inv (drop_waiter g bb)
    (L\<lparr>outst := outst L - {w}, held := (held L)(g := held L g + unat (w_n (wtr bb w)))\<rparr>)"
proof -
  have b: "binv bb L" and q: "queue_ok bb" using inv by (auto simp: fair_inv_def)
  note d = binvD [OF b] and gg = waiter_group [OF b w, folded g_def]
  have n: "w_credit (wtr bb w) = w_n (wtr bb w)" using d(10) [OF w] gr by (simp add: wtr_ok_def Let_def)
  have "w \<notin> set (g_waiters (grp bb g))" using d(8) [of g] gr by (auto simp: grp_ok_def Let_def)
  then have rm: "remove1 w (g_waiters (grp bb g)) = g_waiters (grp bb g)" by (simp add: remove1_idem)
  have g: "g = w_group (wtr bb w)" by (simp add: g_def)
  have "binv (drop_waiter g bb)
      (L\<lparr>outst := outst L - {w}, held := (held L)(g := held L g + unat (w_n (wtr bb w)))\<rparr>)"
  proof (rule waiter_gone [OF b w g])
    show "sums_ok (drop_waiter g bb)" using d gg by (intro drop_waiter_sums)
    show "names_ok (drop_waiter g bb)" using d gg by (intro drop_waiter_names)
  qed (simp_all add: drop_waiter_fields d(1) rm n)
  moreover have "queue_ok (drop_waiter g bb)"
    by (rule queue_ok_same [OF q]; (rule nd_same)?) (simp_all add: drop_waiter_fields)
  ultimately show ?thesis by (simp add: fair_inv_def)
qed

section \<open>A waiter arrives\<close>

definition enlist :: "u64 \<Rightarrow> nat \<Rightarrow> ByteBudget \<Rightarrow> ByteBudget" where
  "enlist n g bb =
     (let c = next_chan bb; w = next_wtr bb in
      bb\<lparr>chanClosed := (chanClosed bb)(c := False), next_chan := Suc c, next_wtr := Suc w,
         wtr := (wtr bb)(w := \<lparr>w_n = n, w_credit = 0, w_group = g, w_wake = Some c, w_elem = True, w_granted = False\<rparr>),
         grp := (grp bb)(g := (grp bb g)\<lparr>g_waiters := g_waiters (grp bb g) @ [w],
            g_pending := g_pending (grp bb g) + 1, g_refs := g_refs (grp bb g) + 1\<rparr>)\<rparr>)"

lemma enlist_fields:
  "bb_total (enlist n g bb) = bb_total bb" "bb_used (enlist n g bb) = bb_used bb"
  "bb_escape (enlist n g bb) = bb_escape bb" "bb_fair (enlist n g bb) = bb_fair bb"
  "bb_reserve (enlist n g bb) = bb_reserve bb" "bb_groups (enlist n g bb) = bb_groups bb"
  "bb_active (enlist n g bb) = bb_active bb" "bb_waiting (enlist n g bb) = bb_waiting bb"
  "bb_reserveReady (enlist n g bb) = bb_reserveReady bb" "bb_blocked (enlist n g bb) = bb_blocked bb"
  "next_grp (enlist n g bb) = next_grp bb" "next_wtr (enlist n g bb) = Suc (next_wtr bb)"
  "next_chan (enlist n g bb) = Suc (next_chan bb)"
  "wtr (enlist n g bb) (next_wtr bb) =
     \<lparr>w_n = n, w_credit = 0, w_group = g, w_wake = Some (next_chan bb), w_elem = True, w_granted = False\<rparr>"
  "x \<noteq> next_wtr bb \<Longrightarrow> wtr (enlist n g bb) x = wtr bb x"
  "chanClosed (enlist n g bb) y = (y \<noteq> next_chan bb \<and> chanClosed bb y)"
  "x \<noteq> g \<Longrightarrow> grp (enlist n g bb) x = grp bb x"
  "g_key (grp (enlist n g bb) x) = g_key (grp bb x)" "g_used (grp (enlist n g bb) x) = g_used (grp bb x)"
  "g_escape (grp (enlist n g bb) x) = g_escape (grp bb x)" "g_active (grp (enlist n g bb) x) = g_active (grp bb x)"
  "g_allElem (grp (enlist n g bb) x) = g_allElem (grp bb x)"
  "g_reserveElem (grp (enlist n g bb) x) = g_reserveElem (grp bb x)"
  "g_heapIndex (grp (enlist n g bb) x) = g_heapIndex (grp bb x)"
  "g_refs (grp (enlist n g bb) g) = g_refs (grp bb g) + 1"
  "g_pending (grp (enlist n g bb) g) = g_pending (grp bb g) + 1"
  "g_waiters (grp (enlist n g bb) g) = g_waiters (grp bb g) @ [next_wtr bb]"
  by (simp_all add: enlist_def Let_def)

lemma outst_below:
  assumes "binv bb L" shows "w \<in> outst L \<Longrightarrow> w < next_wtr bb" "card (of_grp bb L g) \<le> next_wtr bb"
proof -
  show lt: "w < next_wtr bb" if "w \<in> outst L" for w using binvD(10) [OF assms that] by (simp add: wtr_ok_def Let_def)
  have "of_grp bb L g \<subseteq> {..<next_wtr bb}" using lt by (auto simp: of_grp_def)
  then show "card (of_grp bb L g) \<le> next_wtr bb" using card_mono [of "{..<next_wtr bb}"] by simp
qed

lemma enlist_grp_ok:
  assumes inv: "binv bb L" and n: "n \<noteq> 0" and small: "regs L g < 2 ^ 62" "next_wtr bb < 2 ^ 62"
  shows "grp_ok (activateLocked g (enlist n g bb)) (L\<lparr>outst := insert (next_wtr bb) (outst L)\<rparr>) g"
proof -
  let ?e = "enlist n g bb" and ?w = "next_wtr bb"
  let ?b = "activateLocked g ?e" and ?L = "L\<lparr>outst := insert (next_wtr bb) (outst L)\<rparr>" and ?S = "of_grp bb L g"
  note d = binvD [OF inv] and old = binvD(8) [OF inv, of g, unfolded grp_ok_def Let_def]
  have new: "?w \<notin> outst L" using outst_below(1) [OF inv] by blast
  have same: "wtr ?e x = wtr bb x" if "x \<in> outst L" for x using that new by (cases "x = ?w") (auto simp: enlist_fields)
  have S: "of_grp ?b ?L g = insert ?w ?S"
    using same by (auto simp: of_grp_def activate_fields enlist_fields)
  have nS: "?w \<notin> ?S" "finite ?S" using new of_grp_finite [OF inv] by (auto simp: of_grp_def)
  have sum: "(\<Sum>x \<in> insert ?w ?S. unat (w_credit (wtr ?e x))) = (\<Sum>x \<in> ?S. unat (w_credit (wtr bb x)))"
  proof -
    have "(\<Sum>x \<in> ?S. unat (w_credit (wtr ?e x))) = (\<Sum>x \<in> ?S. unat (w_credit (wtr bb x)))"
      using same by (intro sum.cong) (auto simp: of_grp_def)
    then show ?thesis using nS by (simp add: enlist_fields)
  qed
  have wt: "set (g_waiters (grp bb g) @ [?w]) = {x \<in> insert ?w ?S. \<not> w_granted (wtr ?e x)}"
    using old same by (auto simp: enlist_fields of_grp_def)
  have "card ?S < 2 ^ 62" using outst_below(2) [OF inv, of g] small(2) by simp
  then have u: "unat (g_pending (grp bb g) + 1) = Suc (card ?S)" "unat (g_refs (grp bb g) + 1) = Suc (regs L g + card ?S)"
    using old small(1) by (auto simp: unat_Suc_exact)
  have tl: "w_credit (wtr ?e x) = 0" if "x \<in> set (tl (g_waiters (grp bb g) @ [?w]))" for x
  proof (cases "x = ?w")
    case False
    then have x: "x \<in> set (tl (g_waiters (grp bb g)))" using that by (cases "g_waiters (grp bb g)") auto
    then have "x \<in> set (g_waiters (grp bb g))" by (metis list.sel(2) list.set_sel(2))
    then have "x \<in> outst L" using grp_waiter(1) [OF inv] by blast
    then show ?thesis using old x same by auto
  qed (simp add: enlist_fields)
  have nw: "?w \<notin> set (g_waiters (grp bb g))" using grp_waiter(1) [OF inv] new by blast
  show ?thesis
    unfolding grp_ok_def Let_def S
    using old wt sum u tl nS nw d(1) by (simp add: activate_simps enlist_fields)
qed

lemma enlist_wtr:
  assumes "binv bb L" and "x \<in> outst L"
  shows "wtr (activateLocked g (enlist n g bb)) x = wtr bb x"
  using outst_below(1) [OF assms] by (cases "x = next_wtr bb") (simp_all add: activate_fields enlist_fields)

lemma enlist_ledger_ok:
  assumes i: "binv bb L" and n: "n \<noteq> 0" and room: "next_wtr bb < 2 ^ 62 - 1" and g: "0 < g" "g < next_grp bb"
  defines "b \<equiv> activateLocked g (enlist n g bb)"
  shows "ledger_ok b (L\<lparr>outst := insert (next_wtr bb) (outst L)\<rparr>)"
proof -
  note d = binvD [OF i] and same = enlist_wtr [OF i, of _ g n, folded b_def]
  let ?w = "next_wtr bb"
  have new: "?w \<notin> outst L" using outst_below(1) [OF i] by blast
  have f: "wtr b ?w = \<lparr>w_n = n, w_credit = 0, w_group = g, w_wake = Some (next_chan bb), w_elem = True, w_granted = False\<rparr>"
    "next_grp b = next_grp bb" "next_wtr b = Suc ?w" "next_chan b = Suc (next_chan bb)"
    "\<And>y. chanClosed b y = (y \<noteq> next_chan bb \<and> chanClosed bb y)"
    by (simp_all add: b_def activate_fields enlist_fields)
  have wk: "\<exists>c < next_chan bb. w_wake (wtr bb x) = Some c" if "x \<in> outst L" for x
    using d(10) [OF that] by (auto simp: wtr_ok_def Let_def)
  have "wtr_ok b x" if "x \<in> outst L" for x
    using d(10) [OF that] same [OF that] wk [OF that] by (auto simp: wtr_ok_def Let_def f)
  moreover have "wtr_ok b ?w" using g n by (simp add: wtr_ok_def f word_neq_0_conv)
  moreover have "inj_on (\<lambda>x. w_wake (wtr b x)) (insert ?w (outst L))"
  proof -
    have "inj_on (\<lambda>x. w_wake (wtr b x)) (outst L)" using d(4) same by (simp add: ledger_ok_def inj_on_def)
    moreover have "w_wake (wtr b ?w) \<notin> (\<lambda>x. w_wake (wtr b x)) ` outst L" using wk same by (fastforce simp: f)
    ultimately show ?thesis using new by simp
  qed
  moreover have "0 < w_group (wtr b x)" if "x \<in> insert ?w (outst L)" for x
    using that d(4) same g by (cases "x = ?w") (auto simp: ledger_ok_def f)
  ultimately show ?thesis using d(4) room by (simp add: ledger_ok_def f)
qed

lemma enlist_names_ok:
  assumes i: "binv bb L" and room: "next_wtr bb < 2 ^ 62" and g: "0 < regs L g"
  shows "names_ok (activateLocked g (enlist n g bb))"
proof -
  note d = binvD [OF i]
  have "regs L g < 2 ^ 62" "card (of_grp bb L g) < 2 ^ 62"
    using d(4) outst_below(2) [OF i, of g] room by (simp_all add: ledger_ok_def)
  moreover have "unat (g_refs (grp bb g)) = regs L g + card (of_grp bb L g)"
    using d(8) [of g] by (simp add: grp_ok_def Let_def)
  ultimately have "g_refs (grp bb g) \<noteq> 0" "g_refs (grp bb g) + 1 \<noteq> 0"
    using g unat_Suc_exact [of "g_refs (grp bb g)"] by (auto simp: unat_eq_0 [symmetric])
  then have "g_refs (grp (activateLocked g (enlist n g bb)) x) \<noteq> 0 \<longleftrightarrow> g_refs (grp bb x) \<noteq> 0" for x
    by (cases "x = g") (simp_all add: activate_gfields enlist_fields)
  then show ?thesis using d(6) by (simp add: names_ok_def activate_simps enlist_fields)
qed

lemma enlist_ok:
  assumes inv: "fair_inv bb L" and n: "n \<noteq> 0" and tot: "bb_total bb \<noteq> 0" and room: "next_wtr bb < 2 ^ 62 - 1"
    and g: "0 < g" "g < next_grp bb" "0 < regs L g"
  defines "b \<equiv> activateLocked g (enlist n g bb)" and "L' \<equiv> L\<lparr>outst := insert (next_wtr bb) (outst L)\<rparr>"
  shows "binv b L'" "queue_except g b"
proof -
  have i: "binv bb L" and q: "queue_ok bb" using inv by (auto simp: fair_inv_def)
  note d = binvD [OF i] and same = enlist_wtr [OF i, of _ g n, folded b_def]
  have small: "regs L g < 2 ^ 62" using d(4) by (simp add: ledger_ok_def)
  show "binv b L'"
  proof (rule binv_update [OF i, where g = g])
    show "config_ok b L'" using d(3) tot by (simp add: config_ok_def b_def L'_def activate_fields enlist_fields)
    have "sums_ok (enlist n g bb)" by (rule sums_ok_cong [OF d(5)]) (simp_all add: enlist_fields)
    then show "sums_ok b" unfolding b_def by (intro activate_sums) (use d g in \<open>simp_all add: enlist_fields\<close>)
    show "names_ok b" unfolding b_def by (rule enlist_names_ok [OF i _ g(3)]) (use d in simp)
    show "cap_ok b" using d(7) by (simp add: cap_ok_def b_def activate_fields enlist_fields)
    show "grp_ok b L' g" unfolding b_def L'_def by (rule enlist_grp_ok [OF i n small]) (use d in simp)
    show "ledger_ok b L'" unfolding b_def L'_def by (rule enlist_ledger_ok [OF i n room g(1,2)])
    show "x \<in> outst L' \<and> wtr b x = wtr bb x" if "x \<in> outst L" for x using that same by (simp add: L'_def)
    show "x \<in> outst L \<and> wtr b x = wtr bb x" if "x \<in> outst L'" "w_group (wtr b x) \<noteq> g" for x
      using that same by (auto simp: L'_def b_def activate_fields enlist_fields)
  qed (simp_all add: b_def L'_def activate_other enlist_fields)
  show "queue_except g b"
  proof (rule queue_except_change [OF q])
    show "nd b x = nd bb x" if "x \<noteq> g" for x
    proof (rule nd_same)
      fix y assume "y \<in> set (g_waiters (grp bb x))"
      then show "wtr b y = wtr bb y" using grp_waiter(1) [OF i] same by blast
    qed (simp_all add: that b_def activate_gfields enlist_fields)
  qed (simp_all add: b_def activate_simps enlist_fields)
qed

section \<open>reserveFor\<close>

lemma unat_free:
  assumes "binv bb L" and "bb_used bb - bb_escape bb \<le> bb_total bb"
  shows "unat (bb_used bb - bb_escape bb) = unat (bb_used bb) - unat (bb_escape bb)"
  using escape_le_used [OF assms] by (simp add: unat_diff_exact u64_order)

lemma fits_free: "fits n g bb \<Longrightarrow> bb_total bb \<noteq> 0 \<Longrightarrow> bb_used bb - bb_escape bb \<le> bb_total bb - n \<and> n \<le> bb_total bb"
  by (auto simp: fits_def Let_def not_less split: if_splits)

text \<open>A request that fits leaves the usage within the cap.\<close>

lemma fits_room:
  assumes inv: "binv bb L" and "fits n g bb" and "bb_total bb \<noteq> 0"
  shows "unat (bb_used bb) + unat n \<le> unat (bb_total bb) + unat (bb_escape bb)"
proof -
  have n: "n \<le> bb_total bb" "bb_used bb - bb_escape bb \<le> bb_total bb - n" using fits_free [OF assms(2,3)] by simp_all
  then have le: "bb_used bb - bb_escape bb \<le> bb_total bb" by (simp add: u64_order unat_diff_exact)
  have "unat (bb_used bb) - unat (bb_escape bb) \<le> unat (bb_total bb) - unat n" "unat n \<le> unat (bb_total bb)"
    using n unat_free [OF inv le] by (simp_all add: u64_order unat_diff_exact)
  then show ?thesis using escape_le_used [OF inv le] by linarith
qed

definition admitted :: "nat \<Rightarrow> u64 \<Rightarrow> bool \<Rightarrow> ledger \<Rightarrow> ledger" where
  "admitted g n esc L = L\<lparr>held := (held L)(g := held L g + unat n),
     hesc := (hesc L)(g := if esc then hesc L g + unat n else hesc L g)\<rparr>"

lemma admitted_outst [simp]: "outst (admitted g n esc L) = outst L" "regs (admitted g n esc L) = regs L"
  by (simp_all add: admitted_def)

lemma admit_ok:
  assumes inv: "fair_inv bb L" and g: "0 < g" "g < next_grp bb"
    and ov: "unat (bb_total bb) + unat (bb_used bb) + unat n < 2 ^ 64" "unat (bb_total bb) + unat (bb_escape bb) + unat n < 2 ^ 64"
    and esc: "\<not> esc \<Longrightarrow> fits n g bb"
  defines "b \<equiv> charge n g esc bb"
  shows "\<exists>b'. (if length (g_waiters (grp b g)) \<noteq> 0 then refreshLocked g b else Some b) = Some b' \<and>
    fair_inv b' (admitted g n esc L) \<and> core b' = core b"
proof -
  have i: "binv bb L" and q: "queue_ok bb" using inv by (auto simp: fair_inv_def)
  have b: "binv b (admitted g n esc L)"
    unfolding b_def admitted_def by (rule charge_ok [OF i g ov]) (use esc fits_room [OF i] in auto)
  have qe: "queue_except g b" unfolding b_def by (rule charge_queue [OF binvD(1) [OF i] q])
  show ?thesis
  proof (cases "g_waiters (grp b g) = []")
    case True
    then have "g \<notin> set (bb_waiting b)"
      using queue_okD(4) [OF q, of g]
      by (simp add: b_def charge_adjust [OF binvD(1) [OF i]] adjust_fields adjust_gfields)
    then have "queue_ok b" by (rule queue_except_idle [OF qe True])
    then show ?thesis using b True by (simp add: fair_inv_def)
  next
    case False
    from refreshLocked_ok [OF qe] obtain b' where "refreshLocked g b = Some b'" "queue_ok b'" "core b' = core b"
      by (auto simp: placed_def)
    then show ?thesis using False binv_core [of b' b] b by (auto simp: fair_inv_def)
  qed
qed

text \<open>
  The contract of \<open>reserveFor\<close>: a registered group, a non-zero size that does not
  overflow the counters, and a waiter that was handed out for this very request.
\<close>

definition reserve_pre :: "u64 \<Rightarrow> nat \<Rightarrow> nat option \<Rightarrow> ByteBudget \<Rightarrow> ledger \<Rightarrow> bool" where
  "reserve_pre n g w bb L \<longleftrightarrow>
     0 < g \<and> g < next_grp bb \<and> 0 < regs L g \<and> n \<noteq> 0 \<and>
     uint (bb_total bb) + uint (bb_used bb) + uint n < 2 ^ 64 \<and> uint (bb_total bb) + uint (bb_escape bb) + uint n < 2 ^ 64 \<and>
     int (next_wtr bb) < 2 ^ 62 - 1 \<and>
     (case w of None \<Rightarrow> True | Some x \<Rightarrow> x \<in> outst L \<and> w_group (wtr bb x) = g \<and> w_n (wtr bb x) = n)"

text \<open>What the caller owns afterwards.\<close>

definition reserve_ledger :: "u64 \<Rightarrow> nat \<Rightarrow> nat option \<Rightarrow> bool \<Rightarrow> bool \<Rightarrow> nat option \<Rightarrow> ledger \<Rightarrow> ledger" where
  "reserve_ledger n g w ok over w' L =
     (if ok then admitted g n over (L\<lparr>outst := outst L - set_option w\<rparr>)
      else L\<lparr>outst := outst L \<union> set_option w'\<rparr>)"

text \<open>What every operation leaves to the other callers of the budget.\<close>

definition others_kept :: "nat set \<Rightarrow> ByteBudget \<Rightarrow> ByteBudget \<Rightarrow> bool" where
  "others_kept S bb bb' \<longleftrightarrow>
     bb_fair bb' = bb_fair bb \<and> bb_total bb' = bb_total bb \<and> next_grp bb \<le> next_grp bb' \<and> next_wtr bb \<le> next_wtr bb' \<and>
     (\<forall>x \<in> S. w_n (wtr bb' x) = w_n (wtr bb x) \<and> w_group (wtr bb' x) = w_group (wtr bb x))"

lemma others_kept_trans:
  "others_kept S a b \<Longrightarrow> others_kept S b c \<Longrightarrow> others_kept S a c"
  by (simp add: others_kept_def)

lemma others_kept_core: "core b' = core b \<Longrightarrow> others_kept S b b'"
  by (simp add: others_kept_def core_eq [of b' b])

lemma others_kept_evolves: "evolves L a b \<Longrightarrow> others_kept S a b"
  by (simp add: others_kept_def evolves_def)

lemma others_kept_charge: "bb_fair bb \<Longrightarrow> others_kept S bb (charge n g esc bb)"
  by (simp add: others_kept_def charge_adjust adjust_fields)

section \<open>At rest the budget is saturated\<close>

text \<open>
  Between operations a request is parked only when no byte may be handed out: a charge
  can only make the waiting groups less eligible.
\<close>

definition settled :: "ByteBudget \<Rightarrow> ledger \<Rightarrow> bool" where
  "settled bb L \<longleftrightarrow> fair_inv bb L \<and> saturated bb"

lemma share_antimono:
  assumes "bb_total b = bb_total bb" "bb_minGroup b = bb_minGroup bb" "bb_active bb \<le> bb_active b"
    and "g_active (grp bb x)" "g_active (grp b x)"
  shows "share x b \<le> share x bb"
proof -
  define m where "m bb = (if bb_active bb < 2 then 2 else bb_active bb)" for bb :: ByteBudget
  have "m bb \<le> m b" "m bb \<noteq> 0" using assms(3) by (auto simp: m_def)
  then have "unat (bb_total bb) div unat (m b) \<le> unat (bb_total bb) div unat (m bb)"
    by (intro div_le_mono2) (auto simp: u64_order u64_neq_0 [symmetric])
  then have "bb_total bb div m b \<le> bb_total bb div m bb" by (simp add: u64_order unat_div)
  then show ?thesis
    using assms by (auto simp: share_def Let_def m_def split: if_splits)
qed

lemma nd_mono:
  assumes "g_used (grp bb x) \<le> g_used (grp b x)" "g_waiters (grp b x) = g_waiters (grp bb x)" "wtr b = wtr bb"
  shows "nd bb x \<le> nd b x"
proof (cases "g_waiters (grp bb x)")
  case (Cons w ws)
  define rest where "rest = w_n (wtr bb w) - w_credit (wtr bb w)"
  have nd: "nd c x = (if rest > MaxUint64 - g_used (grp c x) then MaxUint64 else g_used (grp c x) + rest)"
    if "g_waiters (grp c x) = w # ws" "wtr c = wtr bb" for c
    using that by (simp add: nd_def groupNeed_def Let_def rest_def)
  have u: "unat (MaxUint64 - y) = 2 ^ 64 - 1 - unat y" for y :: u64
    by (simp add: unat_diff_exact unat_MaxUint64)
  have "unat (y + rest) = unat y + unat rest" if "\<not> rest > MaxUint64 - y" for y :: u64
    using that unat_less_2_64 [of y] by (intro unat_add_exact) (simp add: u64_order u del: unat_less_2_64)
  then show ?thesis
    using assms Cons by (auto simp: nd u64_order u unat_MaxUint64)
qed (use assms in \<open>simp add: nd_def groupNeed_def\<close>)

lemma charge_saturated:
  assumes inv: "fair_inv bb L" and sat: "saturated bb" and g: "g < next_grp bb"
    and ov: "unat (bb_total bb) + unat (bb_used bb) + unat n < 2 ^ 64" "unat (bb_total bb) + unat (bb_escape bb) + unat n < 2 ^ 64"
    and esc: "\<not> esc \<Longrightarrow> fits n g bb" and b: "binv (charge n g esc bb) L'"
    and c: "core b' = core (charge n g esc bb)" and q: "queue_ok b'"
  shows "saturated b'"
proof -
  have i: "binv bb L" and q0: "queue_ok bb" using inv by (auto simp: fair_inv_def)
  note d = binvD [OF i] and ad = charge_adjust [OF d(1), of n g esc]
  let ?b = "charge n g esc bb"
  have f: "bb_total ?b = bb_total bb" "bb_reserve ?b = bb_reserve bb" "bb_minGroup ?b = bb_minGroup bb" "wtr ?b = wtr bb"
    "\<And>x. g_waiters (grp ?b x) = g_waiters (grp bb x)" by (simp_all add: ad adjust_fields adjust_gfields)
  have wt: "set (bb_waiting b') = set (bb_waiting bb)"
    using queue_okD(4) [OF q] queue_okD(4) [OF q0] core_eq(21) [OF c] f(5) by auto
  have x: "unat (g_used (grp bb g) + n) = unat (g_used (grp bb g)) + unat n" "unat (bb_used bb + n) = unat (bb_used bb) + unat n"
    "unat (bb_escape bb + n) = unat (bb_escape bb) + unat n"
    using ov used_le_total [OF i g] by (auto intro!: unat_add_exact)
  have used: "bb_used bb - bb_escape bb \<le> bb_used ?b - bb_escape ?b" if "bb_total bb \<noteq> 0"
  proof (cases esc)
    case False
    note fr = fits_free [OF esc [OF False] that]
    have "bb_used ?b - bb_escape ?b = bb_used bb - bb_escape bb + n" unfolding ad using False by (simp add: adjust_fields)
    moreover have "unat (bb_used bb - bb_escape bb + n) = unat (bb_used bb - bb_escape bb) + unat n"
    proof (rule unat_add_exact)
      have "unat (bb_used bb - bb_escape bb) \<le> unat (bb_total bb) - unat n" "unat n \<le> unat (bb_total bb)"
        using fr unat_diff_exact [of n "bb_total bb"] by (simp_all add: u64_order)
      then show "unat (bb_used bb - bb_escape bb) + unat n < 2 ^ 64" using unat_less_2_64 [of "bb_total bb"] by (simp del: unat_less_2_64)
    qed
    ultimately show ?thesis by (simp add: u64_order)
  next
    case True
    then show ?thesis unfolding ad by (simp add: adjust_fields)
  qed
  have act: "g_active (grp bb y) \<Longrightarrow> g_active (grp ?b y)" for y
    using d(8) [of y] d(1) x by (cases "y = g") (auto simp: grp_ok_def Let_def ad adjust_active u64_neq_0)
  have "unat (bb_active bb) \<le> unat (bb_active ?b)"
  proof -
    have "(\<Sum>y < next_grp bb. of_bool (g_active (grp bb y)) :: nat) \<le> (\<Sum>y < next_grp bb. of_bool (g_active (grp ?b y)))"
      using act by (intro sum_mono) auto
    then show ?thesis using d(5) binvD(5) [OF b] by (simp add: sums_ok_def ad adjust_fields)
  qed
  then have ba: "bb_active bb \<le> bb_active ?b" by (simp add: u64_order)
  have el: "\<not> eligible b' y" if y: "y \<in> set (bb_waiting bb)" and ne: "\<not> eligible bb y" for y
  proof -
    have "g_waiters (grp bb y) \<noteq> []" using queue_okD(4) [OF q0] y by simp
    then have a: "g_active (grp bb y)" using waiting_active_inv [OF i] by (simp add: waiting_active_def)
    have "share y ?b \<le> share y bb" by (rule share_antimono [OF f(1,3) ba a act [OF a]])
    moreover have "nd bb y \<le> nd ?b y"
      by (rule nd_mono [OF _ f(5) f(4)]) (use x in \<open>auto simp: ad adjust_gfields u64_order\<close>)
    ultimately have "\<not> eligible ?b y" using ne by (auto simp: eligible_def)
    then show ?thesis using eligible_core [OF c] by simp
  qed
  show ?thesis
    using sat used wt el core_eq [OF c] f(1,2) unfolding saturated_def by (cases "bb_total bb = 0") (auto intro: order_trans)
qed

lemma drop_waiter_saturated:
  assumes "fair_inv bb L" "w \<in> outst L" "w_granted (wtr bb w)" "g = w_group (wtr bb w)" "saturated bb"
  shows "saturated (drop_waiter g bb)"
proof -
  have i: "binv bb L" using assms(1) by (simp add: fair_inv_def)
  note d = binvD [OF i]
  have wS: "w \<in> of_grp bb L g" using assms by (simp add: of_grp_def)
  have "unat (w_credit (wtr bb w)) \<le> (\<Sum>x \<in> of_grp bb L g. unat (w_credit (wtr bb x)))"
    by (rule member_le_sum [OF wS]) (simp_all add: of_grp_finite [OF i])
  moreover have "w_credit (wtr bb w) = w_n (wtr bb w)" "0 < w_n (wtr bb w)"
    using d(10) [OF assms(2)] assms(3) by (auto simp: wtr_ok_def Let_def)
  ultimately have u: "g_used (grp bb g) \<noteq> 0" using d(8) [of g] by (auto simp: grp_ok_def Let_def u64_order)
  then have ga: "g_active (grp bb g)" using d(8) [of g] by (simp add: grp_ok_def Let_def)
  have "bb_active (drop_waiter g bb) = bb_active bb"
    using u ga d(1) by (simp add: drop_waiter_def unregisterLocked_def activateLocked_def Let_def set_grp_def)
  moreover have "g_active (grp (drop_waiter g bb) x) = g_active (grp bb x)" for x
    using u ga d(1) by (cases "x = g") (simp_all add: drop_waiter_fields)
  ultimately have "share x (drop_waiter g bb) = share x bb" for x
    by (simp add: share_def Let_def drop_waiter_fields)
  moreover have "nd (drop_waiter g bb) x = nd bb x" for x by (rule nd_same) (simp_all add: drop_waiter_fields)
  ultimately show ?thesis using assms(5) by (simp add: saturated_def eligible_def drop_waiter_fields)
qed

section \<open>The operations\<close>

lemma reserve_none:
  assumes "bb_fair bb"
  shows "reserve_fair n force g None bb =
    (if (fits n g bb \<and> g_waiters (grp bb g) = []) \<or> force then do {
       let esc = (\<not> fits n g bb \<or> g_waiters (grp bb g) \<noteq> []);
       let b = charge n g esc bb;
       b' \<leftarrow> (if length (g_waiters (grp b g)) \<noteq> 0 then refreshLocked g b else Some b);
       Some (True, esc, bb_used b', None, b')
     } else do {
       b \<leftarrow> refreshLocked g (activateLocked g (enlist n g bb));
       b' \<leftarrow> scheduleLocked b;
       Some (False, False, bb_used b', Some (next_wtr bb), b')
     })"
proof -
  have e: "set_grp g (\<lambda>G. G\<lparr>g_waiters := g_waiters G @ [next_wtr bb], g_pending := g_pending G + 1, g_refs := g_refs G + 1\<rparr>)
      (bb\<lparr>chanClosed := (chanClosed bb)(next_chan bb := False), next_chan := Suc (next_chan bb),
          next_wtr := Suc (next_wtr bb), wtr := (wtr bb)(next_wtr bb :=
            \<lparr>w_n = n, w_credit = 0, w_group = g, w_wake = Some (next_chan bb), w_elem = True, w_granted = False\<rparr>)\<rparr>)
      = enlist n g bb"
    by (simp add: enlist_def Let_def set_grp_def)
  show ?thesis
    using assms by (auto simp: reserve_fair_def Let_def make_chan_def e)
qed

definition reserve_post :: "u64 \<Rightarrow> bool \<Rightarrow> nat \<Rightarrow> nat option \<Rightarrow> ByteBudget \<Rightarrow> ledger \<Rightarrow> reserve_result \<Rightarrow> bool" where
  "reserve_post n force g w bb L r \<longleftrightarrow>
     (case r of (ok, over, used, w', b) \<Rightarrow>
        used = bb_used b \<and> settled b (reserve_ledger n g w ok over w' L) \<and>
        others_kept (outst L - set_option w) bb b \<and> next_wtr b \<le> Suc (next_wtr bb) \<and> (force \<longrightarrow> ok) \<and>
        (if ok then w' = None
         else \<not> over \<and> (\<exists>x. w' = Some x \<and> w_group (wtr b x) = g \<and> w_n (wtr b x) = n \<and>
           (if w = None then x \<notin> outst L else w' = w))))"

lemma reserve_preD:
  assumes "reserve_pre n g w bb L"
  shows "0 < g" "g < next_grp bb" "0 < regs L g" "n \<noteq> 0" "next_wtr bb < 2 ^ 62 - 1"
    "unat (bb_total bb) + unat (bb_used bb) + unat n < 2 ^ 64"
    "w = Some x \<Longrightarrow> x \<in> outst L" "w = Some x \<Longrightarrow> w_group (wtr bb x) = g" "w = Some x \<Longrightarrow> w_n (wtr bb x) = n"
    "unat (bb_total bb) + unat (bb_escape bb) + unat n < 2 ^ 64"
  using assms uint_sum_bound by (auto simp: reserve_pre_def)

lemma reserve_now_ok:
  assumes st: "settled bb L" and pre: "reserve_pre n g None bb L"
    and now: "(fits n g bb \<and> g_waiters (grp bb g) = []) \<or> force"
  shows "\<exists>r. reserve_fair n force g None bb = Some r \<and> reserve_post n force g None bb L r"
proof -
  have inv: "fair_inv bb L" and sat: "saturated bb" using st by (auto simp: settled_def)
  have i: "binv bb L" using inv by (simp add: fair_inv_def)
  note d = binvD [OF i] and none = reserve_none [OF d(1), of n force g] and p = reserve_preD [OF pre]
  define esc where "esc = (\<not> fits n g bb \<or> g_waiters (grp bb g) \<noteq> [])"
  define b where "b = charge n g esc bb"
  have "\<exists>b'. (if length (g_waiters (grp b g)) \<noteq> 0 then refreshLocked g b else Some b) = Some b' \<and>
      fair_inv b' (admitted g n esc L) \<and> core b' = core b"
    unfolding b_def by (rule admit_ok [OF inv p(1,2,6,10)]) (simp add: esc_def)
  then obtain b' where b': "(if length (g_waiters (grp b g)) \<noteq> 0 then refreshLocked g b else Some b) = Some b'"
      "fair_inv b' (admitted g n esc L)" "core b' = core b"
    by (elim exE conjE) (rule that)
  have bi: "binv b (admitted g n esc L)"
    using binv_core [OF b'(3) [symmetric]] b'(2) by (simp add: fair_inv_def)
  have "saturated b'"
    using charge_saturated [OF inv sat p(2,6,10) _ bi [unfolded b_def] b'(3) [unfolded b_def]] b'(2)
    by (simp add: fair_inv_def esc_def)
  moreover have "others_kept (outst L) bb b'"
    using others_kept_trans [OF others_kept_charge [OF d(1)] others_kept_core [OF b'(3) [unfolded b_def]]] .
  moreover have "next_wtr b' = next_wtr bb"
    using core_eq(13) [OF b'(3)] by (simp add: b_def charge_adjust [OF d(1)] adjust_fields)
  ultimately have "reserve_post n force g None bb L (True, esc, bb_used b', None, b')"
    using b'(2) by (simp add: reserve_post_def settled_def reserve_ledger_def)
  moreover have "reserve_fair n force g None bb = Some (True, esc, bb_used b', None, b')"
    using now b'(1) unfolding none Let_def esc_def [symmetric] b_def [symmetric] by simp
  ultimately show ?thesis by blast
qed

lemma reserve_wait_ok:
  assumes st: "settled bb L" and pre: "reserve_pre n g None bb L"
    and wait: "\<not> (fits n g bb \<and> g_waiters (grp bb g) = [])" "\<not> force"
  shows "\<exists>r. reserve_fair n force g None bb = Some r \<and> reserve_post n force g None bb L r"
proof -
  have inv: "fair_inv bb L" using st by (auto simp: settled_def)
  have i: "binv bb L" using inv by (simp add: fair_inv_def)
  note none = reserve_none [OF binvD(1) [OF i], of n force g] and p = reserve_preD [OF pre]
  have tot: "bb_total bb \<noteq> 0"
  proof
    assume t: "bb_total bb = 0"
    then have "fits n g bb" by (simp add: fits_def)
    then obtain w ws where "g_waiters (grp bb g) = w # ws"
      using wait(1) by (cases "g_waiters (grp bb g)") auto
    then show False using front_waiter(8) [OF i] t by blast
  qed
  let ?L = "L\<lparr>outst := insert (next_wtr bb) (outst L)\<rparr>"
  define e where "e = activateLocked g (enlist n g bb)"
  note en = enlist_ok [OF inv p(4) tot p(5,1,2,3), folded e_def]
  obtain b where b: "refreshLocked g e = Some b" "queue_ok b" "core b = core e"
    using refreshLocked_ok [OF en(2)] by (auto simp: placed_def)
  have "fair_inv b ?L" using binv_core [OF b(3) en(1)] b(2) by (simp add: fair_inv_def)
  then obtain b' where b': "scheduleLocked b = Some b'" "fair_inv b' ?L" "evolves ?L b b'" "saturated b'"
    using scheduleLocked_ok by blast
  have ev: "w_n (wtr b' x) = w_n (wtr e x)" "w_group (wtr b' x) = w_group (wtr e x)" "next_wtr b' = next_wtr e"
    "next_grp b' = next_grp e" "bb_total b' = bb_total e" "bb_fair b' = bb_fair e" for x
    using b'(3) core_eq [OF b(3)] by (simp_all add: evolves_def)
  have "others_kept (outst L) bb b'"
    using ev enlist_wtr [OF i, of _ g n, folded e_def]
    by (simp add: others_kept_def e_def activate_fields enlist_fields)
  then have "reserve_post n force g None bb L (False, False, bb_used b', Some (next_wtr bb), b')"
    using b'(2,4) ev wait(2) outst_below(1) [OF i, of "next_wtr bb"]
    by (auto simp: reserve_post_def settled_def reserve_ledger_def e_def activate_fields enlist_fields)
  moreover have "reserve_fair n force g None bb = Some (False, False, bb_used b', Some (next_wtr bb), b')"
    using wait b(1) b'(1) unfolding none e_def [symmetric] by auto
  ultimately show ?thesis by blast
qed

text \<open>A forced request gives up its waiter first and lets the others have its credit.\<close>

lemma reserve_forced_ok:
  assumes st: "settled bb L" and pre: "reserve_pre n g (Some w) bb L" and ng: "\<not> w_granted (wtr bb w)"
  shows "\<exists>r. reserve_fair n True g (Some w) bb = Some r \<and> reserve_post n True g (Some w) bb L r"
proof -
  have inv: "fair_inv bb L" using st by (auto simp: settled_def)
  note p = reserve_preD [OF pre]
  let ?L = "L\<lparr>outst := outst L - {w}\<rparr>"
  obtain b1 where b1: "removeWaiterLocked w bb = Some b1" "fair_inv b1 ?L" "bb_total b1 = bb_total bb"
      "next_grp b1 = next_grp bb" "unat (bb_used b1) \<le> unat (bb_used bb)" "next_wtr b1 = next_wtr bb"
      "\<And>x. x \<noteq> w \<Longrightarrow> wtr b1 x = wtr bb x" "bb_escape b1 = bb_escape bb"
    using removeWaiterLocked_ok [OF inv p(7) [OF refl]] by blast
  have i1: "binv b1 ?L" using b1(2) by (simp add: fair_inv_def)
  have fair: "bb_fair b1" "bb_fair bb" using binvD(1) [OF i1] inv binvD(1) [of bb L] by (auto simp: fair_inv_def)
  have ov: "unat (bb_total b1) + unat (bb_used b1) + unat n < 2 ^ 64" "unat (bb_total b1) + unat (bb_escape b1) + unat n < 2 ^ 64"
    using p(6,10) b1(3,5,8) by simp_all
  have gg: "g < next_grp b1" using p(2) b1(4) by simp
  define esc where "esc = (\<not> fits n g b1 \<or> g_waiters (grp b1 g) \<noteq> [])"
  define b where "b = charge n g esc b1"
  have "\<exists>b'. (if length (g_waiters (grp b g)) \<noteq> 0 then refreshLocked g b else Some b) = Some b' \<and>
      fair_inv b' (admitted g n esc ?L) \<and> core b' = core b"
    unfolding b_def by (rule admit_ok [OF b1(2) p(1) gg ov]) (simp add: esc_def)
  then obtain b2 where b2: "(if length (g_waiters (grp b g)) \<noteq> 0 then refreshLocked g b else Some b) = Some b2"
      "fair_inv b2 (admitted g n esc ?L)" "core b2 = core b"
    by (elim exE conjE) (rule that)
  obtain b3 where b3: "scheduleLocked b2 = Some b3" "fair_inv b3 (admitted g n esc ?L)"
      "evolves (admitted g n esc ?L) b2 b3" "saturated b3"
    using scheduleLocked_ok [OF b2(2)] by blast
  have o1: "others_kept (outst L - {w}) bb b1" using b1 fair by (simp add: others_kept_def)
  have o2: "others_kept (outst L - {w}) b1 b3"
    using others_kept_trans [OF others_kept_trans [OF others_kept_charge [OF fair(1)]
      others_kept_core [OF b2(3) [unfolded b_def]]] others_kept_evolves [OF b3(3)]] .
  have "next_wtr b3 = next_wtr bb"
    using b3(3) core_eq(13) [OF b2(3)] b1(6) by (simp add: evolves_def b_def charge_adjust [OF fair(1)] adjust_fields)
  then have "reserve_post n True g (Some w) bb L (True, esc, bb_used b3, None, b3)"
    using b3(2,4) others_kept_trans [OF o1 o2] by (simp add: reserve_post_def settled_def reserve_ledger_def)
  moreover have "reserve_fair n True g (Some w) bb = Some (True, esc, bb_used b3, None, b3)"
  proof -
    have "(fits n g b1 \<longrightarrow> g_waiters (grp b1 g) \<noteq> []) = esc" by (auto simp: esc_def)
    then show ?thesis using ng b1(1) b2(1) b3(1) fair(1) by (auto simp: reserve_fair_def Let_def b_def [symmetric] split: if_splits)
  qed
  ultimately show ?thesis by blast
qed

lemma reserve_fair_ok:
  assumes st: "settled bb L" and pre: "reserve_pre n g w bb L"
  shows "\<exists>r. reserve_fair n force g w bb = Some r \<and> reserve_post n force g w bb L r"
proof (cases w)
  case None
  then show ?thesis using st pre reserve_now_ok reserve_wait_ok by blast
next
  case (Some x)
  have inv: "fair_inv bb L" and sat: "saturated bb" using st by (auto simp: settled_def)
  note p = reserve_preD [OF pre]
  consider "w_granted (wtr bb x)" | "\<not> w_granted (wtr bb x)" force | "\<not> w_granted (wtr bb x)" "\<not> force" by blast
  then show ?thesis
  proof cases
    case 1
    let ?b = "drop_waiter g bb"
    have "fair_inv ?b (L\<lparr>outst := outst L - {x}, held := (held L)(g := held L g + unat n)\<rparr>)"
      using collect_ok [OF inv p(7) [OF Some] 1] p(8,9) [OF Some] by simp
    moreover have "saturated ?b"
      using drop_waiter_saturated [OF inv p(7) [OF Some] 1] p(8) [OF Some] sat by simp
    moreover have "others_kept S bb ?b" for S by (simp add: others_kept_def drop_waiter_fields)
    ultimately have "reserve_post n force g w bb L (True, False, bb_used ?b, None, ?b)"
      using Some by (simp add: reserve_post_def settled_def reserve_ledger_def admitted_def drop_waiter_fields)
    moreover have "reserve_fair n force g w bb = Some (True, False, bb_used ?b, None, ?b)"
      using Some 1 by (simp add: reserve_fair_def Let_def drop_waiter_def)
    ultimately show ?thesis by blast
  next
    case 2
    then show ?thesis using reserve_forced_ok [OF st pre [unfolded Some]] Some by simp
  next
    case 3
    have "reserve_post n force g w bb L (False, False, bb_used bb, w, bb)"
      using 3 st Some p(7-9) [OF Some]
      by (simp add: reserve_post_def reserve_ledger_def others_kept_def insert_absorb)
    then show ?thesis using 3 Some by (simp add: reserve_fair_def)
  qed
qed

lemma cancel_fair_ok:
  assumes st: "settled bb L" and w: "w \<in> outst L"
  shows "\<exists>b. cancel (Some w) (Some bb) = Some (Some b) \<and> settled b (L\<lparr>outst := outst L - {w}\<rparr>) \<and>
    others_kept (outst L - {w}) bb b \<and> next_wtr b = next_wtr bb \<and> next_grp b = next_grp bb"
proof -
  have inv: "fair_inv bb L" using st by (auto simp: settled_def)
  have fair: "bb_fair bb" using inv binvD(1) by (auto simp: fair_inv_def)
  let ?L = "L\<lparr>outst := outst L - {w}\<rparr>"
  obtain b1 where b1: "removeWaiterLocked w bb = Some b1" "fair_inv b1 ?L" "bb_total b1 = bb_total bb"
      "next_grp b1 = next_grp bb" "next_wtr b1 = next_wtr bb" "\<And>x. x \<noteq> w \<Longrightarrow> wtr b1 x = wtr bb x"
    using removeWaiterLocked_ok [OF inv w] by blast
  have f1: "bb_fair b1" using b1(2) binvD(1) by (auto simp: fair_inv_def)
  obtain b2 where b2: "scheduleLocked b1 = Some b2" "fair_inv b2 ?L" "evolves ?L b1 b2" "saturated b2"
    using scheduleLocked_ok [OF b1(2)] by blast
  have "others_kept (outst L - {w}) bb b1" using b1 fair f1 by (simp add: others_kept_def)
  then have "others_kept (outst L - {w}) bb b2" using others_kept_trans others_kept_evolves [OF b2(3)] by blast
  then show ?thesis
    using fair b1 b2 by (auto simp: cancel_def settled_def evolves_def)
qed

definition released :: "nat \<Rightarrow> u64 \<Rightarrow> u64 \<Rightarrow> ledger \<Rightarrow> ledger" where
  "released g n e L = L\<lparr>held := (held L)(g := held L g - unat n), hesc := (hesc L)(g := hesc L g - unat e)\<rparr>"

definition release_pre :: "u64 \<Rightarrow> u64 \<Rightarrow> nat \<Rightarrow> ByteBudget \<Rightarrow> ledger \<Rightarrow> bool" where
  "release_pre n e g bb L \<longleftrightarrow> 0 < g \<and> g < next_grp bb \<and> unat n \<le> held L g \<and> unat e \<le> unat n \<and> unat e \<le> hesc L g"

lemma release_refresh_ok:
  assumes inv: "fair_inv bb L" and pre: "release_pre n e g bb L"
  defines "b \<equiv> releaseLocked n e g bb"
  shows "\<exists>b1. (if g_waiters (grp b g) \<noteq> [] then refreshLocked g b else Some b) = Some b1 \<and> fair_inv b1 (released g n e L) \<and> core b1 = core b"
proof -
  have i: "binv bb L" and q: "queue_ok bb" using inv by (auto simp: fair_inv_def)
  have g: "0 < g" "g < next_grp bb" and n: "unat n \<le> held L g" "unat e \<le> unat n" "unat e \<le> hesc L g"
    using pre by (auto simp: release_pre_def)
  note r = releaseLocked_ok [OF i g n, folded b_def released_def]
  have f: "bb_waiting b = bb_waiting bb" "\<And>x. g_waiters (grp b x) = g_waiters (grp bb x)"
    using binvD(1) [OF i] by (simp_all add: b_def releaseLocked_def Let_def activate_simps set_grp_def)
  obtain b1 where b1: "(if g_waiters (grp b g) \<noteq> [] then refreshLocked g b else Some b) = Some b1"
      "queue_ok b1" "core b1 = core b"
  proof (cases "g_waiters (grp b g) = []")
    case True
    then have "g \<notin> set (bb_waiting b)" using queue_okD(4) [OF q, of g] f by simp
    then have "queue_ok b" using queue_except_idle [OF r(2) [OF q] True] by blast
    then show ?thesis using that [of b] True by simp
  next
    case False
    then show ?thesis using that refreshLocked_ok [OF r(2) [OF q]] by (auto simp: placed_def)
  qed
  then show ?thesis using binv_core [OF b1(3) r(1)] by (auto simp: fair_inv_def)
qed

lemma releaseFor_fair_ok:
  assumes st: "settled bb L" and pre: "release_pre n e g bb L"
  shows "\<exists>b. releaseFor n e (Some g) (Some bb) = Some (Some b) \<and> settled b (released g n e L) \<and>
    others_kept (outst L) bb b \<and> next_wtr b = next_wtr bb \<and> next_grp b = next_grp bb"
proof (cases "n = 0")
  case True
  then have "e = 0" using pre by (simp add: release_pre_def unat_eq_0)
  then show ?thesis using True st by (simp add: releaseFor_def released_def others_kept_def)
next
  case False
  have inv: "fair_inv bb L" using st by (auto simp: settled_def)
  have d: "bb_fair bb" using inv binvD(1) by (auto simp: fair_inv_def)
  define b where "b = releaseLocked n e g bb"
  have f: "bb_fair b" "bb_total b = bb_total bb" "wtr b = wtr bb" "next_wtr b = next_wtr bb" "next_grp b = next_grp bb"
    using d by (simp_all add: b_def releaseLocked_def Let_def activate_simps set_grp_def)
  obtain b1 where b1: "(if g_waiters (grp b g) \<noteq> [] then refreshLocked g b else Some b) = Some b1"
      "fair_inv b1 (released g n e L)" "core b1 = core b"
    using release_refresh_ok [OF inv pre] unfolding b_def by blast
  obtain b2 where b2: "scheduleLocked b1 = Some b2" "fair_inv b2 (released g n e L)"
      "evolves (released g n e L) b1 b2" "saturated b2"
    using scheduleLocked_ok [OF b1(2)] by blast
  have "others_kept (outst L) bb b" using f d by (simp add: others_kept_def)
  then have "others_kept (outst L) bb b2"
    using others_kept_trans others_kept_core [OF b1(3)] others_kept_evolves [OF b2(3)] by blast
  moreover have "releaseFor n e (Some g) (Some bb) = Some (Some b2)"
    using False f(1) b1(1) b2(1)
    by (auto simp: releaseFor_def Let_def group_def b_def [symmetric] split: if_splits)
  ultimately show ?thesis
    using b2 f core_eq [OF b1(3)] by (auto simp: settled_def evolves_def)
qed

end
