(* ===== verification/BudgetSystem.thy ===== *)
theory BudgetSystem
  imports BudgetOps
begin

text \<open>
  The fair budget as a system of concurrent callers: registration, and any interleaving
  of the operations of the callers, each atomic under \<open>bb.mu\<close>, against the ledger of what
  the callers own. The one-step contract is proved for every operation; the locale
  \<open>contract_system\<close> lifts it to runs.
\<close>

section \<open>Registration\<close>

lemma register_known:
  assumes st: "settled bb L" and key: "bb_groups bb key = Some g" and small: "regs L g < 2 ^ 62 - 1"
  defines "b \<equiv> set_grp g (\<lambda>G. G\<lparr>g_refs := g_refs G + 1\<rparr>) bb"
  shows "settled b (L\<lparr>regs := (regs L)(g := Suc (regs L g))\<rparr>)" (is "settled b ?L")
proof -
  have i: "binv bb L" and q: "queue_ok bb" and sat: "saturated bb" using st by (auto simp: settled_def fair_inv_def)
  note d = binvD [OF i]
  have g: "0 < g" "g < next_grp bb" "g_refs (grp bb g) \<noteq> 0" using d(6) key by (auto simp: names_ok_def)
  have f: "bb_total b = bb_total bb" "bb_used b = bb_used bb" "bb_escape b = bb_escape bb" "bb_fair b = bb_fair bb"
    "bb_reserve b = bb_reserve bb" "bb_minGroup b = bb_minGroup bb" "bb_groups b = bb_groups bb"
    "bb_active b = bb_active bb" "bb_waiting b = bb_waiting bb" "bb_reserveReady b = bb_reserveReady bb"
    "bb_blocked b = bb_blocked bb" "wtr b = wtr bb" "chanClosed b = chanClosed bb" "next_grp b = next_grp bb"
    "next_wtr b = next_wtr bb" "next_chan b = next_chan bb" "\<And>x. x \<noteq> g \<Longrightarrow> grp b x = grp bb x"
    "\<And>x. g_key (grp b x) = g_key (grp bb x)" "\<And>x. g_used (grp b x) = g_used (grp bb x)"
    "\<And>x. g_escape (grp b x) = g_escape (grp bb x)" "\<And>x. g_pending (grp b x) = g_pending (grp bb x)"
    "\<And>x. g_active (grp b x) = g_active (grp bb x)" "\<And>x. g_waiters (grp b x) = g_waiters (grp bb x)"
    "\<And>x. g_allElem (grp b x) = g_allElem (grp bb x)" "\<And>x. g_reserveElem (grp b x) = g_reserveElem (grp bb x)"
    "\<And>x. g_heapIndex (grp b x) = g_heapIndex (grp bb x)" "g_refs (grp b g) = g_refs (grp bb g) + 1"
    by (simp_all add: b_def set_grp_def)
  have "card (of_grp bb L g) < 2 ^ 62" using outst_below(2) [OF i, of g] d(12) by simp
  then have refs: "unat (g_refs (grp bb g) + 1) = Suc (regs L g) + card (of_grp bb L g)"
    using d(8) [of g] small by (simp add: grp_ok_def Let_def unat_Suc_exact)
  have nz: "g_refs (grp b x) \<noteq> 0 \<longleftrightarrow> g_refs (grp bb x) \<noteq> 0" for x
    using g(3) refs by (cases "x = g") (auto simp: f u64_neq_0)
  have "binv b ?L"
  proof (rule binv_update [OF i, where g = g])
    show "config_ok b ?L" using d(3) by (simp add: config_ok_def f)
    show "ledger_ok b ?L" using d(4) g small by (auto simp: ledger_ok_def wtr_ok_def f)
    show "sums_ok b" by (rule sums_ok_cong [OF d(5)]) (simp_all add: f)
    show "names_ok b" using d(6) nz by (simp add: names_ok_def f)
    show "cap_ok b" using d(7) by (simp add: cap_ok_def f)
    have "of_grp b ?L g = of_grp bb L g" by (simp add: of_grp_def f)
    then show "grp_ok b ?L g" using d(8) [of g] refs by (simp add: grp_ok_def Let_def f)
  qed (simp_all add: f)
  moreover have nd: "nd b x = nd bb x" for x by (rule nd_same) (simp_all add: f)
  then have "queue_ok b" by (intro queue_ok_same [OF q]) (simp_all add: f)
  moreover have "eligible b x = eligible bb x" for x using nd by (simp add: eligible_def share_def Let_def f)
  then have "saturated b" using sat by (simp add: saturated_def f)
  ultimately show ?thesis by (simp add: settled_def fair_inv_def)
qed

lemma register_new:
  assumes st: "settled bb L" and key: "bb_groups bb key = None" and small: "next_grp bb < 2 ^ 62 - 1"
  defines "g \<equiv> next_grp bb"
  defines "b \<equiv> bb\<lparr>next_grp := Suc g, grp := (grp bb)(g := zeroGroup\<lparr>g_key := key, g_refs := 1\<rparr>),
                  bb_groups := (bb_groups bb)(key \<mapsto> g)\<rparr>"
  shows "settled b (L\<lparr>regs := (regs L)(g := Suc (regs L g))\<rparr>)" (is "settled b ?L")
proof -
  have i: "binv bb L" and q: "queue_ok bb" and sat: "saturated bb" using st by (auto simp: settled_def fair_inv_def)
  note d = binvD [OF i]
  have L0: "held L g = 0" "hesc L g = 0" "regs L g = 0" using d(4) by (auto simp: ledger_ok_def g_def)
  have none: "of_grp bb L x = {}" if "next_grp bb \<le> x" for x
    using that d(10) by (force simp: of_grp_def wtr_ok_def Let_def)
  have emp: "g_waiters (grp bb g) = []" using d(8) [of g] none [of g] by (simp add: grp_ok_def Let_def g_def)
  have gw: "g \<notin> set (bb_waiting bb)" "g \<notin> set (bb_reserveReady bb)" "g \<notin> set (bb_blocked bb)"
    using queue_okD(4,8) [OF q] emp by auto
  have f: "bb_total b = bb_total bb" "bb_used b = bb_used bb" "bb_escape b = bb_escape bb" "bb_fair b = bb_fair bb"
    "bb_reserve b = bb_reserve bb" "bb_minGroup b = bb_minGroup bb" "bb_active b = bb_active bb"
    "bb_waiting b = bb_waiting bb" "bb_reserveReady b = bb_reserveReady bb" "bb_blocked b = bb_blocked bb"
    "wtr b = wtr bb" "chanClosed b = chanClosed bb" "next_wtr b = next_wtr bb" "next_chan b = next_chan bb"
    "next_grp b = Suc g" "\<And>x. x \<noteq> g \<Longrightarrow> grp b x = grp bb x" "grp b g = zeroGroup\<lparr>g_key := key, g_refs := 1\<rparr>"
    "bb_groups b = (bb_groups bb)(key \<mapsto> g)"
    by (simp_all add: b_def)
  have "binv b ?L"
  proof (rule binv_update [OF i, where g = g])
    show "config_ok b ?L" using d(3) by (simp add: config_ok_def f)
    show "ledger_ok b ?L"
      using d(2,4) small L0 by (auto simp: ledger_ok_def wtr_ok_def Let_def f less_Suc_eq g_def [symmetric])
    show "sums_ok b"
    proof -
      have s: "(\<Sum>x<g. F (grp b x)) = (\<Sum>x<g. F (grp bb x))" for F :: "budgetGroup \<Rightarrow> nat"
        by (rule sum.cong) (simp_all add: f)
      show ?thesis
        using d(5) s [of "\<lambda>G. unat (g_used G)"] s [of "\<lambda>G. unat (g_escape G)"] s [of "\<lambda>G. of_bool (g_active G)"]
        by (simp only: sums_ok_def f sum.lessThan_Suc g_def [symmetric]) (simp add: zeroGroup_def)
    qed
    show "names_ok b"
    proof -
      have n: "bb_groups bb k = Some x \<longleftrightarrow> 0 < x \<and> x < g \<and> g_key (grp bb x) = k \<and> g_refs (grp bb x) \<noteq> 0" for k x
        using d(6) by (simp add: names_ok_def g_def)
      have "bb_groups b k = Some x \<longleftrightarrow> 0 < x \<and> x < Suc g \<and> g_key (grp b x) = k \<and> g_refs (grp b x) \<noteq> 0" for k x
        using n [of k x] key d(2) by (cases "x = g") (auto simp: f zeroGroup_def g_def [symmetric])
      then show ?thesis by (simp add: names_ok_def f)
    qed
    show "cap_ok b" using d(7) by (simp add: cap_ok_def f)
    have "of_grp b ?L g = {}" using none [of g] by (simp add: of_grp_def f g_def)
    then show "grp_ok b ?L g" using L0 by (simp add: grp_ok_def Let_def f zeroGroup_def)
  qed (simp_all add: f)
  moreover have nd: "nd b x = nd bb x" for x
    by (cases "x = g") (simp_all add: nd_def groupNeed_def Let_def f emp zeroGroup_def split: list.split)
  moreover have "queue_ok b"
  proof (rule queue_ok_same [OF q])
    note m = queue_okD [OF q]
    show "g_allElem (grp b x) = g_allElem (grp bb x)" "g_reserveElem (grp b x) = g_reserveElem (grp bb x)"
      "g_heapIndex (grp b x) = g_heapIndex (grp bb x)" "g_waiters (grp b x) = g_waiters (grp bb x)" for x
      using m(7,13,14) gw emp by (cases "x = g"; simp add: f zeroGroup_def)+
  qed (simp_all add: f nd)
  moreover have "eligible b x = eligible bb x" if "x \<in> set (bb_waiting bb)" for x
    using that gw nd by (cases "x = g") (simp_all add: eligible_def share_def Let_def f)
  then have "saturated b" using sat by (simp add: saturated_def f)
  ultimately show ?thesis by (simp add: settled_def fair_inv_def)
qed

lemma unregisterLocked_ok:
  assumes st: "settled bb L" and g: "0 < g" "g < next_grp bb" "0 < regs L g"
  shows "settled (unregisterLocked g bb) (L\<lparr>regs := (regs L)(g := regs L g - 1)\<rparr>)" (is "settled ?b ?L")
proof -
  have i: "binv bb L" and q: "queue_ok bb" and sat: "saturated bb" using st by (auto simp: settled_def fair_inv_def)
  note d = binvD [OF i]
  have f: "bb_total ?b = bb_total bb" "bb_used ?b = bb_used bb" "bb_escape ?b = bb_escape bb" "bb_fair ?b = bb_fair bb"
    "bb_reserve ?b = bb_reserve bb" "bb_minGroup ?b = bb_minGroup bb" "bb_active ?b = bb_active bb"
    "bb_waiting ?b = bb_waiting bb" "bb_reserveReady ?b = bb_reserveReady bb" "bb_blocked ?b = bb_blocked bb"
    "wtr ?b = wtr bb" "chanClosed ?b = chanClosed bb" "next_grp ?b = next_grp bb"
    "next_wtr ?b = next_wtr bb" "next_chan ?b = next_chan bb" "\<And>x. x \<noteq> g \<Longrightarrow> grp ?b x = grp bb x"
    "\<And>x. g_used (grp ?b x) = g_used (grp bb x)" "\<And>x. g_escape (grp ?b x) = g_escape (grp bb x)"
    "\<And>x. g_pending (grp ?b x) = g_pending (grp bb x)" "\<And>x. g_active (grp ?b x) = g_active (grp bb x)"
    "\<And>x. g_waiters (grp ?b x) = g_waiters (grp bb x)" "\<And>x. g_allElem (grp ?b x) = g_allElem (grp bb x)"
    "\<And>x. g_reserveElem (grp ?b x) = g_reserveElem (grp bb x)" "\<And>x. g_heapIndex (grp ?b x) = g_heapIndex (grp bb x)"
    "g_refs (grp ?b g) = g_refs (grp bb g) - 1"
    using d(1) by (simp_all add: unregisterLocked_def Let_def set_grp_def)
  have r0: "unat (g_refs (grp bb g)) = regs L g + card (of_grp bb L g)"
    using d(8) [of g] by (simp add: grp_ok_def Let_def)
  then have r1: "g_refs (grp bb g) \<noteq> 0" using g(3) by auto
  have "binv ?b ?L"
  proof (rule binv_update [OF i, where g = g])
    show "config_ok ?b ?L" using d(3) by (simp add: config_ok_def f)
    show "ledger_ok ?b ?L" using d(4) g by (auto simp: ledger_ok_def wtr_ok_def f less_imp_diff_less)
    show "sums_ok ?b" by (rule sums_ok_cong [OF d(5)]) (simp_all add: f)
    show "names_ok ?b" by (rule unregister_names [OF d(6) r1 d(1) g(1,2)])
    show "cap_ok ?b" using d(7) by (simp add: cap_ok_def f)
    have "of_grp ?b ?L g = of_grp bb L g" by (simp add: of_grp_def f)
    then show "grp_ok ?b ?L g"
      using d(8) [of g] r0 g(3) unat_pred_exact [OF r1] by (simp add: grp_ok_def Let_def f)
  qed (simp_all add: f)
  moreover have nd: "nd ?b x = nd bb x" for x by (rule nd_same) (simp_all add: f)
  then have "queue_ok ?b" by (intro queue_ok_same [OF q]) (simp_all add: f)
  moreover have "eligible ?b x = eligible bb x" for x using nd by (simp add: eligible_def share_def Let_def f)
  then have "saturated ?b" using sat by (simp add: saturated_def f)
  ultimately show ?thesis by (simp add: settled_def fair_inv_def)
qed

section \<open>Interleavings of callers\<close>

datatype budget_op =
    OpRegister string
  | OpUnregister nat
  | OpReserve u64 bool nat "nat option"
  | OpCancel nat
  | OpRelease u64 u64 nat

type_synonym budget_state = "ByteBudget \<times> ledger"

text \<open>The operation on the budget, and what it does to the callers' books.\<close>

fun budget_step :: "budget_op \<Rightarrow> budget_state \<Rightarrow> budget_state option" where
  "budget_step (OpRegister key) (bb, L) =
     (case register key (Some bb) of
        (Inr (Some g), Some bb) \<Rightarrow> Some (bb, L\<lparr>regs := (regs L)(g := Suc (regs L g))\<rparr>)
      | (_, Some bb) \<Rightarrow> Some (bb, L)
      | (_, None) \<Rightarrow> None)"
| "budget_step (OpUnregister g) (bb, L) =
     map_option (\<lambda>bb. (bb, L\<lparr>regs := (regs L)(g := regs L g - 1)\<rparr>)) (unregister (Some g) (Some bb))"
| "budget_step (OpReserve n force g w) (bb, L) =
     map_option (\<lambda>(ok, over, _, w', bb). (bb, reserve_ledger n g w ok over w' L)) (reserveFor n force (Some g) w bb)"
| "budget_step (OpCancel w) (bb, L) =
     map_option (\<lambda>p. (the p, L\<lparr>outst := outst L - {w}\<rparr>)) (cancel (Some w) (Some bb))"
| "budget_step (OpRelease n e g) (bb, L) =
     map_option (\<lambda>p. (the p, released g n e L)) (releaseFor n e (Some g) (Some bb))"

fun budget_pre :: "budget_op \<Rightarrow> budget_state \<Rightarrow> bool" where
  "budget_pre (OpRegister key) (bb, L) \<longleftrightarrow>
     int (next_grp bb) < 2 ^ 62 - 1 \<and> list_all (\<lambda>g. int (regs L g) < 2 ^ 62 - 1) [0..<next_grp bb]"
| "budget_pre (OpUnregister g) (bb, L) \<longleftrightarrow> 0 < g \<and> g < next_grp bb \<and> 0 < regs L g"
| "budget_pre (OpReserve n force g w) (bb, L) \<longleftrightarrow> reserve_pre n g w bb L"
| "budget_pre (OpCancel w) (bb, L) \<longleftrightarrow> w \<in> outst L"
| "budget_pre (OpRelease n e g) (bb, L) \<longleftrightarrow> release_pre n e g bb L"

definition budget_inv :: "u64 \<Rightarrow> budget_state \<Rightarrow> bool" where
  "budget_inv tot s \<longleftrightarrow> settled (fst s) (snd s) \<and> bb_total (fst s) = tot"

lemma settled_fair: "settled bb L \<Longrightarrow> bb_fair bb"
  using binvD(1) by (auto simp: settled_def fair_inv_def)

lemma budget_step_ok:
  assumes "budget_inv tot s" and "budget_pre opr s"
  shows "\<exists>s'. budget_step opr s = Some s' \<and> budget_inv tot s'"
proof -
  obtain bb L where s: "s = (bb, L)" by (cases s)
  have st: "settled bb L" and tot: "bb_total bb = tot" using assms(1) by (simp_all add: budget_inv_def s)
  note fair = settled_fair [OF st]
  show ?thesis
  proof (cases opr)
    case (OpRegister key)
    have "regs L g < 2 ^ 62 - 1" if "bb_groups bb key = Some g" for g
    proof -
      have "names_ok bb" using st binvD(6) by (auto simp: settled_def fair_inv_def)
      then have "g < next_grp bb" using that by (simp add: names_ok_def)
      then show ?thesis using assms(2) OpRegister s by (auto simp: list_all_iff)
    qed
    then show ?thesis
      using st assms(2) fair register_known [OF st] register_new [OF st, of key]
      by (auto simp: OpRegister s register_def Let_def budget_inv_def tot set_grp_def split: option.splits)
  next
    case (OpUnregister g)
    then show ?thesis
      using unregisterLocked_ok [OF st] assms(2) tot
      by (simp add: s unregister_def budget_inv_def) (simp add: unregisterLocked_def Let_def set_grp_def)
  next
    case (OpReserve n force g w)
    then have pre: "reserve_pre n g w bb L" using assms(2) s by simp
    from reserve_fair_ok [OF st pre] obtain r where
      "reserve_fair n force g w bb = Some r" "reserve_post n force g w bb L r" by blast
    then show ?thesis
      using fair tot
      by (auto simp: OpReserve s reserveFor_def group_def budget_inv_def reserve_post_def others_kept_def split: prod.splits)
  next
    case (OpCancel w)
    then obtain b where "cancel (Some w) (Some bb) = Some (Some b)" "settled b (L\<lparr>outst := outst L - {w}\<rparr>)" "bb_total b = tot"
      using tot others_kept_def cancel_fair_ok [OF st, of w] assms(2) s by auto
    then show ?thesis by (simp add: OpCancel s budget_inv_def)
  next
    case (OpRelease n e g)
    then obtain b where "releaseFor n e (Some g) (Some bb) = Some (Some b)" "settled b (released g n e L)" "bb_total b = tot"
      using tot others_kept_def releaseFor_fair_ok [OF st, of n e g] assms(2) s by auto
    then show ?thesis by (simp add: OpRelease s budget_inv_def)
  qed
qed

interpretation budgets: contract_system budget_step budget_pre "budget_inv tot" for tot
  by unfold_locales (rule budget_step_ok)

lemma NewFairByteBudget_settled:
  assumes "NewFairByteBudget tot opts = Inr bb"
  shows "settled bb ledger0"
proof -
  have f: "bb_total bb = tot" "bb_fair bb" "bb_used bb = 0" "bb_escape bb = 0" "bb_active bb = 0" "bb_groups bb = Map.empty"
    "bb_waiting bb = []" "bb_reserveReady bb = []" "bb_blocked bb = []" "grp bb = (\<lambda>_. zeroGroup)"
    "next_grp bb = 1" "next_wtr bb = 0" "tot \<noteq> 0 \<Longrightarrow> bb_reserve bb < tot"
    using assms by (auto simp: NewFairByteBudget_def NewByteBudget_def Let_def split: if_splits)
  have "binv bb ledger0"
    using f by (simp add: binv_defs ledger0_def grp_ok_def of_grp_def zeroGroup_def unat_less_2_64)
  moreover have "queue_ok bb"
    using f by (simp add: queue_ok_def member_ok_def idx_ok_def get_heap_def zeroGroup_def heap_ord_def)
  ultimately show ?thesis using f by (simp add: settled_def fair_inv_def saturated_def)
qed

section \<open>Reachable states\<close>

text \<open>The budget and the ledger after a run of a fresh fair budget by callers that follow the contract.\<close>

definition reaches :: "u64 \<Rightarrow> FairByteBudgetOptions \<Rightarrow> budget_op list \<Rightarrow> ByteBudget \<Rightarrow> ledger \<Rightarrow> bool" where
  "reaches tot opts ops bb L \<longleftrightarrow>
     (case NewFairByteBudget tot opts of
        Inl _ \<Rightarrow> False
      | Inr b0 \<Rightarrow> admissible budget_step budget_pre ops (b0, ledger0) \<and> run budget_step ops (b0, ledger0) = Some (bb, L))"

lemma reaches_settled:
  assumes "reaches tot opts ops bb L"
  shows "settled bb L" "binv bb L" "bb_total bb = tot"
proof -
  obtain b0 where b0: "NewFairByteBudget tot opts = Inr b0" "admissible budget_step budget_pre ops (b0, ledger0)"
      "run budget_step ops (b0, ledger0) = Some (bb, L)"
    using assms by (auto simp: reaches_def split: sum.splits)
  have "bb_total b0 = tot" using b0(1) by (auto simp: NewFairByteBudget_def NewByteBudget_def Let_def split: if_splits)
  then have "budget_inv tot (b0, ledger0)" using NewFairByteBudget_settled [OF b0(1)] by (simp add: budget_inv_def)
  then have "budget_inv tot (bb, L)" using b0(2,3) by (rule budgets.run_invar)
  then show "settled bb L" "binv bb L" "bb_total bb = tot" by (simp_all add: budget_inv_def settled_def fair_inv_def)
qed

text \<open>
  A concrete run: one tenant fills the budget, a second request parks, the release grants
  it, and it is collected.
\<close>

definition demo_opts :: FairByteBudgetOptions where
  "demo_opts = \<lparr>ReserveBytes = 8, MinGroupBytes = 100\<rparr>"

definition demo_ops :: "budget_op list" where
  "demo_ops = [OpRegister ''a'', OpReserve 50 False 1 None, OpReserve 20 False 1 None]"

definition demo_budget :: ByteBudget where
  "demo_budget = (NewByteBudget 64)\<lparr>bb_fair := True, bb_reserve := 8, bb_minGroup := 100, bb_groups := Map.empty\<rparr>"

lemma demo_new: "NewFairByteBudget 64 demo_opts = Inr demo_budget"
  by (simp add: NewFairByteBudget_def demo_opts_def demo_budget_def)

lemma demo_settled: "budget_inv 64 (demo_budget, ledger0)"
  using NewFairByteBudget_settled [OF demo_new] by (simp add: budget_inv_def demo_budget_def NewByteBudget_def)

lemma demo_admissible: "admissible budget_step budget_pre demo_ops (demo_budget, ledger0)"
  by code_simp

lemma demo_reaches:
  obtains bb L where "reaches 64 demo_opts demo_ops bb L" "run budget_step demo_ops (demo_budget, ledger0) = Some (bb, L)"
  using budgets.run_ok [OF demo_settled demo_admissible] demo_admissible by (auto simp: reaches_def demo_new)

lemma demo_values:
  "map_option (\<lambda>(bb, L). (bb_used bb, g_waiters (grp bb 1), w_granted (wtr bb 0), outst L = {0})) 
     (run budget_step demo_ops (demo_budget, ledger0)) = Some (64, [0], False, True)"
  by code_simp

section \<open>What the fair budget guarantees\<close>

text \<open>
  C3: whatever the interleaving of the callers, as long as each follows its contract, every
  operation of a fair budget returns: no nil dereference, no double close, no scheduling
  loop that does not end. At rest the books balance and no admissible byte is withheld.
\<close>

theorem budget_no_panic:
  assumes "NewFairByteBudget tot opts = Inr b0" and "admissible budget_step budget_pre ops (b0, ledger0)"
  shows "\<exists>bb L. run budget_step ops (b0, ledger0) = Some (bb, L) \<and> settled bb L \<and> bb_total bb = tot"
proof -
  have "bb_total b0 = tot" using assms(1) by (auto simp: NewFairByteBudget_def NewByteBudget_def Let_def split: if_splits)
  then have "budget_inv tot (b0, ledger0)" using NewFairByteBudget_settled [OF assms(1)] by (simp add: budget_inv_def)
  from budgets.run_ok [OF this assms(2)] show ?thesis by (auto simp: budget_inv_def)
qed

theorem budget_no_panic_witness:
  "\<exists>bb L. run budget_step demo_ops (demo_budget, ledger0) = Some (bb, L) \<and> settled bb L \<and> bb_total bb = 64"
  by (rule budget_no_panic [OF demo_new demo_admissible])

lemma sum_over_groups:
  assumes "binv bb L"
  shows "(\<Sum>g < next_grp bb. \<Sum>w \<in> of_grp bb L g. f w) = (\<Sum>w \<in> outst L. f w)"
proof -
  have "(\<Sum>g \<in> {..<next_grp bb}. \<Sum>w \<in> {w \<in> outst L. w_group (wtr bb w) = g}. f w) = (\<Sum>w \<in> outst L. f w)"
    by (rule sum.group) (use binvD(9,10) [OF assms] in \<open>auto simp: wtr_ok_def Let_def\<close>)
  then show ?thesis by (simp add: of_grp_def)
qed

lemma used_ledger:
  assumes "binv bb L"
  shows "unat (bb_used bb) = (\<Sum>g < next_grp bb. held L g) + (\<Sum>w \<in> outst L. unat (w_credit (wtr bb w)))"
    "unat (bb_escape bb) = (\<Sum>g < next_grp bb. hesc L g)"
proof -
  note d = binvD [OF assms]
  have "unat (g_used (grp bb g)) = held L g + (\<Sum>w \<in> of_grp bb L g. unat (w_credit (wtr bb w)))" for g
    using d(8) [of g] by (simp add: grp_ok_def Let_def)
  then have "unat (bb_used bb) = (\<Sum>g < next_grp bb. held L g) +
      (\<Sum>g < next_grp bb. \<Sum>w \<in> of_grp bb L g. unat (w_credit (wtr bb w)))"
    using d(5) by (simp add: sums_ok_def sum.distrib)
  then show "unat (bb_used bb) = (\<Sum>g < next_grp bb. held L g) + (\<Sum>w \<in> outst L. unat (w_credit (wtr bb w)))"
    by (simp only: sum_over_groups [OF assms])
  have "unat (g_escape (grp bb g)) = hesc L g" for g using d(8) [of g] by (simp add: grp_ok_def Let_def)
  then show "unat (bb_escape bb) = (\<Sum>g < next_grp bb. hesc L g)" using d(5) by (simp add: sums_ok_def)
qed

text \<open>
  C18: no byte is lost or counted twice. In every reachable state \<open>Used\<close> is exactly what the
  callers hold plus the credits already set aside for parked requests.
\<close>

theorem budget_conservation:
  assumes "reaches tot opts ops bb L"
  shows "unat (Used (Some bb)) = (\<Sum>g < next_grp bb. held L g) + (\<Sum>w \<in> outst L. unat (w_credit (wtr bb w)))"
  using used_ledger(1) [OF reaches_settled(2) [OF assms]] by (simp add: Used_def)

theorem budget_conservation_witness:
  "\<exists>bb L. run budget_step demo_ops (demo_budget, ledger0) = Some (bb, L) \<and> bb_used bb = 64 \<and>
     64 = (\<Sum>g < next_grp bb. held L g) + (\<Sum>w \<in> outst L. unat (w_credit (wtr bb w)))"
proof -
  obtain bb L where r: "reaches 64 demo_opts demo_ops bb L" "run budget_step demo_ops (demo_budget, ledger0) = Some (bb, L)"
    by (rule demo_reaches)
  then have "bb_used bb = 64" using demo_values by simp
  then show ?thesis using budget_conservation [OF r(1)] r(2) by (simp add: Used_def)
qed

text \<open>
  C19: the cap holds. In every reachable state of a limited budget the bytes admitted, other
  than the escape messages, never exceed the total, and the escape bytes are exactly what
  the callers hold as escapes.
\<close>

theorem budget_cap:
  assumes "reaches tot opts ops bb L" and "tot \<noteq> 0"
  shows "unat (bb_used bb) - (\<Sum>g < next_grp bb. hesc L g) \<le> unat tot"
proof -
  note r = reaches_settled [OF assms(1)]
  have "unat (bb_used bb) \<le> unat tot + unat (bb_escape bb)"
    using binvD(7) [OF r(2)] r(3) assms(2) by (simp add: cap_ok_def)
  then show ?thesis using used_ledger(2) [OF r(2)] by simp
qed

theorem budget_cap_witness:
  "\<exists>bb L. run budget_step demo_ops (demo_budget, ledger0) = Some (bb, L) \<and>
     unat (bb_used bb) - (\<Sum>g < next_grp bb. hesc L g) \<le> unat (64 :: u64)"
proof -
  obtain bb L where r: "reaches 64 demo_opts demo_ops bb L" "run budget_step demo_ops (demo_budget, ledger0) = Some (bb, L)"
    by (rule demo_reaches)
  then show ?thesis using budget_cap [OF r(1)] by auto
qed

text \<open>
  C20: no lost wake-up and no idle capacity. While a request is parked without its grant, the
  budget is full, or the borrowable part is full and the request's group would exceed its
  fair share.
\<close>

theorem budget_work_conserving:
  assumes "reaches tot opts ops bb L" and "w \<in> outst L" and "\<not> w_granted (wtr bb w)"
  defines "used \<equiv> bb_used bb - bb_escape bb" and "g \<equiv> w_group (wtr bb w)"
  shows "used \<ge> tot \<or>
    (used \<ge> tot - bb_reserve bb \<and> (\<exists>need. groupNeed g bb = Some need \<and> need > share g bb))"
proof -
  note r = reaches_settled [OF assms(1)]
  have "w \<in> set (g_waiters (grp bb g))"
    using binvD(8) [OF r(2), of g] assms(2,3) by (auto simp: grp_ok_def Let_def of_grp_def g_def)
  then have ne: "g_waiters (grp bb g) \<noteq> []" by auto
  have "queue_ok bb" "saturated bb" using r(1) by (auto simp: settled_def fair_inv_def)
  then have "g \<in> set (bb_waiting bb)" using ne queue_okD(4) by blast
  then show ?thesis
    using \<open>saturated bb\<close> r(3) groupNeed_nd [OF ne] by (auto simp: saturated_def used_def eligible_def)
qed

theorem budget_work_conserving_witness:
  "\<exists>bb L. run budget_step demo_ops (demo_budget, ledger0) = Some (bb, L) \<and> \<not> w_granted (wtr bb 0) \<and>
     (bb_used bb - bb_escape bb \<ge> 64 \<or> (bb_used bb - bb_escape bb \<ge> 64 - bb_reserve bb \<and>
       (\<exists>need. groupNeed (w_group (wtr bb 0)) bb = Some need \<and> need > share (w_group (wtr bb 0)) bb)))"
proof -
  obtain bb L where r: "reaches 64 demo_opts demo_ops bb L" "run budget_step demo_ops (demo_budget, ledger0) = Some (bb, L)"
    by (rule demo_reaches)
  then have w: "0 \<in> outst L" "\<not> w_granted (wtr bb 0)" using demo_values by auto
  show ?thesis using budget_work_conserving [OF r(1) w] r(2) w(2) by blast
qed

text \<open>
  C21: first come, first served inside a group. In every reachable state only the request at
  the front of a group's queue may have been credited bytes; every request behind it has none.
\<close>

theorem budget_fifo:
  assumes "reaches tot opts ops bb L" and "g_waiters (grp bb g) = w # ws" and "x \<in> set ws"
  shows "w_credit (wtr bb x) = 0 \<and> \<not> w_granted (wtr bb x) \<and> x \<noteq> w"
proof -
  note r = reaches_settled [OF assms(1)]
  have x: "x \<in> set (g_waiters (grp bb g))" using assms by simp
  show ?thesis
    using binvD(8) [OF r(2), of g] assms(2,3) grp_waiter(3) [OF r(2) x] by (auto simp: grp_ok_def Let_def)
qed

definition fifo_ops :: "budget_op list" where
  "fifo_ops = demo_ops @ [OpReserve 4 False 1 None]"

lemma fifo_admissible: "admissible budget_step budget_pre fifo_ops (demo_budget, ledger0)"
  by code_simp

lemma fifo_values:
  "map_option (\<lambda>(bb, L). (g_waiters (grp bb 1), w_credit (wtr bb 0))) (run budget_step fifo_ops (demo_budget, ledger0)) =
     Some ([0, 1], 14)"
  by code_simp

theorem budget_fifo_witness:
  "\<exists>bb L. run budget_step fifo_ops (demo_budget, ledger0) = Some (bb, L) \<and> g_waiters (grp bb 1) = [0, 1] \<and>
     w_credit (wtr bb 0) = 14 \<and> w_credit (wtr bb 1) = 0 \<and> \<not> w_granted (wtr bb 1)"
proof -
  obtain bb L where run: "run budget_step fifo_ops (demo_budget, ledger0) = Some (bb, L)"
    using budgets.run_ok [OF demo_settled fifo_admissible] by auto
  have r: "reaches 64 demo_opts fifo_ops bb L" using run fifo_admissible by (simp add: reaches_def demo_new)
  have v: "g_waiters (grp bb 1) = [0, 1]" "w_credit (wtr bb 0) = 14" using run fifo_values by auto
  show ?thesis using budget_fifo [OF r v(1), of 1] run v by auto
qed

lemma settled_no_leak:
  assumes "settled bb L" and "\<And>g. held L g = 0" and "outst L = {}"
  shows "Used (Some bb) = 0 \<and> bb_active bb = 0 \<and> bb_waiting bb = [] \<and> bb_reserveReady bb = [] \<and> bb_blocked bb = [] \<and>
    (\<forall>g. g_used (grp bb g) = 0 \<and> g_pending (grp bb g) = 0 \<and> g_waiters (grp bb g) = [] \<and> \<not> g_active (grp bb g) \<and>
       unat (g_escape (grp bb g)) = hesc L g \<and> unat (g_refs (grp bb g)) = regs L g) \<and>
    unat (bb_escape bb) = (\<Sum>g < next_grp bb. hesc L g) \<and> ((\<forall>g. regs L g = 0) \<longrightarrow> bb_groups bb = Map.empty)"
proof -
  have b: "binv bb L" using assms(1) by (simp add: settled_def fair_inv_def)
  note d = binvD [OF b]
  have q: "queue_ok bb" using assms(1) by (simp add: settled_def fair_inv_def)
  have e: "of_grp bb L g = {}" for g using assms(3) by (simp add: of_grp_def)
  have G: "g_used (grp bb g) = 0 \<and> g_pending (grp bb g) = 0 \<and> g_waiters (grp bb g) = [] \<and> \<not> g_active (grp bb g) \<and>
      unat (g_escape (grp bb g)) = hesc L g \<and> unat (g_refs (grp bb g)) = regs L g" for g
    using d(8) [of g] e [of g] assms(2) [of g] by (simp add: grp_ok_def Let_def unat_eq_0)
  have "bb_used bb = 0" "bb_active bb = 0" using d(5) G by (simp_all add: sums_ok_def unat_eq_0)
  moreover have "bb_waiting bb = []" using queue_okD(4) [OF q] G by (metis last_in_set)
  moreover have "bb_reserveReady bb = []" "bb_blocked bb = []" using queue_okD(8) [OF q] \<open>bb_waiting bb = []\<close> by simp_all
  moreover have "bb_groups bb = Map.empty" if "\<forall>g. regs L g = 0"
  proof
    fix k show "bb_groups bb k = None"
      using d(6) G that by (cases "bb_groups bb k") (auto simp: names_ok_def u64_neq_0)
  qed
  ultimately show ?thesis using G used_ledger(2) [OF b] by (simp add: Used_def)
qed

text \<open>
  C23: nothing leaks. Once the callers have given every byte, escape and waiter back, every
  counter of the budget and of each of its groups is zero and no group is queued; once they
  have also unregistered, the map of groups is empty.
\<close>

theorem budget_no_leak:
  assumes "reaches tot opts ops bb L" and "\<And>g. held L g = 0" and "\<And>g. hesc L g = 0" and "outst L = {}"
  shows "Used (Some bb) = 0 \<and> bb_escape bb = 0 \<and> bb_active bb = 0 \<and>
    bb_waiting bb = [] \<and> bb_reserveReady bb = [] \<and> bb_blocked bb = [] \<and>
    (\<forall>g. g_used (grp bb g) = 0 \<and> g_escape (grp bb g) = 0 \<and> g_pending (grp bb g) = 0 \<and> g_waiters (grp bb g) = [] \<and> \<not> g_active (grp bb g)) \<and>
    ((\<forall>g. regs L g = 0) \<longrightarrow> bb_groups bb = Map.empty)"
  using settled_no_leak [OF reaches_settled(1) [OF assms(1)] assms(2,4)] assms(3) by (simp add: unat_eq_0)

definition leave_ops :: "budget_op list" where
  "leave_ops = [OpRegister ''a'', OpReserve 50 False 1 None, OpReserve 70 True 1 None, OpRelease 120 70 1, OpUnregister 1]"

lemma leave_admissible: "admissible budget_step budget_pre leave_ops (demo_budget, ledger0)"
  by code_simp

lemma leave_values:
  "\<exists>bb. run budget_step leave_ops (demo_budget, ledger0) =
     Some (bb, ledger0\<lparr>held := (held ledger0)(1 := 0), hesc := (hesc ledger0)(1 := 0), regs := (regs ledger0)(1 := 0)\<rparr>)"
  by (simp add: leave_ops_def demo_budget_def NewByteBudget_def register_def reserveFor_def reserve_none group_def
      fits_def Let_def zeroGroup_def charge_def set_grp_def activateLocked_def releaseFor_def releaseLocked_def
      scheduleLocked.simps unregister_def reserve_ledger_def admitted_def released_def ledger0_def)

theorem budget_no_leak_witness:
  "\<exists>bb L. run budget_step leave_ops (demo_budget, ledger0) = Some (bb, L) \<and> Used (Some bb) = 0 \<and> bb_escape bb = 0 \<and> bb_groups bb = Map.empty"
proof -
  let ?L = "ledger0\<lparr>held := (held ledger0)(1 := 0), hesc := (hesc ledger0)(1 := 0), regs := (regs ledger0)(1 := 0)\<rparr>"
  obtain bb where run: "run budget_step leave_ops (demo_budget, ledger0) = Some (bb, ?L)" using leave_values by blast
  have r: "reaches 64 demo_opts leave_ops bb ?L" using run leave_admissible by (simp add: reaches_def demo_new)
  have "Used (Some bb) = 0 \<and> bb_escape bb = 0 \<and> bb_groups bb = Map.empty"
    using budget_no_leak [OF r] by (simp add: ledger0_def)
  then show ?thesis using run by blast
qed

lemma fits_reserve:
  assumes inv: "binv bb L" and fit: "fits n g bb" and tot: "bb_total bb \<noteq> 0" and g: "g < next_grp bb"
    and ov: "unat (bb_total bb) + unat (bb_used bb) + unat n < 2 ^ 64"
  defines "b \<equiv> charge n g False bb"
  shows "bb_used b - bb_escape b \<le> bb_total bb - bb_reserve bb \<or> g_used (grp b g) \<le> share g bb"
proof -
  note d = binvD [OF inv]
  have f: "bb_used b = bb_used bb + n" "bb_escape b = bb_escape bb" "g_used (grp b g) = g_used (grp bb g) + n"
    by (simp_all add: b_def charge_adjust [OF d(1)] adjust_fields adjust_gfields)
  have free: "bb_used b - bb_escape b = bb_used bb - bb_escape bb + n" by (simp add: f)
  have "unat (g_used (grp bb g) + n) = unat (g_used (grp bb g)) + unat n"
    using ov used_le_total [OF inv g] by (intro unat_add_exact) simp
  moreover have "bb_used bb - bb_escape bb + n \<le> bb_total bb - bb_reserve bb \<or>
      (n \<le> share g bb \<and> g_used (grp bb g) \<le> share g bb - n)"
    using fit tot d(1) by (auto simp: fits_def Let_def split: if_splits)
  ultimately show ?thesis unfolding free f(3) by (auto simp: u64_order unat_diff_exact)
qed

text \<open>
  C22: the newcomer reserve is protected at admission. A request of a limited budget that is
  admitted at once, without being forced and without having waited, keeps the usage within
  \<open>total - reserve\<close>, unless its group stays within its fair share.
\<close>

theorem budget_reserve_protected:
  assumes "reaches tot opts ops bb L" and "tot \<noteq> 0" and pre: "reserve_pre n g None bb L"
    and res: "reserveFor n False (Some g) None bb = Some (True, over, used, w', b)"
  shows "\<not> over \<and> (bb_used b - bb_escape b \<le> tot - bb_reserve bb \<or> g_used (grp b g) \<le> share g bb)"
proof -
  note r = reaches_settled [OF assms(1)] and p = reserve_preD [OF pre]
  note fair = binvD(1) [OF r(2)]
  have res': "reserve_fair n False g None bb = Some (True, over, used, w', b)"
    using res fair by (simp add: reserveFor_def group_def)
  have now: "fits n g bb \<and> g_waiters (grp bb g) = []"
    using res' unfolding reserve_none [OF fair] by (auto split: if_splits bind_splits)
  have "g_waiters (grp (charge n g False bb) g) = []"
    using now by (simp add: charge_adjust [OF fair] adjust_gfields)
  then have "\<not> over" "b = charge n g False bb"
    using res' now unfolding reserve_none [OF fair] by (auto simp: Let_def)
  then show ?thesis
    using fits_reserve [OF r(2) _ _ p(2,6)] now r(3) assms(2) by simp
qed

lemma first_reserve:
  "reaches 64 demo_opts [OpRegister ''a''] (the (snd (register ''a'' (Some demo_budget)))) (ledger0\<lparr>regs := (\<lambda>_. 0)(1 := 1)\<rparr>)"
  by (simp add: reaches_def demo_new register_def demo_budget_def NewByteBudget_def ledger0_def)

theorem budget_reserve_protected_witness:
  "\<exists>over used w' b. reserveFor 50 False (Some 1) None (the (snd (register ''a'' (Some demo_budget)))) = Some (True, over, used, w', b) \<and>
     \<not> over \<and> (bb_used b - bb_escape b \<le> 64 - bb_reserve (the (snd (register ''a'' (Some demo_budget)))) \<or>
       g_used (grp b 1) \<le> share 1 (the (snd (register ''a'' (Some demo_budget)))))"
proof -
  let ?bb = "the (snd (register ''a'' (Some demo_budget)))" and ?L = "ledger0\<lparr>regs := (\<lambda>_. 0)(1 := 1)\<rparr>"
  have pre: "reserve_pre 50 1 None ?bb ?L"
    by (simp add: reserve_pre_def register_def demo_budget_def NewByteBudget_def ledger0_def)
  have "map_option fst (reserveFor 50 False (Some 1) None ?bb) = Some True" by code_simp
  then obtain over used w' b where r: "reserveFor 50 False (Some 1) None ?bb = Some (True, over, used, w', b)" by auto
  then show ?thesis using budget_reserve_protected [OF first_reserve _ pre r] by auto
qed

text \<open>
  C24: the newcomer reserve is protected from the scheduler. Every turn of \<open>scheduleLocked\<close> that
  hands out credit to a parked request adds it to one group, and keeps the usage within
  \<open>total - reserve\<close> unless what that group holds and its front request still needs stay within
  its fair share.
\<close>

theorem schedule_reserve_protected:
  assumes "fair_inv bb L" and "bb_waiting bb \<noteq> []" and "schedule_turn bb = Some (True, b)"
  shows "\<exists>g. (\<forall>x. x \<noteq> g \<longrightarrow> g_used (grp b x) = g_used (grp bb x)) \<and> g_used (grp bb g) < g_used (grp b g) \<and>
    (bb_used b - bb_escape b \<le> bb_total bb - bb_reserve bb \<or> (\<exists>need. groupNeed g bb = Some need \<and> need \<le> share g bb))"
proof -
  obtain g where g: "g_waiters (grp bb g) \<noteq> []" "\<forall>x. x \<noteq> g \<longrightarrow> g_used (grp b x) = g_used (grp bb x)" "g_used (grp bb g) < g_used (grp b g)"
    "bb_used b - bb_escape b \<le> bb_total bb - bb_reserve bb \<or> eligible bb g"
    using schedule_turn_ok [OF assms(1,2)] assms(3) by (auto simp: protects_def)
  then show ?thesis using groupNeed_nd [OF g(1)] by (auto simp: eligible_def)
qed

text \<open>The state of the demonstration run in which \<open>releaseFor\<close> starts to schedule.\<close>

definition demo_release :: "ByteBudget \<Rightarrow> ByteBudget option" where
  "demo_release bb = (let b = releaseLocked 50 0 1 bb in if g_waiters (grp b 1) \<noteq> [] then refreshLocked 1 b else Some b)"

lemma demo_turn:
  "map_option (\<lambda>(bb, L). (next_grp bb, held L 1)) (run budget_step demo_ops (demo_budget, ledger0)) = Some (2, 50)"
  "Option.bind (run budget_step demo_ops (demo_budget, ledger0)) (\<lambda>(bb, L). Option.bind (demo_release bb) (\<lambda>b1.
     map_option (\<lambda>(more, b). (more, bb_waiting b1, bb_used b)) (schedule_turn b1))) = Some (True, [1], 20)"
  by code_simp+

theorem schedule_reserve_protected_witness:
  "\<exists>bb L b1 b g. run budget_step demo_ops (demo_budget, ledger0) = Some (bb, L) \<and> demo_release bb = Some b1 \<and>
     schedule_turn b1 = Some (True, b) \<and> g_used (grp b1 g) < g_used (grp b g) \<and>
     (bb_used b - bb_escape b \<le> bb_total b1 - bb_reserve b1 \<or> (\<exists>need. groupNeed g b1 = Some need \<and> need \<le> share g b1))"
proof -
  obtain bb L where r: "reaches 64 demo_opts demo_ops bb L" "run budget_step demo_ops (demo_budget, ledger0) = Some (bb, L)"
    by (rule demo_reaches)
  have inv: "fair_inv bb L" using reaches_settled(1) [OF r(1)] by (simp add: settled_def)
  have "release_pre 50 0 1 bb L" using demo_turn(1) r(2) by (simp add: release_pre_def)
  from release_refresh_ok [OF inv this] obtain b1 where b1: "demo_release bb = Some b1" "fair_inv b1 (released 1 50 0 L)"
    unfolding demo_release_def Let_def by blast
  obtain b where b: "schedule_turn b1 = Some (True, b)" "bb_waiting b1 = [1]" using demo_turn(2) r(2) b1(1) by auto
  from schedule_reserve_protected [OF b1(2) _ b(1)] b r(2) b1(1) show ?thesis by auto
qed

text \<open>
  C26: \<open>NewFairByteBudget\<close> rejects exactly the reserves that leave nothing to borrow, and
  fills in an eighth of the total when no reserve is asked for.
\<close>

theorem NewFairByteBudget_validates:
  "(case NewFairByteBudget tot opts of
      Inl e \<Rightarrow> e = ErrFairReserve \<and> ReserveBytes opts \<noteq> 0 \<and> ReserveBytes opts \<ge> tot
    | Inr bb \<Rightarrow> bb_total bb = tot \<and> bb_fair bb \<and> bb_minGroup bb \<noteq> 0 \<and> (tot = 0 \<and> bb_reserve bb = 0 \<or> bb_reserve bb < tot) \<and>
        bb_reserve bb = (if ReserveBytes opts = 0 then tot div 8 else ReserveBytes opts))"
proof -
  have "tot \<noteq> 0 \<Longrightarrow> tot div 8 < tot"
    by (simp add: u64_order unat_div u64_neq_0)
  then show ?thesis
    by (auto simp: NewFairByteBudget_def NewByteBudget_def messageOverheadBytes_def Let_def not_less)
qed

section \<open>The legacy budget\<close>

text \<open>
  A budget made by \<open>NewByteBudget\<close> has no groups: a request that does not fit parks on the
  one channel \<open>legacyWake\<close>, which the next release closes.
\<close>

datatype legacy_op = LReserve u64 bool "nat option" | LRelease u64

fun legacy_step :: "legacy_op \<Rightarrow> ByteBudget \<Rightarrow> ByteBudget option" where
  "legacy_step (LReserve n force w) bb = map_option (\<lambda>(_, _, _, _, bb). bb) (reserveFor n force None w bb)"
| "legacy_step (LRelease n) bb = map_option the (release n (Some bb))"

fun legacy_pre :: "legacy_op \<Rightarrow> ByteBudget \<Rightarrow> bool" where
  "legacy_pre (LReserve n force w) bb \<longleftrightarrow> (case w of None \<Rightarrow> True | Some x \<Rightarrow> x < next_wtr bb)"
| "legacy_pre (LRelease n) bb \<longleftrightarrow> True"

definition legacy_inv :: "ByteBudget \<Rightarrow> bool" where
  "legacy_inv bb \<longleftrightarrow> \<not> bb_fair bb \<and>
     (\<forall>c. bb_legacyWake bb = Some c \<longrightarrow> c < next_chan bb \<and> \<not> chanClosed bb c) \<and>
     (\<forall>x < next_wtr bb. \<exists>c < next_chan bb. w_wake (wtr bb x) = Some c \<and> (chanClosed bb c \<or> bb_legacyWake bb = Some c))"

lemma legacy_release:
  assumes "legacy_inv bb" and "n \<noteq> 0"
  obtains b where "release n (Some bb) = Some (Some b)" "legacy_inv b" "bb_legacyWake b = None"
    "bb_used b = bb_used bb - min n (bb_used bb)" "next_wtr b = next_wtr bb"
proof -
  let ?u = "bb\<lparr>bb_used := bb_used bb - min n (bb_used bb)\<rparr>"
  have r: "releaseLocked n 0 0 bb = ?u" using assms(1) by (auto simp: releaseLocked_def legacy_inv_def min_def not_less)
  show ?thesis
  proof (cases "bb_legacyWake bb")
    case None
    then show ?thesis
      using assms r by (intro that [of ?u]) (auto simp: release_def releaseFor_def group_def legacy_inv_def)
  next
    case (Some c)
    let ?b = "?u\<lparr>chanClosed := (chanClosed bb)(c := True), bb_legacyWake := None\<rparr>"
    have "\<not> chanClosed bb c" using assms(1) Some by (simp add: legacy_inv_def)
    then show ?thesis
      using assms r Some
      by (intro that [of ?b]) (auto simp: release_def releaseFor_def group_def close_chan_def legacy_inv_def)
  qed
qed

lemma legacy_step_ok:
  assumes "legacy_inv bb" and "legacy_pre opr bb"
  shows "\<exists>b. legacy_step opr bb = Some b \<and> legacy_inv b"
proof (cases opr)
  case (LReserve n force w)
  have "\<not> bb_fair bb" using assms(1) by (simp add: legacy_inv_def)
  moreover have "\<exists>ok over u w' b. reserve_legacy n force w bb = (ok, over, u, w', b) \<and> legacy_inv b"
    using assms unfolding LReserve legacy_inv_def
    by (auto simp: reserve_legacy_def Let_def make_chan_def set_wtr_def less_Suc_eq
        split: option.splits) metis+
  ultimately show ?thesis by (auto simp: LReserve reserveFor_def)
next
  case (LRelease n)
  show ?thesis
  proof (cases "n = 0")
    case False
    show ?thesis by (rule legacy_release [OF assms(1) False]) (simp add: LRelease)
  qed (use assms LRelease in \<open>simp add: release_def releaseFor_def\<close>)
qed

interpretation legacy: contract_system legacy_step legacy_pre legacy_inv
  by unfold_locales (rule legacy_step_ok)

lemma NewByteBudget_legacy: "legacy_inv (NewByteBudget tot)"
  by (simp add: legacy_inv_def NewByteBudget_def)

text \<open>
  C25: the legacy budget loses no wake-up. After any history, a release of a non-zero number
  of bytes leaves every waiter ever handed out with a closed channel, so that each of them
  retries.
\<close>

theorem legacy_release_wakes_all:
  assumes "admissible legacy_step legacy_pre ops (NewByteBudget tot)" and "n \<noteq> 0"
    and "run legacy_step (ops @ [LRelease n]) (NewByteBudget tot) = Some b" and "x < next_wtr b"
  shows "\<exists>c. w_wake (wtr b x) = Some c \<and> chanClosed b c"
proof -
  obtain bb where bb: "run legacy_step ops (NewByteBudget tot) = Some bb" "legacy_inv bb"
    using legacy.run_ok [OF NewByteBudget_legacy assms(1)] by blast
  obtain b' where b': "release n (Some bb) = Some (Some b')" "legacy_inv b'" "bb_legacyWake b' = None"
    using legacy_release [OF bb(2) assms(2)] by blast
  have "b' = b" using assms(3) bb(1) b'(1) by (simp add: run_append)
  then show ?thesis using b' assms(4) by (auto simp: legacy_inv_def)
qed

theorem legacy_release_wakes_all_witness:
  "\<exists>b c. run legacy_step ([LReserve 10 False None, LReserve 10 False None] @ [LRelease 10]) (NewByteBudget 15) = Some b \<and>
     0 < next_wtr b \<and> w_wake (wtr b 0) = Some c \<and> chanClosed b c"
proof -
  have a: "admissible legacy_step legacy_pre [LReserve 10 False None, LReserve 10 False None] (NewByteBudget 15)"
    by (simp split: option.split)
  have "map_option next_wtr (run legacy_step ([LReserve 10 False None, LReserve 10 False None] @ [LRelease 10])
      (NewByteBudget 15)) = Some 1"
    by code_simp
  then obtain b where b: "run legacy_step ([LReserve 10 False None, LReserve 10 False None] @ [LRelease 10])
      (NewByteBudget 15) = Some b" "next_wtr b = 1" by auto
  show ?thesis using legacy_release_wakes_all [OF a _ b(1), of 0] b by auto
qed

end
