(* ===== verification/SharedBudget.thy ===== *)
theory SharedBudget
  imports BudgetSystem
begin

text \<open>
  What a buffer relies on of the budget it shares with other clients, as the interface
  \<open>shared_budget\<close>: \<open>own g r h e W p\<close> says that in the budget \<open>p\<close> this client, in group \<open>g\<close> and
  still registered if \<open>r\<close>, holds \<open>h\<close> bytes, \<open>e\<close> of them as escapes, and was handed the waiters
  \<open>W\<close>, each for the size it maps to. The laws say what \<open>reserveFor\<close>, \<open>releaseFor\<close>, \<open>cancel\<close>
  and \<open>unregister\<close> return and own afterwards. The interface is interpreted on the nil
  budget, the legacy budget, and the fair budget beside any other clients' books.
\<close>

section \<open>The interface\<close>

type_synonym handed = "nat \<rightharpoonup> u64"

definition handed_ok :: "nat option \<Rightarrow> u64 \<Rightarrow> handed \<Rightarrow> bool" where
  "handed_ok w n W \<longleftrightarrow> (case w of None \<Rightarrow> True | Some x \<Rightarrow> W x = Some n)"

definition forget :: "nat option \<Rightarrow> handed \<Rightarrow> handed" where
  "forget w W = (case w of None \<Rightarrow> W | Some x \<Rightarrow> W(x := None))"

definition reserve_room :: "u64 \<Rightarrow> ByteBudget \<Rightarrow> bool" where
  "reserve_room n bb \<longleftrightarrow> n \<noteq> 0 \<and> uint (bb_total bb) + uint (bb_used bb) + uint n < 2 ^ 64 \<and>
     uint (bb_total bb) + uint (bb_escape bb) + uint n < 2 ^ 64 \<and> int (next_wtr bb) < 2 ^ 62 - 1"

definition reserved_ok ::
  "(nat option \<Rightarrow> bool \<Rightarrow> nat \<Rightarrow> nat \<Rightarrow> handed \<Rightarrow> budgetp \<Rightarrow> bool) \<Rightarrow>
   nat option \<Rightarrow> bool \<Rightarrow> nat \<Rightarrow> nat \<Rightarrow> handed \<Rightarrow> u64 \<Rightarrow> bool \<Rightarrow> nat option \<Rightarrow> reserve_result \<Rightarrow> bool" where
  "reserved_ok own g r h e W n force w res \<longleftrightarrow>
     (case res of (ok, over, used, w', bb) \<Rightarrow>
        (force \<longrightarrow> ok) \<and> (over \<longrightarrow> force) \<and>
        (if ok then w' = None \<and>
           own g r (h + unat n) (if over \<and> g \<noteq> None then e + unat n else e) (forget w W) (Some bb)
         else \<not> over \<and> (\<exists>x. w' = Some x \<and> (w \<noteq> None \<longrightarrow> w' = w) \<and> own g r h e (W(x \<mapsto> n)) (Some bb))))"

locale shared_budget =
  fixes own :: "nat option \<Rightarrow> bool \<Rightarrow> nat \<Rightarrow> nat \<Rightarrow> handed \<Rightarrow> budgetp \<Rightarrow> bool"
  assumes reserve_law: "own g r h e W (Some bb) \<Longrightarrow> r \<or> g = None \<Longrightarrow> reserve_room n bb \<Longrightarrow> handed_ok w n W \<Longrightarrow>
      \<exists>res. reserveFor n force g w bb = Some res \<and> reserved_ok own g r h e W n force w res"
    and release_law: "own g r h e W p \<Longrightarrow> unat n \<le> h \<Longrightarrow> unat esc \<le> unat n \<Longrightarrow> unat esc \<le> e \<Longrightarrow>
      \<exists>p'. releaseFor n esc g p = Some p' \<and> own g r (h - unat n) (e - unat esc) W p'"
    and cancel_law: "own g r h e W p \<Longrightarrow> w = None \<or> W (the w) \<noteq> None \<Longrightarrow>
      \<exists>p'. cancel w p = Some p' \<and> own g r h e (forget w W) p'"
    and unregister_law: "own (Some x) True h e W p \<Longrightarrow> own (Some x) False h e W (unregister (Some x) p)"
    and nil_law: "own g r h e W None \<Longrightarrow> g = None \<and> W = Map.empty \<and> own g r h' e W None"
    and escape_law: "own g r h e W p \<Longrightarrow> g = None \<Longrightarrow> e = 0"

text \<open>
  Escape bytes nobody will give back. A buffer that forgets an escape leaves its bytes charged as
  escape: from then on it lives with a budget where it owns \<open>l\<close> such bytes more than it knows of.
\<close>

definition leaky ::
  "nat \<Rightarrow> (nat option \<Rightarrow> bool \<Rightarrow> nat \<Rightarrow> nat \<Rightarrow> handed \<Rightarrow> budgetp \<Rightarrow> bool) \<Rightarrow>
   nat option \<Rightarrow> bool \<Rightarrow> nat \<Rightarrow> nat \<Rightarrow> handed \<Rightarrow> budgetp \<Rightarrow> bool" where
  "leaky l own g r h e W p = own g r h (e + l) W p"

lemma leaky_leaky: "leaky k (leaky l own) = leaky (k + l) own"
  by (intro ext) (simp add: leaky_def add.assoc)

lemma leaky_0 [simp]: "leaky 0 own = own"
  by (intro ext) (simp add: leaky_def)

context shared_budget
begin

lemma leaky_shared: "shared_budget (leaky l own)"
proof unfold_locales
  show "\<exists>res. reserveFor n force g w bb = Some res \<and> reserved_ok (leaky l own) g r h e W n force w res"
    if "leaky l own g r h e W (Some bb)" "r \<or> g = None" "reserve_room n bb" "handed_ok w n W" for g r h e W bb n w force
  proof -
    have "reserved_ok own g r h (e + l) W n force w res \<Longrightarrow> reserved_ok (leaky l own) g r h e W n force w res" for res
      by (auto simp: reserved_ok_def leaky_def ac_simps split: if_splits)
    then show ?thesis using reserve_law [of g r h "e + l" W bb n w force] that by (auto simp: leaky_def)
  qed
  show "\<exists>p'. releaseFor n esc g p = Some p' \<and> leaky l own g r (h - unat n) (e - unat esc) W p'"
    if "leaky l own g r h e W p" "unat n \<le> h" "unat esc \<le> unat n" "unat esc \<le> e" for g r h e W p n esc
    using release_law [of g r h "e + l" W p n esc] that by (auto simp: leaky_def)
  show "\<exists>p'. cancel w p = Some p' \<and> leaky l own g r h e (forget w W) p'"
    if "leaky l own g r h e W p" "w = None \<or> W (the w) \<noteq> None" for g r h e W p w
    using cancel_law [of g r h "e + l" W p w] that by (auto simp: leaky_def)
  show "g = None \<and> W = Map.empty \<and> leaky l own g r h' e W None" if "leaky l own g r h e W None" for g r h e W h'
    using nil_law that by (simp add: leaky_def)
  show "e = 0" if "leaky l own g r h e W p" "g = None" for g r h e W p
    using escape_law [of g r h "e + l" W p] that by (simp add: leaky_def)
qed (simp add: leaky_def unregister_law)

end

lemma budgetp_nil:
  "releaseFor n e g p = Some p' \<Longrightarrow> p' = None \<longleftrightarrow> p = None"
  "cancel w p = Some p' \<Longrightarrow> p' = None \<longleftrightarrow> p = None"
  "unregister g p = None \<longleftrightarrow> p = None"
  by (auto simp: releaseFor_def cancel_def unregister_def Let_def split: option.splits if_splits bind_splits)
    metis+

section \<open>The nil budget\<close>

definition nil_own :: "nat option \<Rightarrow> bool \<Rightarrow> nat \<Rightarrow> nat \<Rightarrow> handed \<Rightarrow> budgetp \<Rightarrow> bool" where
  "nil_own g r h e W p \<longleftrightarrow> p = None \<and> g = None \<and> e = 0 \<and> W = Map.empty"

interpretation nil: shared_budget nil_own
  by unfold_locales
    (auto simp: nil_own_def releaseFor_def cancel_def forget_def split: option.splits)

section \<open>The legacy budget\<close>

text \<open>\<open>U\<close> are the waiters of the other clients.\<close>

definition legacy_own :: "nat set \<Rightarrow> nat option \<Rightarrow> bool \<Rightarrow> nat \<Rightarrow> nat \<Rightarrow> handed \<Rightarrow> budgetp \<Rightarrow> bool" where
  "legacy_own U g r h e W p \<longleftrightarrow> g = None \<and> e = 0 \<and>
     (case p of None \<Rightarrow> False | Some bb \<Rightarrow> legacy_inv bb \<and> dom W \<union> U \<subseteq> {..<next_wtr bb})"

lemma legacy_own_Some: "legacy_own U g r h e W (Some bb) \<longleftrightarrow> g = None \<and> e = 0 \<and> legacy_inv bb \<and> dom W \<union> U \<subseteq> {..<next_wtr bb}"
  by (simp add: legacy_own_def)

lemma legacy_reserve:
  assumes "legacy_own U g r h e W (Some bb)" and "handed_ok w n W"
  shows "\<exists>res. reserveFor n force g w bb = Some res \<and> reserved_ok (legacy_own U) g r h e W n force w res"
proof -
  have inv: "legacy_inv bb" and nf: "\<not> bb_fair bb" and dom: "dom W \<union> U \<subseteq> {..<next_wtr bb}" and g: "g = None" "e = 0"
    using assms(1) by (auto simp: legacy_own_Some legacy_inv_def)
  have pre: "legacy_pre (LReserve n force w) bb"
    using assms(2) dom by (auto simp: handed_ok_def split: option.splits)
  obtain ok over used w' bb' where r: "reserve_legacy n force w bb = (ok, over, used, w', bb')"
    by (metis prod_cases5)
  have "legacy_inv bb'"
    using legacy_step_ok [OF inv pre] nf r by (simp add: reserveFor_def g)
  moreover have "next_wtr bb \<le> next_wtr bb'" "force \<longrightarrow> ok" "over \<longrightarrow> force \<and> ok" "ok \<longrightarrow> w' = None"
    "\<not> ok \<longrightarrow> (\<exists>x < next_wtr bb'. w' = Some x \<and> (w \<noteq> None \<longrightarrow> w' = w))"
    using r pre
    by (auto simp: reserve_legacy_def Let_def make_chan_def set_wtr_def split: if_splits option.splits prod.splits)
  ultimately have "reserved_ok (legacy_own U) g r h e W n force w (ok, over, used, w', bb')"
    using dom g by (fastforce simp: reserved_ok_def legacy_own_Some forget_def split: option.splits if_splits)
  then show ?thesis using r nf by (auto simp: reserveFor_def)
qed

lemma legacy_releaseFor:
  assumes "legacy_own U g r h e W p"
  shows "\<exists>p'. releaseFor n 0 g p = Some p' \<and> legacy_own U g r h' e W p'"
proof -
  obtain bb where p: "p = Some bb" and inv: "legacy_inv bb" "dom W \<union> U \<subseteq> {..<next_wtr bb}" "g = None" "e = 0"
    using assms by (auto simp: legacy_own_def split: option.splits)
  show ?thesis
  proof (cases "n = 0")
    case False
    show ?thesis
      by (rule legacy_release [OF inv(1) False]) (use p inv in \<open>auto simp: release_def legacy_own_Some\<close>)
  qed (use p inv in \<open>simp add: releaseFor_def legacy_own_Some\<close>)
qed

interpretation legacy_shared: shared_budget "legacy_own U" for U
proof unfold_locales
  show "\<exists>p'. releaseFor n esc g p = Some p' \<and> legacy_own U g r (h - unat n) (e - unat esc) W p'"
    if "legacy_own U g r h e W p" "unat esc \<le> e" for g r h e W p n esc
  proof -
    have "esc = 0" "e = 0" using that by (auto simp: legacy_own_def unat_eq_0)
    then show ?thesis using legacy_releaseFor [OF that(1), of n "h - unat n"] by simp
  qed
  show "\<exists>p'. cancel w p = Some p' \<and> legacy_own U g r h e (forget w W) p'" if "legacy_own U g r h e W p" for g r h e W p w
    using that by (cases p; cases w)
      (auto simp: cancel_def legacy_own_def legacy_inv_def forget_def split: if_splits)
  show "\<exists>res. reserveFor n force g w bb = Some res \<and> reserved_ok (legacy_own U) g r h e W n force w res"
    if "legacy_own U g r h e W (Some bb)" "handed_ok w n W" for g r h e W bb n w force
    using that by (rule legacy_reserve)
qed (auto simp: legacy_own_def)

section \<open>The fair budget\<close>

text \<open>
  \<open>R\<close> is what the other clients own, \<open>V\<close> their waiters with group and size, \<open>N\<close> a
  bound on their groups, \<open>g0\<close> this client's group; the budget's books are the sum of the two.
\<close>

definition with_client :: "ledger \<Rightarrow> nat \<Rightarrow> bool \<Rightarrow> nat \<Rightarrow> nat \<Rightarrow> nat set \<Rightarrow> ledger" where
  "with_client R g0 r h e W =
     R\<lparr>held := (held R)(g0 := held R g0 + h), hesc := (hesc R)(g0 := hesc R g0 + e),
       outst := outst R \<union> W, regs := (regs R)(g0 := regs R g0 + of_bool r)\<rparr>"

definition waits_for :: "(nat \<times> nat \<times> u64) set \<Rightarrow> nat \<Rightarrow> ByteBudget \<Rightarrow> bool" where
  "waits_for V N bb \<longleftrightarrow> N \<le> next_grp bb \<and> (\<forall>(x, g, n) \<in> V. w_group (wtr bb x) = g \<and> w_n (wtr bb x) = n)"

definition fair_own :: "ledger \<Rightarrow> (nat \<times> nat \<times> u64) set \<Rightarrow> nat \<Rightarrow> nat \<Rightarrow> nat option \<Rightarrow> bool \<Rightarrow> nat \<Rightarrow> nat \<Rightarrow> handed \<Rightarrow> budgetp \<Rightarrow> bool" where
  "fair_own R V N g0 g r h e W p \<longleftrightarrow> g = Some g0 \<and> dom W \<inter> outst R = {} \<and> fst ` V \<subseteq> outst R \<and>
     (case p of None \<Rightarrow> False
      | Some bb \<Rightarrow> 0 < g0 \<and> g0 < next_grp bb \<and> settled bb (with_client R g0 r h e (dom W)) \<and> waits_for V N bb \<and>
          (\<forall>x n. W x = Some n \<longrightarrow> w_group (wtr bb x) = g0 \<and> w_n (wtr bb x) = n))"

lemma fair_own_Some:
  "fair_own R V N g0 g r h e W (Some bb) \<longleftrightarrow> g = Some g0 \<and> dom W \<inter> outst R = {} \<and> fst ` V \<subseteq> outst R \<and>
     0 < g0 \<and> g0 < next_grp bb \<and> settled bb (with_client R g0 r h e (dom W)) \<and> waits_for V N bb \<and>
     (\<forall>x n. W x = Some n \<longrightarrow> w_group (wtr bb x) = g0 \<and> w_n (wtr bb x) = n)"
  by (simp add: fair_own_def)

lemma with_client_simps [simp]:
  "outst (with_client R g0 r h e W) = outst R \<union> W" "regs (with_client R g0 r h e W) g0 = regs R g0 + of_bool r"
  "held (with_client R g0 r h e W) g0 = held R g0 + h" "hesc (with_client R g0 r h e W) g0 = hesc R g0 + e"
  by (simp_all add: with_client_def)

lemma dom_forget: "dom (forget w W) = dom W - set_option w"
  by (auto simp: forget_def split: option.splits)

lemma forget_Some: "forget w W x = Some n \<Longrightarrow> W x = Some n \<and> x \<notin> set_option w"
  by (auto simp: forget_def split: option.splits if_splits)

lemma waits_kept: "waits_for V N bb \<Longrightarrow> fst ` V \<subseteq> S \<Longrightarrow> others_kept S bb b \<Longrightarrow> waits_for V N b"
  by (fastforce simp: waits_for_def others_kept_def)

lemma fair_reserve:
  assumes own: "fair_own R V N g0 g r h e W (Some bb)" and reg: "r \<or> g = None" and room: "reserve_room n bb"
    and handed: "handed_ok w n W"
  shows "\<exists>res. reserveFor n force g w bb = Some res \<and> reserved_ok (fair_own R V N g0) g r h e W n force w res"
proof -
  let ?L = "with_client R g0 r h e (dom W)"
  have o: "g = Some g0" "dom W \<inter> outst R = {}" "0 < g0" "g0 < next_grp bb" "settled bb ?L"
    and V: "fst ` V \<subseteq> outst R" "waits_for V N bb"
    and W: "\<And>x n. W x = Some n \<Longrightarrow> w_group (wtr bb x) = g0 \<and> w_n (wtr bb x) = n"
    using own by (auto simp: fair_own_Some)
  have r: "r" using reg o(1) by simp
  have pre: "reserve_pre n g0 w bb ?L"
    using room handed r o W by (auto simp: reserve_pre_def reserve_room_def handed_ok_def split: option.splits)
  obtain res where res: "reserve_fair n force g0 w bb = Some res" "reserve_post n force g0 w bb ?L res"
    using reserve_fair_ok [OF o(5) pre] by blast
  obtain ok over used w' b where q: "res = (ok, over, used, w', b)" by (metis prod_cases5)
  have keep: "others_kept (outst ?L - set_option w) bb b" and st: "settled b (reserve_ledger n g0 w ok over w' ?L)"
    and fo: "force \<longrightarrow> ok" and w': "if ok then w' = None else \<not> over \<and> (\<exists>x. w' = Some x \<and> w_group (wtr b x) = g0 \<and> w_n (wtr b x) = n \<and>
      (if w = None then x \<notin> outst ?L else w' = w))"
    using res(2) by (auto simp: reserve_post_def q)
  have grp: "g0 < next_grp b" using keep o(4) by (simp add: others_kept_def)
  have over: "over \<longrightarrow> force"
  proof (rule ccontr)
    assume a: "\<not> (over \<longrightarrow> force)"
    then have "ok" using w' by (auto split: if_splits)
    have "bb_fair bb" using settled_fair [OF o(5)] .
    then show False
      using res(1) a \<open>ok\<close> unfolding q
      by (cases w) (auto simp: reserve_none, auto simp: reserve_fair_def Let_def split: if_splits bind_splits)
  qed
  have "fst ` V \<subseteq> outst ?L - set_option w" using V(1) handed o(2) by (fastforce simp: handed_ok_def split: option.splits)
  then have wV: "waits_for V N b" using waits_kept [OF V(2) _ keep] by blast
  have kept: "w_group (wtr b x) = g0 \<and> w_n (wtr b x) = m" if "W x = Some m" "x \<notin> set_option w" for x m
    using keep that W [OF that(1)] by (auto simp: others_kept_def domI)
  have "reserved_ok (fair_own R V N g0) g r h e W n force w res"
  proof (cases ok)
    case True
    have "reserve_ledger n g0 w ok over w' ?L =
        with_client R g0 r (h + unat n) (if over \<and> g \<noteq> None then e + unat n else e) (dom (forget w W))"
      using True o(1,2) handed
      by (intro ledger.equality)
        (auto simp: reserve_ledger_def admitted_def with_client_def dom_forget handed_ok_def domI split: option.splits)
    then show ?thesis
      using st o V(1) wV True w' fo over grp kept
      by (auto simp: reserved_ok_def q fair_own_Some dom_forget dest!: forget_Some)
  next
    case False
    then obtain x where x: "w' = Some x" "w_group (wtr b x) = g0" "w_n (wtr b x) = n" "if w = None then x \<notin> outst ?L else w' = w"
        and no: "\<not> over"
      using w' by auto
    have new: "x \<notin> outst R" using x(1,4) handed o(2) by (auto simp: handed_ok_def split: if_splits option.splits)
    have "reserve_ledger n g0 w ok over w' ?L = with_client R g0 r h e (dom (W(x \<mapsto> n)))"
      using False x(1) by (intro ledger.equality) (auto simp: reserve_ledger_def with_client_def)
    moreover have "w_group (wtr b y) = g0 \<and> w_n (wtr b y) = m" if "(W(x \<mapsto> n)) y = Some m" for y m
      using that x kept [of y m] by (cases "y = x") (auto split: if_splits)
    ultimately show ?thesis
      using st o V(1) wV False fo no grp new x(1,4) by (auto simp: reserved_ok_def q fair_own_Some)
  qed
  then show ?thesis using res(1) settled_fair [OF o(5)] o(1) by (auto simp: reserveFor_def group_def)
qed

lemma fair_release:
  assumes own: "fair_own R V N g0 g r h e W p" and n: "unat n \<le> h" "unat esc \<le> unat n" "unat esc \<le> e"
  shows "\<exists>p'. releaseFor n esc g p = Some p' \<and> fair_own R V N g0 g r (h - unat n) (e - unat esc) W p'"
proof -
  obtain bb where p: "p = Some bb" using own by (cases p) (auto simp: fair_own_def)
  let ?L = "with_client R g0 r h e (dom W)"
  have o: "g = Some g0" "dom W \<inter> outst R = {}" "0 < g0" "g0 < next_grp bb" "settled bb ?L"
    and V: "fst ` V \<subseteq> outst R" "waits_for V N bb"
    and W: "\<And>x n. W x = Some n \<Longrightarrow> w_group (wtr bb x) = g0 \<and> w_n (wtr bb x) = n"
    using own by (auto simp: fair_own_Some p)
  have "release_pre n esc g0 bb ?L" using n o by (simp add: release_pre_def)
  then obtain b where b: "releaseFor n esc (Some g0) (Some bb) = Some (Some b)" "settled b (released g0 n esc ?L)"
      "others_kept (outst ?L) bb b" "next_grp b = next_grp bb"
    using releaseFor_fair_ok [OF o(5)] by blast
  have "released g0 n esc ?L = with_client R g0 r (h - unat n) (e - unat esc) (dom W)"
    using n by (intro ledger.equality) (auto simp: released_def with_client_def)
  moreover have "w_group (wtr b x) = g0 \<and> w_n (wtr b x) = m" if "W x = Some m" for x m
    using b(3) W [OF that] that by (auto simp: others_kept_def domI)
  moreover have "waits_for V N b" using waits_kept [OF V(2) _ b(3)] V(1) by auto
  ultimately show ?thesis using b o V(1) by (auto simp: p fair_own_Some)
qed

lemma fair_cancel:
  assumes own: "fair_own R V N g0 g r h e W p" and w: "w = None \<or> W (the w) \<noteq> None"
  shows "\<exists>p'. cancel w p = Some p' \<and> fair_own R V N g0 g r h e (forget w W) p'"
proof (cases w)
  case None
  then show ?thesis using own by (auto simp: cancel_def forget_def split: option.splits)
next
  case (Some x)
  obtain bb where p: "p = Some bb" using own by (cases p) (auto simp: fair_own_def)
  let ?L = "with_client R g0 r h e (dom W)"
  have o: "g = Some g0" "dom W \<inter> outst R = {}" "0 < g0" "g0 < next_grp bb" "settled bb ?L"
    and V: "fst ` V \<subseteq> outst R" "waits_for V N bb"
    and W: "\<And>x n. W x = Some n \<Longrightarrow> w_group (wtr bb x) = g0 \<and> w_n (wtr bb x) = n"
    using own by (auto simp: fair_own_Some p)
  have x: "x \<in> dom W" using w Some by auto
  then have "x \<in> outst ?L" by simp
  from cancel_fair_ok [OF o(5) this] obtain b where b: "cancel (Some x) (Some bb) = Some (Some b)"
      "settled b (?L\<lparr>outst := outst ?L - {x}\<rparr>)" "others_kept (outst ?L - {x}) bb b" "next_grp b = next_grp bb"
    by blast
  have "?L\<lparr>outst := outst ?L - {x}\<rparr> = with_client R g0 r h e (dom (forget w W))"
    using o(2) x Some by (intro ledger.equality) (auto simp: with_client_def dom_forget)
  moreover have "w_group (wtr b y) = g0 \<and> w_n (wtr b y) = m" if "forget w W y = Some m" for y m
    using b(3) forget_Some [OF that] W [of y m] Some by (auto simp: others_kept_def domI)
  moreover have "waits_for V N b" using waits_kept [OF V(2) _ b(3)] V(1) x o(2) by auto
  ultimately show ?thesis using b o V(1) by (auto simp: p Some fair_own_Some dom_forget)
qed

lemma fair_unregister:
  assumes own: "fair_own R V N g0 (Some x) True h e W p"
  shows "fair_own R V N g0 (Some x) False h e W (unregister (Some x) p)"
proof -
  obtain bb where p: "p = Some bb" using own by (cases p) (auto simp: fair_own_def)
  let ?L = "with_client R g0 True h e (dom W)"
  have o: "x = g0" "dom W \<inter> outst R = {}" "0 < g0" "g0 < next_grp bb" "settled bb ?L"
    and V: "fst ` V \<subseteq> outst R" "waits_for V N bb"
    and W: "\<And>x n. W x = Some n \<Longrightarrow> w_group (wtr bb x) = g0 \<and> w_n (wtr bb x) = n"
    using own by (auto simp: fair_own_Some p)
  have "settled (unregisterLocked g0 bb) (?L\<lparr>regs := (regs ?L)(g0 := regs ?L g0 - 1)\<rparr>)"
    by (rule unregisterLocked_ok [OF o(5,3,4)]) simp
  moreover have "?L\<lparr>regs := (regs ?L)(g0 := regs ?L g0 - 1)\<rparr> = with_client R g0 False h e (dom W)"
    by (intro ledger.equality) (auto simp: with_client_def)
  moreover have "wtr (unregisterLocked g0 bb) = wtr bb" "next_grp (unregisterLocked g0 bb) = next_grp bb"
    by (simp_all add: unregisterLocked_def Let_def set_grp_def)
  ultimately show ?thesis using o V W by (simp add: p unregister_def fair_own_Some waits_for_def)
qed

interpretation fair_shared: shared_budget "fair_own R V N g0" for R V N g0
proof unfold_locales
  show "\<exists>res. reserveFor n force g w bb = Some res \<and> reserved_ok (fair_own R V N g0) g r h e W n force w res"
    if "fair_own R V N g0 g r h e W (Some bb)" "r \<or> g = None" "reserve_room n bb" "handed_ok w n W" for g r h e W bb n w force
    using that by (rule fair_reserve)
qed (use fair_release fair_cancel fair_unregister in \<open>auto simp: fair_own_def\<close>)

end
