(* ===== verification/AckInv.thy ===== *)
theory AckInv
  imports AckBuffer SharedBudget
begin

text \<open>
  The invariant of the acknowledgement buffer, in layers: the window of slots and sequence
  numbers, the events, the byte accounting, the retired slots and the ACK requests, and the
  tracked receipts with the delivery cursor. \<open>removed\<close> describes the state after the removal
  of a prefix field by field, and the lemmas of the last section show that it keeps every
  layer.
\<close>

section \<open>Events\<close>

definition event_wf :: "Event \<Rightarrow> bool" where
  "event_wf e \<longleftrightarrow> distinct (ev_waiters e) \<and> (\<forall>w \<in> set (ev_waiters e). ev_chan e w = chan_make) \<and>
     (ev_v e \<longrightarrow> ev_waiters e = [])"

lemma event_wf_inv: "event_inv s \<Longrightarrow> event_wf (es_event s)"
  by (simp add: event_inv_def event_wf_def Let_def)

lemma Event_Set_wf:
  assumes "event_wf e"
  obtains e' where "Event_Set e = Some e'" "event_wf e'" "ev_v e'"
proof -
  have "\<exists>e'. Event_Set e = Some e' \<and> event_wf e' \<and> ev_v e'"
    using assms signal_waiters_ok [of "ev_waiters e" "ev_chan e"]
    by (cases "ev_waiters e = []") (simp_all add: Event_Set_def event_wf_def Let_def)
  then show thesis using that by blast
qed

lemma Event_Clear_wf [simp]: "event_wf e \<Longrightarrow> event_wf (Event_Clear e)" "\<not> ev_v (Event_Clear e)"
  by (auto simp: Event_Clear_def event_wf_def)

lemma NewEvent_wf [simp]: "event_wf NewEvent" "\<not> ev_v NewEvent"
  by (simp_all add: NewEvent_def event_wf_def)

section \<open>The layers\<close>

abbreviation nfree :: "AckBuffer \<Rightarrow> nat" where "nfree b \<equiv> unat (nextIndexFree b)"
abbreviation ndel :: "AckBuffer \<Rightarrow> nat" where "ndel b \<equiv> unat (nextIndexToDeliver b)"
abbreviation slot_of :: "AckBuffer \<Rightarrow> u64 \<Rightarrow> nat" where "slot_of b q \<equiv> unat (q - firstSeqNum b)"

definition held_flag :: "AckBuffer \<Rightarrow> bool" where
  "held_flag b \<longleftrightarrow> lastFlaggedSeq b \<noteq> 0 \<and> firstSeqNum b \<le> lastFlaggedSeq b"

definition win_ok :: "AckBuffer \<Rightarrow> bool" where
  "win_ok b \<longleftrightarrow>
     0 < length (buff b) \<and> length (buff b) \<le> 35184372088832 \<and>
     nfree b \<le> length (buff b) \<and> unat (currentCapacity b) \<le> length (buff b) \<and>
     0 < unat (firstSeqNum b) \<and> unat (nextSeqNum b) = unat (firstSeqNum b) + nfree b \<and>
     (\<forall>i < nfree b. \<exists>m. buff b ! i = Some m \<and> SeqNum m = firstSeqNum b + of_nat i) \<and>
     (\<forall>i < length (buff b). nfree b \<le> i \<longrightarrow> buff b ! i = None) \<and>
     ndel b \<le> nfree b \<and> ackEvery b \<noteq> 0"

definition wake_ok :: "AckBuffer \<Rightarrow> bool" where
  "wake_ok b \<longleftrightarrow> (\<forall>c. wake b = Some c \<longrightarrow> c < next_wake b \<and> \<not> wakeClosed b c)"

definition ev_ok :: "AckBuffer \<Rightarrow> bool" where
  "ev_ok b \<longleftrightarrow> event_wf (isAvailable b) \<and> event_wf (isReadyToDeliver b) \<and> event_wf (isEmpty b) \<and>
     (ev_v (isAvailable b) \<longleftrightarrow> nextIndexFree b < currentCapacity b) \<and>
     (ev_v (isEmpty b) \<longleftrightarrow> \<not> ev_v (isReadyToDeliver b)) \<and> wake_ok b"

text \<open>
  Inside the delivery loop a slot that is left to deliver is announced; outside it the ready
  event says exactly whether there is one.
\<close>

definition loop_ok :: "AckBuffer \<Rightarrow> bool" where
  "loop_ok b \<longleftrightarrow> (ndel b < nfree b \<longrightarrow> ev_v (isReadyToDeliver b))"

definition ready_ok :: "AckBuffer \<Rightarrow> bool" where
  "ready_ok b \<longleftrightarrow> (ev_v (isReadyToDeliver b) \<longleftrightarrow> ndel b < nfree b)"

definition acct_ok :: "AckBuffer \<Rightarrow> bool" where
  "acct_ok b \<longleftrightarrow>
     (isClosed b \<longrightarrow> \<not> isRunning b \<and> bytes b = 0 \<and> escapeBytes b = 0) \<and>
     (if accounting b then length (sizes b) = nfree b else sizes b = [] \<and> bytes b = 0 \<and> escapeBytes b = 0) \<and>
     (\<not> isClosed b \<longrightarrow> unat (bytes b) = sum_list (map unat (sizes b))) \<and>
     (escapeBytes b \<noteq> 0 \<longrightarrow> slot_of b (escapeSeq b) < length (sizes b) \<and> sizes b ! slot_of b (escapeSeq b) = escapeBytes b)"

definition ret_ok :: "AckBuffer \<Rightarrow> bool" where
  "ret_ok b \<longleftrightarrow> finite (retired b) \<and> (\<forall>q \<in> retired b. slot_of b q < nfree b)"

text \<open>
  \<open>lastFlaggedSeq\<close>, when it names a held slot, names a message that is not retired and asks
  for an acknowledgement. A buffer beyond its own limit holds such a message, and without
  that message it would be within the limit.
\<close>

definition flag_ok :: "AckBuffer \<Rightarrow> bool" where
  "flag_ok b \<longleftrightarrow>
     (held_flag b \<longrightarrow> slot_of b (lastFlaggedSeq b) < nfree b \<and> lastFlaggedSeq b \<notin> retired b \<and>
        (\<exists>m. buff b ! slot_of b (lastFlaggedSeq b) = Some m \<and> AckRequested m)) \<and>
     (maxBytes b \<noteq> 0 \<and> maxBytes b < bytes b \<longrightarrow>
        held_flag b \<and> unat (bytes b) \<le> unat (maxBytes b) + unat (sizes b ! slot_of b (lastFlaggedSeq b)))"

definition slots_ok :: "AckBuffer \<Rightarrow> bool" where
  "slots_ok b \<longleftrightarrow> win_ok b \<and> ev_ok b \<and> acct_ok b \<and> ret_ok b \<and> flag_ok b"

lemma slots_okD: "slots_ok b \<Longrightarrow> win_ok b" "slots_ok b \<Longrightarrow> ev_ok b" "slots_ok b \<Longrightarrow> acct_ok b" "slots_ok b \<Longrightarrow> ret_ok b"
    "slots_ok b \<Longrightarrow> flag_ok b" "slots_ok b \<Longrightarrow> wake_ok b"
  by (simp_all add: slots_ok_def ev_ok_def)

text \<open>
  The tracked entries are in the order of their slots, their cells tell retained from
  retired, and the cursor is the first entry at or after the delivery index.
\<close>

definition head_id :: "trackedAdmission list \<Rightarrow> nat option" where
  "head_id ts = (case ts of [] \<Rightarrow> None | t # _ \<Rightarrow> Some (t_id t))"

definition cursor_of :: "AckBuffer \<Rightarrow> nat option" where
  "cursor_of b = head_id (filter (\<lambda>t. ndel b \<le> slot_of b (t_seq t)) (receipts b))"

definition list_ok :: "AckBuffer \<Rightarrow> bool" where
  "list_ok b \<longleftrightarrow>
     sorted_wrt (\<lambda>s t. slot_of b (t_seq s) < slot_of b (t_seq t)) (receipts b) \<and>
     (\<forall>t \<in> set (receipts b). slot_of b (t_seq t) < nfree b) \<and>
     distinct (map t_id (receipts b)) \<and> distinct (map t_state (receipts b)) \<and>
     (\<forall>t \<in> set (receipts b). t_id t < next_entry b \<and> (t_max t \<noteq> 0 \<longrightarrow> t_sends t \<le> t_max t) \<and>
        cells b (t_state t) = (if t_seq t \<in> retired b then ReceiptRetired else ReceiptRetained))"

definition rec_ok :: "AckBuffer \<Rightarrow> bool" where
  "rec_ok b \<longleftrightarrow> list_ok b \<and> deliverCursor b = cursor_of b"

text \<open>
  A buffer that holds only frames without a transmission limit: nothing is retired, and the
  escape message is not after the last message that asks for an acknowledgement.
\<close>

definition soft_ok :: "AckBuffer \<Rightarrow> bool" where
  "soft_ok b \<longleftrightarrow>
     (\<forall>t \<in> set (receipts b). t_max t = 0) \<and> retired b = {} \<and>
     (escapeBytes b \<noteq> 0 \<longrightarrow> escapeSeq b \<le> lastFlaggedSeq b)"

section \<open>Windows of sequence numbers\<close>

lemma win_size: "win_ok b \<Longrightarrow> unat (of_nat (length (buff b)) :: u64) = length (buff b)"
  by (intro unat_of_nat_exact) (simp add: win_ok_def)

lemma win_small: "win_ok b \<Longrightarrow> nfree b \<le> 35184372088832"
  by (simp add: win_ok_def)

lemma slot_of_nth: "i < 2 ^ 64 \<Longrightarrow> unat (a + of_nat i - a :: u64) = i"
  by (simp add: unat_of_nat)

lemma slot_shift: "k \<le> unat ((q :: u64) - a) \<Longrightarrow> unat (q - (a + of_nat k)) = unat (q - a) - k"
proof -
  assume k: "k \<le> unat (q - a)"
  have k': "unat (of_nat k :: u64) = k" using k unat_less_2_64 [of "q - a"] by (intro unat_of_nat_exact) (simp del: unat_less_2_64)
  then have "(of_nat k :: u64) \<le> q - a" using k by (simp add: word_le_nat_alt)
  then have "unat (q - a - of_nat k) = unat (q - a) - k" by (simp add: unat_sub k')
  then show ?thesis by (simp add: algebra_simps)
qed

lemma slot_seq: "a + of_nat (unat (q - a)) = (q :: u64)"
  by simp

lemma slot_inj: "unat (p - a) = unat (q - a) \<Longrightarrow> p = (q :: u64)"
  by (simp add: word_unat_eq_iff [symmetric])

lemma in_window:
  assumes "win_ok b"
  shows "slot_of b q < nfree b \<longleftrightarrow> firstSeqNum b \<le> q \<and> q < nextSeqNum b"
proof -
  have n: "unat (nextSeqNum b) = unat (firstSeqNum b) + nfree b" using assms by (simp add: win_ok_def)
  show ?thesis
  proof (cases "firstSeqNum b \<le> q")
    case True
    then show ?thesis using n by (simp add: unat_diff_exact word_less_nat_alt word_le_nat_alt) linarith
  next
    case False
    then have "unat (q - firstSeqNum b) = 2 ^ 64 + unat q - unat (firstSeqNum b)"
      by (simp add: unat_sub_if_size word_le_nat_alt word_size)
    then show ?thesis using False n unat_less_2_64 [of "nextSeqNum b"] by (simp del: unat_less_2_64)
  qed
qed

lemma slot_of_ge: "firstSeqNum b \<le> q \<Longrightarrow> unat q = unat (firstSeqNum b) + slot_of b q"
  by (simp add: unat_diff_exact word_le_nat_alt)

lemma sum_list_nth_le: "i < length xs \<Longrightarrow> xs ! i \<le> sum_list (xs :: nat list)"
  by (simp add: member_le_sum_list)

section \<open>The wake channel\<close>

lemma wake_refl: "wake b = w \<Longrightarrow> b\<lparr>wakeClosed := wakeClosed b, wake := w\<rparr> = b"
    "wake b = w \<Longrightarrow> b\<lparr>wake := w, wakeClosed := wakeClosed b, next_wake := next_wake b\<rparr> = b"
  by auto

lemma signalLocked_ok:
  assumes "wake_ok b"
  shows "\<exists>wc. signalLocked b = Some (b\<lparr>wakeClosed := wc, wake := None\<rparr>) \<and> (\<forall>c. wake b = Some c \<longrightarrow> wc c)"
proof (cases "wake b")
  case None
  then show ?thesis using wake_refl(1) [OF None] by (intro exI [of _ "wakeClosed b"]) (simp add: signalLocked_def)
next
  case (Some c)
  then show ?thesis
    using assms by (intro exI [of _ "(wakeClosed b)(c := True)"]) (simp add: signalLocked_def wake_ok_def)
qed

lemma ensure_wake_ok:
  assumes "wake_ok b" and "ensure_wake b = (c, b')"
  shows "\<exists>wc n. b' = b\<lparr>wake := Some c, wakeClosed := wc, next_wake := n\<rparr> \<and> c < n \<and> \<not> wc c"
proof (cases "wake b")
  case None
  then show ?thesis
    using assms by (intro exI [of _ "(wakeClosed b)(c := False)"] exI [of _ "Suc (next_wake b)"]) (auto simp: ensure_wake_def)
next
  case (Some d)
  then show ?thesis
    using assms wake_refl(2) [OF Some]
    by (intro exI [of _ "wakeClosed b"] exI [of _ "next_wake b"]) (auto simp: ensure_wake_def wake_ok_def)
qed

section \<open>Removing a prefix\<close>

definition same_frame :: "AckBuffer \<Rightarrow> AckBuffer \<Rightarrow> bool" where
  "same_frame b b' \<longleftrightarrow>
     receipts b' = receipts b \<and> deliverCursor b' = deliverCursor b \<and> releasedRetired b' = releasedRetired b \<and>
     isClosed b' = isClosed b \<and> isRunning b' = isRunning b \<and> nextSeqNum b' = nextSeqNum b \<and> ackEvery b' = ackEvery b \<and>
     currentCapacity b' = currentCapacity b \<and> accounting b' = accounting b \<and> maxBytes b' = maxBytes b \<and>
     b_group b' = b_group b \<and> registered b' = registered b \<and> escapeSeq b' = escapeSeq b \<and>
     lastFlaggedSeq b' = lastFlaggedSeq b \<and> cells b' = cells b \<and> next_entry b' = next_entry b \<and>
     onAckCalls b' = onAckCalls b \<and> onAck b' = onAck b"

definition removed :: "nat \<Rightarrow> AckBuffer \<Rightarrow> AckBuffer \<Rightarrow> bool" where
  "removed k b b' \<longleftrightarrow>
     same_frame b b' \<and> wake b' = None \<and>
     firstSeqNum b' = firstSeqNum b + of_nat k \<and> nextIndexFree b' = of_nat (nfree b - k) \<and>
     nextIndexToDeliver b' = of_nat (ndel b - k) \<and> sizes b' = drop k (sizes b) \<and>
     retired b' = {q \<in> retired b. k \<le> slot_of b q} \<and>
     escapeBytes b' = (if escapeBytes b \<noteq> 0 \<and> k \<le> slot_of b (escapeSeq b) then escapeBytes b else 0) \<and>
     (if isClosed b then bytes b' = 0 else unat (bytes b') = sum_list (map unat (drop k (sizes b)))) \<and>
     event_wf (isAvailable b') \<and> (ev_v (isAvailable b') \<longleftrightarrow> nfree b - k < unat (currentCapacity b)) \<and>
     (if ndel b - k < nfree b - k then isReadyToDeliver b' = isReadyToDeliver b \<and> isEmpty b' = isEmpty b
      else event_wf (isReadyToDeliver b') \<and> event_wf (isEmpty b') \<and> \<not> ev_v (isReadyToDeliver b') \<and> ev_v (isEmpty b')) \<and>
     length (buff b') \<le> length (buff b) \<and> 0 < length (buff b') \<and> nfree b - k \<le> length (buff b') \<and>
     unat (currentCapacity b) \<le> length (buff b') \<and>
     take (nfree b - k) (buff b') = drop k (take (nfree b) (buff b)) \<and>
     (\<forall>i < length (buff b'). nfree b - k \<le> i \<longrightarrow> buff b' ! i = None)"

lemma unat_of_nat_diff [simp]: "unat (of_nat (unat (x :: u64) - k) :: u64) = unat x - k"
  by (rule unat_of_nat_exact) (use unat_less_2_64 [of x] in \<open>simp del: unat_less_2_64\<close>)

lemma take_drop_nth:
  assumes "take (n - k) bs = drop k (take n xs)" and "n \<le> length xs" and "n - k \<le> length bs" and "i < n - k"
  shows "bs ! i = xs ! (k + i)"
proof -
  have "bs ! i = take (n - k) bs ! i" using assms(4) by simp
  also have "\<dots> = xs ! (k + i)" unfolding assms(1) using assms by simp
  finally show ?thesis .
qed

lemma removed_frame:
  assumes "removed k b b'"
  shows "receipts b' = receipts b" "deliverCursor b' = deliverCursor b" "releasedRetired b' = releasedRetired b"
    "isClosed b' = isClosed b" "isRunning b' = isRunning b" "nextSeqNum b' = nextSeqNum b" "ackEvery b' = ackEvery b"
    "currentCapacity b' = currentCapacity b" "accounting b' = accounting b" "maxBytes b' = maxBytes b"
    "b_group b' = b_group b" "registered b' = registered b" "escapeSeq b' = escapeSeq b"
    "lastFlaggedSeq b' = lastFlaggedSeq b" "cells b' = cells b" "next_entry b' = next_entry b" "wake b' = None"
    "onAckCalls b' = onAckCalls b" "onAck b' = onAck b"
  using assms by (simp_all only: removed_def same_frame_def)

lemma removed_fields:
  assumes "removed k b b'"
  shows "firstSeqNum b' = firstSeqNum b + of_nat k" "nextIndexFree b' = of_nat (nfree b - k)"
    "nextIndexToDeliver b' = of_nat (ndel b - k)" "sizes b' = drop k (sizes b)"
    "retired b' = {q \<in> retired b. k \<le> slot_of b q}"
    "escapeBytes b' = (if escapeBytes b \<noteq> 0 \<and> k \<le> slot_of b (escapeSeq b) then escapeBytes b else 0)"
    "if isClosed b then bytes b' = 0 else unat (bytes b') = sum_list (map unat (drop k (sizes b)))"
    "event_wf (isAvailable b')" "ev_v (isAvailable b') \<longleftrightarrow> nfree b - k < unat (currentCapacity b)"
    "if ndel b - k < nfree b - k then isReadyToDeliver b' = isReadyToDeliver b \<and> isEmpty b' = isEmpty b
     else event_wf (isReadyToDeliver b') \<and> event_wf (isEmpty b') \<and> \<not> ev_v (isReadyToDeliver b') \<and> ev_v (isEmpty b')"
    "length (buff b') \<le> length (buff b)" "0 < length (buff b')" "nfree b - k \<le> length (buff b')"
    "unat (currentCapacity b) \<le> length (buff b')"
    "take (nfree b - k) (buff b') = drop k (take (nfree b) (buff b))"
    "\<forall>i < length (buff b'). nfree b - k \<le> i \<longrightarrow> buff b' ! i = None"
  using assms by (simp_all only: removed_def) (elim conjE, assumption)+

lemma removed_nth:
  assumes "win_ok b" and "removed k b b'" and "i < nfree b - k"
  shows "buff b' ! i = buff b ! (k + i)"
  by (rule take_drop_nth [OF removed_fields(15) [OF assms(2)] _ removed_fields(13) [OF assms(2)] assms(3)])
    (use assms(1) in \<open>simp add: win_ok_def\<close>)

lemma removed_indices:
  assumes "removed k b b'"
  shows "nfree b' = nfree b - k" "ndel b' = ndel b - k"
  by (simp_all add: removed_fields [OF assms])

lemma removed_first:
  assumes "win_ok b" and "k \<le> nfree b" and "removed k b b'"
  shows "unat (firstSeqNum b') = unat (firstSeqNum b) + k"
proof -
  have "unat (firstSeqNum b) + k < 2 ^ 64"
    using assms(1,2) unat_less_2_64 [of "nextSeqNum b"] by (simp add: win_ok_def del: unat_less_2_64)
  moreover have "unat (of_nat k :: u64) = k" using calculation by (intro unat_of_nat_exact) simp
  ultimately show ?thesis by (simp add: removed_fields [OF assms(3)] unat_add_exact)
qed

lemma removed_slot: "removed k b b' \<Longrightarrow> k \<le> slot_of b q \<Longrightarrow> slot_of b' q = slot_of b q - k"
  by (simp add: removed_fields(1) slot_shift)

lemma removed_win:
  assumes "win_ok b" and "k \<le> nfree b" and "removed k b b'"
  shows "win_ok b'"
proof -
  note w = assms(1) [unfolded win_ok_def] and i = removed_indices [OF assms(3)] and f = removed_first [OF assms]
    and fr = removed_frame [OF assms(3)] and fi = removed_fields [OF assms(3)]
  have "\<exists>m. buff b' ! i = Some m \<and> SeqNum m = firstSeqNum b' + of_nat i" if "i < nfree b'" for i
  proof -
    have "k + i < nfree b" using that i by simp
    with w obtain m where "buff b ! (k + i) = Some m" "SeqNum m = firstSeqNum b + of_nat (k + i)" by blast
    then show ?thesis using that removed_nth [OF assms(1,3), of i] i(1) by (simp add: fi(1) algebra_simps)
  qed
  moreover have "\<forall>j < length (buff b'). nfree b' \<le> j \<longrightarrow> buff b' ! j = None" using fi(16) i by simp
  ultimately show ?thesis
    unfolding win_ok_def using w i f fr fi(11-14) assms(2) diff_le_mono [of "ndel b" "nfree b" k] by (simp del: unat_less_2_64)
qed

lemma removed_ev:
  assumes "slots_ok b" and "removed k b b'"
  shows "ev_ok b'" "loop_ok b \<Longrightarrow> ready_ok b'"
proof -
  note i = removed_indices [OF assms(2)] and fi = removed_fields [OF assms(2)]
    and fr = removed_frame [OF assms(2)]
  show "ev_ok b'"
    using slots_okD(2) [OF assms(1)] fi(8-10) by (auto simp: ev_ok_def fr wake_ok_def word_less_nat_alt i split: if_splits)
  show "ready_ok b'" if "loop_ok b"
  proof (cases "ndel b - k < nfree b - k")
    case True
    then have "ndel b < nfree b" by linarith
    then show ?thesis using True that fi(10) by (simp add: ready_ok_def loop_ok_def i)
  next
    case False
    then show ?thesis using fi(10) by (simp add: ready_ok_def i)
  qed
qed

lemma removed_acct:
  assumes "slots_ok b" and "k \<le> nfree b" and "removed k b b'"
  shows "acct_ok b'"
proof -
  note fi = removed_fields [OF assms(3)] and fr = removed_frame [OF assms(3)]
    and a = slots_okD(3) [OF assms(1), unfolded acct_ok_def] and i = removed_indices [OF assms(3)]
  have "bytes b' = 0" if "\<not> accounting b"
    using that a fi(7) by (auto simp: unat_eq_0 split: if_splits)
  moreover have "slot_of b' (escapeSeq b) < length (sizes b') \<and> sizes b' ! slot_of b' (escapeSeq b) = escapeBytes b'" if "escapeBytes b' \<noteq> 0"
  proof -
    have e: "escapeBytes b \<noteq> 0" "k \<le> slot_of b (escapeSeq b)" "escapeBytes b' = escapeBytes b" using that fi(6) by (auto split: if_splits)
    then show ?thesis using a removed_slot [OF assms(3) e(2)] by (simp add: fi(4) diff_less_mono)
  qed
  ultimately show ?thesis using a fi(6,7) by (auto simp: acct_ok_def fr fi(4) i split: if_splits)
qed

lemma removed_over:
  assumes "slots_ok b" and "k \<le> nfree b" and "removed k b b'" and over: "maxBytes b' \<noteq> 0" "maxBytes b' < bytes b'"
  shows "held_flag b' \<and> unat (bytes b') \<le> unat (maxBytes b') + unat (sizes b' ! slot_of b' (lastFlaggedSeq b'))"
proof -
  note w = slots_okD(1) [OF assms(1)] and fl = slots_okD(5) [OF assms(1), unfolded flag_ok_def]
    and ac = slots_okD(3) [OF assms(1), unfolded acct_ok_def]
  note fi = removed_fields [OF assms(3)] and fr = removed_frame [OF assms(3)] and g = removed_first [OF w assms(2,3)]
  let ?j = "slot_of b (lastFlaggedSeq b)"
  have op: "\<not> isClosed b" using fi(7) over(2) by auto
  then have bs: "unat (bytes b') = sum_list (map unat (drop k (sizes b)))" "unat (bytes b) = sum_list (map unat (sizes b))"
    using fi(7) ac by auto
  then have le: "unat (bytes b') \<le> unat (bytes b)" using sum_list_drop_le [of k "map unat (sizes b)"] by (simp add: drop_map)
  then have h: "held_flag b" "unat (bytes b) \<le> unat (maxBytes b) + unat (sizes b ! ?j)" "?j < nfree b"
    using fl over by (auto simp: fr(10) word_less_nat_alt)
  have len: "?j < length (sizes b)" using h(3) ac over(2) le by (auto simp: word_less_nat_alt split: if_splits)
  have k: "k \<le> ?j"
  proof (rule ccontr)
    assume "\<not> k \<le> ?j"
    then have "unat (sizes b ! ?j) \<le> sum_list (take k (map unat (sizes b)))"
      using sum_list_nth_le [of ?j "take k (map unat (sizes b))"] len by simp
    then have "unat (bytes b') \<le> unat (maxBytes b)"
      using bs h(2) sum_list_take_drop [of k "map unat (sizes b)"] by (simp add: drop_map)
    then show False using over(2) by (simp add: fr(10) word_less_nat_alt)
  qed
  have f: "firstSeqNum b \<le> lastFlaggedSeq b" "lastFlaggedSeq b \<noteq> 0" using h(1) by (simp_all add: held_flag_def)
  have "held_flag b'" using f k g slot_of_ge [OF f(1)] by (simp add: held_flag_def fr(14) word_le_nat_alt)
  moreover have "sizes b' ! slot_of b' (lastFlaggedSeq b') = sizes b ! ?j"
    using removed_slot [OF assms(3) k] k len by (simp add: fi(4) fr(14))
  ultimately show ?thesis using h(2) le by (simp add: fr(10))
qed

lemma removed_ret_flag:
  assumes "slots_ok b" and "k \<le> nfree b" and "removed k b b'"
  shows "ret_ok b'" "flag_ok b'"
proof -
  note w = slots_okD(1) [OF assms(1)]
  note fi = removed_fields [OF assms(3)] and fr = removed_frame [OF assms(3)] and i = removed_indices [OF assms(3)]
    and r = slots_okD(4) [OF assms(1), unfolded ret_ok_def] and s = removed_slot [OF assms(3)]
  show "ret_ok b'" using r s by (auto simp: ret_ok_def fi(5) i intro: diff_less_mono)
  have "slot_of b' (lastFlaggedSeq b') < nfree b' \<and> lastFlaggedSeq b' \<notin> retired b' \<and>
        (\<exists>m. buff b' ! slot_of b' (lastFlaggedSeq b') = Some m \<and> AckRequested m)" if h: "held_flag b'"
  proof -
    note g = removed_first [OF w assms(2,3)]
    have le: "firstSeqNum b \<le> lastFlaggedSeq b" and k: "k \<le> slot_of b (lastFlaggedSeq b)"
      using h g by (auto simp: held_flag_def fr word_le_nat_alt unat_sub)
    then have "held_flag b" using h by (simp add: held_flag_def fr)
    then obtain m where m: "slot_of b (lastFlaggedSeq b) < nfree b" "lastFlaggedSeq b \<notin> retired b"
        "buff b ! slot_of b (lastFlaggedSeq b) = Some m" "AckRequested m"
      using slots_okD(5) [OF assms(1)] by (auto simp: flag_ok_def)
    then show ?thesis
      using removed_nth [OF w assms(3), of "slot_of b (lastFlaggedSeq b) - k"] k s [OF k] by (simp add: fr fi(5) i diff_less_mono)
  qed
  then show "flag_ok b'" using removed_over [OF assms] unfolding flag_ok_def by blast
qed

lemma removed_slots:
  assumes "slots_ok b" and "k \<le> nfree b" and "removed k b b'"
  shows "slots_ok b'"
  unfolding slots_ok_def
  using removed_win [OF slots_okD(1) [OF assms(1)] assms(2,3)] removed_ev(1) [OF assms(1,3)] removed_acct [OF assms]
    removed_ret_flag [OF assms] by simp

section \<open>Dropping the receipts of a prefix\<close>

lemma head_id_simps [simp]: "head_id [] = None" "head_id (t # ts) = Some (t_id t)"
  by (simp_all add: head_id_def)

lemma head_id_mem: "head_id (filter P ts) = Some i \<Longrightarrow> \<exists>u \<in> set ts. P u \<and> t_id u = i"
  by (induction ts) (auto split: if_splits)

lemma drop_loop_eq:
  "drop_loop frst index acknowledge cursor ts cs rm =
     (dropWhile (\<lambda>t. t_seq t - frst \<le> index) ts,
      (\<lambda>c. if acknowledge \<and> cs c = ReceiptRetained \<and> c \<in> t_state ` set (takeWhile (\<lambda>t. t_seq t - frst \<le> index) ts)
           then ReceiptAcknowledged else cs c),
      rm \<or> cursor \<in> (Some \<circ> t_id) ` set (takeWhile (\<lambda>t. t_seq t - frst \<le> index) ts))"
  by (induction ts arbitrary: cs rm) (auto simp: fun_eq_iff)

lemma sorted_takeWhile_filter:
  fixes f :: "'a \<Rightarrow> nat"
  assumes "sorted_wrt (\<lambda>s t. f s < f t) ts"
  shows "dropWhile (\<lambda>t. f t < k) ts = filter (\<lambda>t. k \<le> f t) ts" "takeWhile (\<lambda>t. f t < k) ts = filter (\<lambda>t. f t < k) ts"
  using assms by (induction ts) (auto simp: not_less empty_filter_conv intro!: filter_True [symmetric])

lemma cursor_drop:
  fixes f :: "trackedAdmission \<Rightarrow> nat"
  assumes "sorted_wrt (\<lambda>s t. f s < f t) ts" and "distinct (map t_id ts)"
  shows "(if \<exists>t \<in> set ts. f t < k \<and> head_id (filter (\<lambda>t. d \<le> f t) ts) = Some (t_id t)
          then head_id (filter (\<lambda>t. k \<le> f t) ts) else head_id (filter (\<lambda>t. d \<le> f t) ts)) =
     head_id (filter (\<lambda>t. d - k \<le> f t - k) (filter (\<lambda>t. k \<le> f t) ts))"
  using assms
proof (induction ts)
  case (Cons t ts)
  have head: "head_id (filter P ts) \<noteq> Some (t_id t)" for P
  proof
    assume "head_id (filter P ts) = Some (t_id t)"
    from head_id_mem [OF this] have "t_id t \<in> t_id ` set ts" by (metis imageI)
    then show False using Cons.prems(2) by simp
  qed
  show ?case
  proof (cases "d \<le> f t")
    case True
    have ids: "t_id t \<noteq> t_id u" if "u \<in> set ts" for u using Cons.prems(2) that by auto
    show ?thesis
    proof (cases "f t < k")
      case False
      then have "d - k \<le> f t - k" using True by simp
      then show ?thesis using True False ids by fastforce
    next
      case True
      then have "d - k = 0" using \<open>d \<le> f t\<close> by simp
      then show ?thesis using True \<open>d \<le> f t\<close> by simp
    qed
  next
    case False
    have IH: "(if \<exists>u \<in> set ts. f u < k \<and> head_id (filter (\<lambda>t. d \<le> f t) ts) = Some (t_id u)
          then head_id (filter (\<lambda>t. k \<le> f t) ts) else head_id (filter (\<lambda>t. d \<le> f t) ts)) =
     head_id (filter (\<lambda>t. d - k \<le> f t - k) (filter (\<lambda>t. k \<le> f t) ts))" using Cons by simp
    show ?thesis
    proof (cases "f t < k")
      case True
      then show ?thesis using IH [unfolded filter_filter] False head by (simp split del: if_split cong: if_cong)
    next
      case ge: False
      then have "\<forall>u \<in> set ts. \<not> f u < k" using Cons.prems(1) by force
      then show ?thesis using IH False ge head by (auto simp: le_diff_iff)
    qed
  qed
qed simp

definition acked_cells :: "nat \<Rightarrow> bool \<Rightarrow> AckBuffer \<Rightarrow> nat \<Rightarrow> ReceiptFrameState" where
  "acked_cells k acknowledge b c =
     (if acknowledge \<and> cells b c = ReceiptRetained \<and> c \<in> t_state ` {t \<in> set (receipts b). slot_of b (t_seq t) < k}
      then ReceiptAcknowledged else cells b c)"

definition kept_receipts :: "nat \<Rightarrow> AckBuffer \<Rightarrow> trackedAdmission list" where
  "kept_receipts k b = filter (\<lambda>t. k \<le> slot_of b (t_seq t)) (receipts b)"

lemma unat_pred_nat: "0 < k \<Longrightarrow> k \<le> unat (x :: u64) \<Longrightarrow> unat (of_nat k - 1 :: u64) = k - 1"
proof -
  assume k: "0 < k" "k \<le> unat x"
  have "unat (of_nat k :: u64) = k" using k(2) unat_less_2_64 [of x] by (intro unat_of_nat_exact) (simp del: unat_less_2_64)
  then show ?thesis using k(1) by (metis neq0_conv unat_0 unat_minus_one)
qed

lemma dropReceipts_eq:
  assumes "0 < k" and "k \<le> nfree b" and "removed k b b1" and "rec_ok b"
  shows "dropReceiptsLocked (firstSeqNum b) (of_nat k - 1) acknowledge b1 =
     b1\<lparr>receipts := kept_receipts k b, cells := acked_cells k acknowledge b,
        deliverCursor := head_id (filter (\<lambda>t. ndel b - k \<le> slot_of b (t_seq t) - k) (kept_receipts k b))\<rparr>"
proof -
  let ?f = "\<lambda>t. slot_of b (t_seq t)"
  have P: "(\<lambda>t. t_seq t - firstSeqNum b \<le> of_nat k - 1) = (\<lambda>t. ?f t < k)"
    using assms(1) unat_pred_nat [OF assms(1,2)] by (auto simp: fun_eq_iff word_le_nat_alt)
  have st: "sorted_wrt (\<lambda>s t. ?f s < ?f t) (receipts b)" "distinct (map t_id (receipts b))"
    and c: "deliverCursor b = head_id (filter (\<lambda>t. ndel b \<le> ?f t) (receipts b))"
    using assms(4) by (simp_all add: rec_ok_def list_ok_def cursor_of_def)
  note fr = removed_frame [OF assms(3)] and td = sorted_takeWhile_filter [OF st(1), of k]
  have mem: "deliverCursor b \<in> (Some \<circ> t_id) ` {t \<in> set (receipts b). ?f t < k} \<longleftrightarrow>
      (\<exists>t \<in> set (receipts b). ?f t < k \<and> deliverCursor b = Some (t_id t))" by auto
  have hd: "map_option t_id (case kept_receipts k b of [] \<Rightarrow> None | t # _ \<Rightarrow> Some t) = head_id (kept_receipts k b)"
    by (simp add: head_id_def split: list.splits)
  show ?thesis
    using cursor_drop [OF st, of k "ndel b", folded c, folded mem kept_receipts_def]
    by (auto simp: dropReceiptsLocked_def drop_loop_eq P td fr kept_receipts_def [symmetric] acked_cells_def fun_eq_iff hd Let_def
        intro!: AckBuffer.equality split: if_splits)
qed

lemma dropReceipts_rec:
  assumes "slots_ok b" and "0 < k" and "k \<le> nfree b" and "removed k b b1" and "rec_ok b"
  shows "rec_ok (dropReceiptsLocked (firstSeqNum b) (of_nat k - 1) acknowledge b1)" (is "rec_ok ?b")
proof -
  note eq = dropReceipts_eq [OF assms(2-5), of acknowledge] and fr = removed_frame [OF assms(4)]
    and fi = removed_fields [OF assms(4)] and i = removed_indices [OF assms(4)] and sl = removed_slot [OF assms(4)]
  note ls = assms(5) [unfolded rec_ok_def list_ok_def]
  have kept: "k \<le> slot_of b (t_seq t)" "t \<in> set (receipts b)" "slot_of b1 (t_seq t) = slot_of b (t_seq t) - k"
    if "t \<in> set (kept_receipts k b)" for t
    using that sl by (auto simp: kept_receipts_def)
  have srt: "sorted_wrt (\<lambda>s t. slot_of b1 (t_seq s) < slot_of b1 (t_seq t)) (kept_receipts k b)"
  proof (rule sorted_wrt_mono_rel)
    show "sorted_wrt (\<lambda>s t. slot_of b (t_seq s) < slot_of b (t_seq t)) (kept_receipts k b)"
      using ls by (simp add: kept_receipts_def sorted_wrt_filter)
    show "slot_of b1 (t_seq s) < slot_of b1 (t_seq t)"
      if "s \<in> set (kept_receipts k b)" "t \<in> set (kept_receipts k b)" "slot_of b (t_seq s) < slot_of b (t_seq t)" for s t
      using kept [OF that(1)] kept [OF that(2)] that(3) by (simp add: diff_less_mono)
  qed
  have distinct_states: "inj_on t_state (set (receipts b))" using ls by (simp add: distinct_map)
  have cell: "acked_cells k acknowledge b (t_state t) = cells b (t_state t)" if "t \<in> set (kept_receipts k b)" for t
  proof -
    have "t_state t \<noteq> t_state u" if "u \<in> set (receipts b)" "slot_of b (t_seq u) < k" for u
    proof
      assume "t_state t = t_state u"
      then have "t = u" using distinct_states kept(2) [OF \<open>t \<in> _\<close>] that(1) by (metis inj_onD)
      then show False using kept(1) [OF \<open>t \<in> _\<close>] that(2) by simp
    qed
    then show ?thesis by (auto simp: acked_cells_def)
  qed
  have "distinct (map t_id (kept_receipts k b))" "distinct (map t_state (kept_receipts k b))"
    using ls by (simp_all add: kept_receipts_def distinct_map_filter)
  moreover have "\<forall>t \<in> set (kept_receipts k b). slot_of b1 (t_seq t) < nfree b1"
    using ls kept by (auto simp: i diff_less_mono)
  moreover have "cells b (t_state t) = (if t_seq t \<in> retired b1 then ReceiptRetired else ReceiptRetained)"
    if "t \<in> set (kept_receipts k b)" for t
    using ls kept [OF that] by (auto simp: fi(5))
  ultimately have "list_ok ?b"
    unfolding list_ok_def using ls srt kept cell by (simp add: eq fr)
  moreover have "cursor_of ?b = deliverCursor ?b"
    using kept(3) by (auto simp: cursor_of_def eq i intro!: arg_cong [of _ _ head_id] filter_cong)
  ultimately show ?thesis by (simp add: rec_ok_def)
qed

end
