(* ===== verification/AckOps.thy ===== *)
theory AckOps
  imports AckInv
begin

text \<open>
  Every operation of the acknowledgement buffer returns and keeps the layers of its
  invariant. The operations that give bytes back are proved once, in the locale
  \<open>shared_budget\<close>, for every budget that obeys its laws.
\<close>

section \<open>The backing array\<close>

definition backing :: "nat \<Rightarrow> nat \<Rightarrow> DataMessage option list \<Rightarrow> DataMessage option list \<Rightarrow> bool" where
  "backing n cap old bs \<longleftrightarrow> length bs \<le> length old \<and> 0 < length bs \<and> n \<le> length bs \<and> cap \<le> length bs \<and>
     take n bs = take n old \<and> (\<forall>i < length bs. n \<le> i \<longrightarrow> bs ! i = None)"

definition slots_fit :: "AckBuffer \<Rightarrow> bool" where
  "slots_fit b \<longleftrightarrow> 0 < length (buff b) \<and> length (buff b) \<le> 35184372088832 \<and> nfree b \<le> length (buff b) \<and>
     unat (currentCapacity b) \<le> length (buff b) \<and> (\<forall>i < length (buff b). nfree b \<le> i \<longrightarrow> buff b ! i = None)"

lemma win_slots_fit: "win_ok b \<Longrightarrow> slots_fit b"
  by (simp add: win_ok_def slots_fit_def)

lemma unat_max: "unat (max (a :: u64) b) = max (unat a) (unat b)"
  by (simp add: max_def word_le_nat_alt)

lemma shrinkBackingLocked_ok:
  assumes "slots_fit b"
  shows "\<exists>bs. shrinkBackingLocked b = b\<lparr>buff := bs\<rparr> \<and> backing (nfree b) (unat (currentCapacity b)) (buff b) bs"
proof -
  let ?t = "max (max (currentCapacity b) (nextIndexFree b)) initialCapacity"
  have t: "unat ?t = max (max (unat (currentCapacity b)) (nfree b)) 1" by (simp add: unat_max initialCapacity_def)
  have len: "unat (buffLen b) = length (buff b)" using assms by (intro unat_of_nat_exact) (simp add: slots_fit_def)
  show ?thesis
  proof (cases "buffLen b > ?t")
    case True
    let ?bs = "take (nfree b) (buff b) @ replicate (unat ?t - nfree b) None"
    have "unat ?t < length (buff b)" using True len by (simp add: word_less_nat_alt)
    then have "backing (nfree b) (unat (currentCapacity b)) (buff b) ?bs"
      using assms t by (auto simp: backing_def slots_fit_def nth_append)
    then show ?thesis using True by (intro exI [of _ ?bs]) (simp add: shrinkBackingLocked_def Let_def)
  next
    case False
    then have "shrinkBackingLocked b = b" by (simp only: shrinkBackingLocked_def Let_def if_False)
    then show ?thesis using assms by (intro exI [of _ "buff b"]) (simp add: backing_def slots_fit_def)
  qed
qed

lemma shiftSlots_ok:
  assumes "slots_fit b" and "unat ia < nfree b"
  shows "\<exists>bs. shiftSlots ia b = Some (b\<lparr>buff := bs, nextIndexFree := of_nat (nfree b - Suc (unat ia))\<rparr>) \<and>
     length bs = length (buff b) \<and> take (nfree b - Suc (unat ia)) bs = drop (Suc (unat ia)) (take (nfree b) (buff b)) \<and>
     (\<forall>i < length bs. nfree b - Suc (unat ia) \<le> i \<longrightarrow> bs ! i = None)"
proof -
  define k where "k = Suc (unat ia)"
  let ?bs = "drop k (take (nfree b) (buff b)) @ replicate k None @ drop (nfree b) (buff b)"
  have n: "nextIndexFree b - ia - 1 = of_nat (nfree b - k)" "k \<le> nfree b" using assms(2) by (simp_all add: k_def of_nat_diff algebra_simps)
  have "?bs ! i = None" if "i < length ?bs" "nfree b - k \<le> i" for i
    using that assms n(2) by (auto simp: nth_append slots_fit_def)
  with n(2) show ?thesis
    using assms n(2) by (intro exI [of _ ?bs]) (auto simp: shiftSlots_def Let_def slots_fit_def n(1) k_def [symmetric])
qed

lemma set_or_clear_ok:
  assumes "event_wf e"
  shows "\<exists>e'. (if c then Event_Set e else Some (Event_Clear e)) = Some e' \<and> event_wf e' \<and> (ev_v e' \<longleftrightarrow> c)"
  using assms by (cases c) (auto elim: Event_Set_wf)

section \<open>Sums of sizes\<close>

lemma unat_sum_list: "sum_list (map unat xs) < 2 ^ 64 \<Longrightarrow> unat (sum_list (xs :: u64 list)) = sum_list (map unat xs)"
  by (induction xs) (simp_all add: unat_add_exact)

lemma sum_take_drop: "sum_list (map unat (take k xs)) + sum_list (map unat (drop k xs)) = sum_list (map unat (xs :: u64 list))"
  by (metis append_take_drop_id map_append sum_list_append)

lemma nth_le_sum: "i < length xs \<Longrightarrow> unat (xs ! i) \<le> sum_list (map unat (xs :: u64 list))"
  by (rule member_le_sum_list) simp_all

lemma nth_le_take: "i < k \<Longrightarrow> i < length xs \<Longrightarrow> unat (xs ! i) \<le> sum_list (map unat (take k (xs :: u64 list)))"
  using nth_le_sum [of i "take k xs"] by simp

lemma nth_le_drop: "k \<le> i \<Longrightarrow> i < length xs \<Longrightarrow> unat (xs ! i) \<le> sum_list (map unat (drop k (xs :: u64 list)))"
  using nth_le_sum [of "i - k" "drop k xs"] by simp

lemma sum_list_update: "i < length xs \<Longrightarrow>
    sum_list (map unat (xs[i := 0])) + unat (xs ! i) = sum_list (map unat (xs :: u64 list))"
  by (induction xs arbitrary: i) (auto simp: nth_Cons split: nat.splits)

section \<open>A removed prefix and its receipts\<close>

definition dropped :: "nat \<Rightarrow> bool \<Rightarrow> AckBuffer \<Rightarrow> AckBuffer \<Rightarrow> bool" where
  "dropped k acknowledge b b' \<longleftrightarrow> 0 < k \<and> k \<le> nfree b \<and>
     (\<exists>b1 c. removed k b b1 \<and> b' = b1\<lparr>receipts := kept_receipts k b, cells := acked_cells k acknowledge b, deliverCursor := c\<rparr>)"

lemma slots_ok_receipts [simp]: "slots_ok (b\<lparr>receipts := r, cells := c, deliverCursor := d\<rparr>) = slots_ok b"
    "ready_ok (b\<lparr>receipts := r, cells := c, deliverCursor := d\<rparr>) = ready_ok b"
  by (simp_all add: slots_ok_def win_ok_def ev_ok_def wake_ok_def acct_ok_def ret_ok_def flag_ok_def held_flag_def ready_ok_def)

lemma dropped_inv:
  assumes "slots_ok b" and "rec_ok b" and "0 < k" and "k \<le> nfree b" and "removed k b b1"
    and b': "b' = dropReceiptsLocked (firstSeqNum b) (of_nat k - 1) acknowledge b1"
  shows "dropped k acknowledge b b'" "slots_ok b'" "rec_ok b'" "loop_ok b \<Longrightarrow> ready_ok b'"
proof -
  note eq = dropReceipts_eq [OF assms(3-5) assms(2), of acknowledge]
  show "dropped k acknowledge b b'" using assms(3-5) unfolding b' eq dropped_def by blast
  show "slots_ok b'" using removed_slots [OF assms(1,4,5)] unfolding b' eq by simp
  show "ready_ok b'" if "loop_ok b" using removed_ev(2) [OF assms(1,5) that] unfolding b' eq by simp
  show "rec_ok b'" unfolding b' by (rule dropReceipts_rec [OF assms(1,3-5,2)])
qed

lemma dropped_frame:
  assumes "dropped k a b b'"
  shows "isClosed b' = isClosed b" "isRunning b' = isRunning b" "nextSeqNum b' = nextSeqNum b" "ackEvery b' = ackEvery b"
    "currentCapacity b' = currentCapacity b" "accounting b' = accounting b" "maxBytes b' = maxBytes b"
    "b_group b' = b_group b" "registered b' = registered b" "escapeSeq b' = escapeSeq b"
    "lastFlaggedSeq b' = lastFlaggedSeq b" "next_entry b' = next_entry b" "wake b' = None"
    "onAckCalls b' = onAckCalls b" "onAck b' = onAck b" "releasedRetired b' = releasedRetired b"
    "receipts b' = kept_receipts k b" "cells b' = acked_cells k a b"
  using assms by (auto simp: dropped_def removed_frame)

lemma dropped_fields:
  assumes "dropped k a b b'"
  shows "firstSeqNum b' = firstSeqNum b + of_nat k" "nfree b' = nfree b - k" "ndel b' = ndel b - k" "sizes b' = drop k (sizes b)"
    "retired b' = {q \<in> retired b. k \<le> slot_of b q}"
    "escapeBytes b' = (if escapeBytes b \<noteq> 0 \<and> k \<le> slot_of b (escapeSeq b) then escapeBytes b else 0)"
    "if isClosed b then bytes b' = 0 else unat (bytes b') = sum_list (map unat (drop k (sizes b)))"
    "take (nfree b') (buff b') = drop k (take (nfree b) (buff b))" "0 < k" "k \<le> nfree b"
  using assms by (auto simp: dropped_def removed_indices removed_fields(1,4-16))

lemma dropped_slot: "dropped k a b b' \<Longrightarrow> k \<le> slot_of b q \<Longrightarrow> slot_of b' q = slot_of b q - k"
  by (simp add: dropped_fields(1) slot_shift)

lemma dropped_first: "win_ok b \<Longrightarrow> dropped k a b b' \<Longrightarrow> unat (firstSeqNum b') = unat (firstSeqNum b) + k"
  using removed_first by (fastforce simp: dropped_def)

lemma dropped_nth: "win_ok b \<Longrightarrow> dropped k a b b' \<Longrightarrow> i < nfree b - k \<Longrightarrow> buff b' ! i = buff b ! (k + i)"
  using removed_nth by (fastforce simp: dropped_def)

section \<open>Retired slots at the front\<close>

lemma retired_run_le: "retired_run b \<le> nfree b"
proof -
  have "retired_run b \<le> length [0..<nfree b]" unfolding retired_run_def by (rule length_takeWhile_le)
  then show ?thesis by simp
qed

lemma retired_run_in: "i < retired_run b \<Longrightarrow> firstSeqNum b + of_nat i \<in> retired b"
proof -
  let ?P = "\<lambda>i. firstSeqNum b + of_nat i \<in> retired b"
  assume i: "i < retired_run b"
  then have "takeWhile ?P [0..<nfree b] ! i = [0..<nfree b] ! i" unfolding retired_run_def by (rule takeWhile_nth)
  moreover have "i < nfree b" using i retired_run_le [of b] by simp
  ultimately have "i \<in> set (takeWhile ?P [0..<nfree b])" using i nth_mem [of i "takeWhile ?P [0..<nfree b]"] by (simp add: retired_run_def)
  then show ?thesis using set_takeWhileD by fastforce
qed

lemma retired_run_out: "retired_run b < nfree b \<Longrightarrow> firstSeqNum b + of_nat (retired_run b) \<notin> retired b"
  using nth_length_takeWhile [of "\<lambda>i. firstSeqNum b + of_nat i \<in> retired b" "[0..<nfree b]"]
  by (simp add: retired_run_def)

section \<open>A retired slot\<close>

lemma sorted_wrt_inj:
  fixes f :: "'a \<Rightarrow> nat"
  assumes "sorted_wrt (\<lambda>s t. f s < f t) ts" and "s \<in> set ts" and "t \<in> set ts" and "f s = f t"
  shows "s = t"
  using assms by (induction ts) auto

lemma list_ok_inj:
  assumes "list_ok b" and "t \<in> set (receipts b)" and "u \<in> set (receipts b)"
  shows "t_seq t = t_seq u \<Longrightarrow> t = u" "t_state t = t_state u \<Longrightarrow> t = u" "t_id t = t_id u \<Longrightarrow> t = u"
proof -
  show "t = u" if "t_seq t = t_seq u"
    by (rule sorted_wrt_inj [of "\<lambda>t. slot_of b (t_seq t)" "receipts b"]) (use assms that in \<open>simp_all add: list_ok_def\<close>)
  show "t = u" if "t_state t = t_state u" using assms that by (auto simp: list_ok_def distinct_map dest: inj_onD)
  show "t = u" if "t_id t = t_id u" using assms that by (auto simp: list_ok_def distinct_map dest: inj_onD)
qed

definition retire_state :: "trackedAdmission \<Rightarrow> AckBuffer \<Rightarrow> u64 \<Rightarrow> u64 \<Rightarrow> (nat \<Rightarrow> bool) \<Rightarrow> AckBuffer" where
  "retire_state t b y es wc =
     b\<lparr>cells := (cells b)(t_state t := ReceiptRetired),
       buff := (buff b)[slot_of b (t_seq t) := Some (zeroDataMessage\<lparr>SeqNum := t_seq t\<rparr>)],
       retired := insert (t_seq t) (retired b), sizes := (sizes b)[slot_of b (t_seq t) := 0], bytes := y, escapeBytes := es,
       lastFlaggedSeq := (if lastFlaggedSeq b = t_seq t then 0 else lastFlaggedSeq b), wakeClosed := wc, wake := None\<rparr>"

lemma retire_slots:
  assumes "slots_ok b" and "list_ok b" and "t \<in> set (receipts b)"
    and y: "if isClosed b then y = 0 else unat y = sum_list (map unat ((sizes b)[slot_of b (t_seq t) := 0]))"
    and es: "es = (if escapeSeq b = t_seq t then 0 else escapeBytes b)"
  shows "slots_ok (retire_state t b y es wc)" "list_ok (retire_state t b y es wc)"
proof -
  let ?b = "retire_state t b y es wc"
  let ?i = "slot_of b (t_seq t)"
  have i: "?i < nfree b" using assms(2,3) by (simp add: list_ok_def)
  note w = slots_okD(1) [OF assms(1), unfolded win_ok_def]
  have ne: "slot_of b q \<noteq> ?i" if "q \<noteq> t_seq t" for q using that slot_inj by metis
  have "\<exists>m. buff ?b ! j = Some m \<and> SeqNum m = firstSeqNum b + of_nat j" if "j < nfree b" for j
    using w that i by (cases "j = ?i") (auto simp: retire_state_def)
  moreover have "\<forall>j < length (buff b). nfree b \<le> j \<longrightarrow> buff ?b ! j = None" using w i by (auto simp: retire_state_def)
  ultimately have "win_ok ?b" using w by (simp add: win_ok_def) (simp add: retire_state_def)
  moreover have "ev_ok ?b" using slots_okD(2) [OF assms(1)] by (simp add: retire_state_def ev_ok_def wake_ok_def)
  moreover have "acct_ok ?b"
    using slots_okD(3) [OF assms(1)] y es ne [of "escapeSeq b"] by (auto simp: retire_state_def acct_ok_def unat_eq_0 split: if_splits)
  moreover have "ret_ok ?b" using slots_okD(4) [OF assms(1)] i by (simp add: retire_state_def ret_ok_def)
  moreover have "flag_ok ?b"
  proof -
    note fl = slots_okD(5) [OF assms(1), unfolded flag_ok_def] and ac = slots_okD(3) [OF assms(1), unfolded acct_ok_def]
    have "lastFlaggedSeq b \<noteq> t_seq t \<and> held_flag b \<and> unat y \<le> unat (maxBytes b) + unat (sizes b ! slot_of b (lastFlaggedSeq b))"
      if over: "maxBytes b \<noteq> 0" "maxBytes b < y"
    proof -
      have op: "\<not> isClosed b" using over y by auto
      then have sum: "unat (bytes b) = sum_list (map unat (sizes b))" "unat y = sum_list (map unat ((sizes b)[?i := 0]))" using ac y by auto
      have "?i < length (sizes b)"
      proof (rule ccontr)
        assume "\<not> ?i < length (sizes b)"
        then have "\<not> accounting b" using i ac by auto
        then show False using sum(2) ac over by (simp add: word_less_nat_alt)
      qed
      then have tot: "unat (bytes b) = unat y + unat (sizes b ! ?i)" using sum_list_update [of ?i "sizes b"] sum by simp
      then have "held_flag b" "unat (bytes b) \<le> unat (maxBytes b) + unat (sizes b ! slot_of b (lastFlaggedSeq b))"
        using fl over by (simp_all add: word_less_nat_alt)
      moreover have "lastFlaggedSeq b \<noteq> t_seq t" using calculation(2) tot over(2) by (auto simp: word_less_nat_alt)
      ultimately show ?thesis using tot by simp
    qed
    then show ?thesis using fl ne [of "lastFlaggedSeq b"] by (auto simp: retire_state_def flag_ok_def held_flag_def)
  qed
  ultimately show "slots_ok ?b" by (simp add: slots_ok_def)
  have "t_seq u = t_seq t \<longleftrightarrow> u = t" "t_state u = t_state t \<longleftrightarrow> u = t" if "u \<in> set (receipts b)" for u
    using list_ok_inj [OF assms(2) that assms(3)] by auto
  then show "list_ok ?b" using assms(2) by (auto simp: retire_state_def list_ok_def)
qed

section \<open>Giving bytes back\<close>

context shared_budget
begin

definition books :: "handed \<Rightarrow> AckBuffer \<Rightarrow> budgetp \<Rightarrow> bool" where
  "books W b p \<longleftrightarrow> own (b_group b) (registered b) (unat (bytes b)) (unat (escapeBytes b)) W p \<and>
     (p \<noteq> None \<longrightarrow> accounting b) \<and> (\<not> isClosed b \<longrightarrow> registered b \<or> b_group b = None) \<and>
     (registered b \<longrightarrow> b_group b \<noteq> None \<and> \<not> isClosed b)"

lemma books_cong:
  "b_group b' = b_group b \<Longrightarrow> registered b' = registered b \<Longrightarrow> bytes b' = bytes b \<Longrightarrow> escapeBytes b' = escapeBytes b \<Longrightarrow>
   accounting b' = accounting b \<Longrightarrow> isClosed b' = isClosed b \<Longrightarrow> books W b' p = books W b p"
  by (simp add: books_def)

lemma releasePrefix_ok:
  assumes "acct_ok b" and "books W b p" and ia: "unat ia < nfree b"
  defines "k \<equiv> Suc (unat ia)"
  defines "es \<equiv> (if escapeBytes b \<noteq> 0 \<and> k \<le> slot_of b (escapeSeq b) then escapeBytes b else 0)"
  shows "\<exists>by p'. releasePrefix (escapeSeq b - firstSeqNum b) ia (b\<lparr>firstSeqNum := f\<rparr>, p) =
       Some (b\<lparr>firstSeqNum := f, sizes := drop k (sizes b), bytes := by, escapeBytes := es\<rparr>, p') \<and>
     (if isClosed b then by = 0 else unat by = sum_list (map unat (drop k (sizes b)))) \<and>
     books W (b\<lparr>bytes := by, escapeBytes := es\<rparr>) p' \<and> (p' = None \<longleftrightarrow> p = None)"
proof (cases "accounting b")
  case False
  then have "sizes b = []" "bytes b = 0" "escapeBytes b = 0" "es = 0" using assms(1) by (auto simp: acct_ok_def es_def)
  then show ?thesis
    using False assms(2) by (intro exI [of _ 0] exI [of _ p]) (auto simp: releasePrefix_def books_def intro!: AckBuffer.equality)
next
  case True
  let ?t = "take k (sizes b)" and ?d = "drop k (sizes b)"
  define freed where "freed = (if bytes b < sum_list ?t then bytes b else sum_list ?t)"
  define esc where "esc = escapeBytes b - es"
  have gone: "escapeSeq b - firstSeqNum b \<le> ia \<longleftrightarrow> \<not> k \<le> slot_of b (escapeSeq b)"
    by (auto simp: k_def word_le_nat_alt)
  have len: "length (sizes b) = nfree b" "\<not> length (sizes b) < k" using True assms(1) ia by (auto simp: acct_ok_def k_def)
  have own: "own (b_group b) (registered b) (unat (bytes b)) (unat (escapeBytes b)) W p" using assms(2) by (simp add: books_def)
  have fr: "unat freed \<le> unat (bytes b)" "unat esc \<le> unat freed" "unat esc \<le> unat (escapeBytes b)" "unat es = unat (escapeBytes b) - unat esc"
      "if isClosed b then bytes b - freed = 0 else unat (bytes b - freed) = sum_list (map unat ?d)"
  proof -
    have tot: "unat (bytes b) = sum_list (map unat ?t) + sum_list (map unat ?d)" if "\<not> isClosed b"
      using that assms(1) sum_take_drop [of k "sizes b"] by (simp add: acct_ok_def)
    have f: "unat freed = sum_list (map unat ?t)" if "\<not> isClosed b"
    proof -
      have "unat (sum_list ?t) = sum_list (map unat ?t)"
        using tot [OF that] unat_less_2_64 [of "bytes b"] by (intro unat_sum_list) (simp del: unat_less_2_64)
      then show ?thesis using tot [OF that] by (simp add: freed_def word_less_nat_alt)
    qed
    have c: "bytes b = 0 \<and> escapeBytes b = 0 \<and> freed = 0" if "isClosed b"
      using that assms(1) by (simp add: acct_ok_def freed_def) (simp add: word_less_nat_alt unat_eq_0)
    have e: "esc = (if k \<le> slot_of b (escapeSeq b) then 0 else escapeBytes b)" by (simp add: esc_def es_def)
    have sl: "slot_of b (escapeSeq b) < length (sizes b) \<and> sizes b ! slot_of b (escapeSeq b) = escapeBytes b" if "escapeBytes b \<noteq> 0"
      using that assms(1) by (simp add: acct_ok_def)
    show "unat freed \<le> unat (bytes b)" using f tot c by (cases "isClosed b") auto
    show "unat esc \<le> unat (escapeBytes b)" "unat es = unat (escapeBytes b) - unat esc" by (auto simp: e es_def)
    show "unat esc \<le> unat freed"
      using f tot c sl nth_le_take [of "slot_of b (escapeSeq b)" k "sizes b"]
      by (cases "isClosed b"; cases "escapeBytes b = 0"; auto simp: e not_le)
    show "if isClosed b then bytes b - freed = 0 else unat (bytes b - freed) = sum_list (map unat ?d)"
      using f tot c by (auto simp: unat_sub word_le_nat_alt)
  qed
  obtain p' where p': "releaseFor freed esc (b_group b) p = Some p'"
      "own (b_group b) (registered b) (unat (bytes b) - unat freed) (unat (escapeBytes b) - unat esc) W p'"
    using release_law [OF own fr(1-3)] by blast
  have "books W (b\<lparr>bytes := bytes b - freed, escapeBytes := es\<rparr>) p'" "p' = None \<longleftrightarrow> p = None"
    using p' fr(1,4) assms(2) budgetp_nil(1) [OF p'(1)] by (simp_all add: books_def unat_sub word_le_nat_alt)
  moreover have "releasePrefix (escapeSeq b - firstSeqNum b) ia (b\<lparr>firstSeqNum := f\<rparr>, p) =
       Some (b\<lparr>firstSeqNum := f, sizes := drop k (sizes b), bytes := bytes b - freed, escapeBytes := es\<rparr>, p')"
    using True len p'(1) gone
    by (cases "bytes b < sum_list ?t"; cases "escapeBytes b \<noteq> 0 \<and> escapeSeq b - firstSeqNum b \<le> ia")
      (auto simp: releasePrefix_def Let_def freed_def k_def [symmetric] esc_def es_def)
  ultimately show ?thesis using fr(5) by blast
qed

lemma removePrefixLocked_ok:
  assumes "slots_ok b" and "books W b p" and ia: "unat ia < nfree b"
  shows "\<exists>b' p'. removePrefixLocked ia (b, p) = Some (b', p') \<and> removed (Suc (unat ia)) b b' \<and> books W b' p' \<and> (p' = None \<longleftrightarrow> p = None)"
proof -
  define k where "k = Suc (unat ia)"
  note w = slots_okD(1) [OF assms(1)] and ev = slots_okD(2) [OF assms(1), unfolded ev_ok_def]
  let ?f = "firstSeqNum b + ia + 1"
  define es where "es = (if escapeBytes b \<noteq> 0 \<and> k \<le> slot_of b (escapeSeq b) then escapeBytes b else 0)"
  let ?n = "of_nat (nfree b - k) :: u64"
  obtain y p' where r: "releasePrefix (escapeSeq b - firstSeqNum b) ia (b\<lparr>firstSeqNum := ?f\<rparr>, p) =
        Some (b\<lparr>firstSeqNum := ?f, sizes := drop k (sizes b), bytes := y, escapeBytes := es\<rparr>, p')"
      "if isClosed b then y = 0 else unat y = sum_list (map unat (drop k (sizes b)))"
      "books W (b\<lparr>bytes := y, escapeBytes := es\<rparr>) p'" "p' = None \<longleftrightarrow> p = None"
    using releasePrefix_ok [OF slots_okD(3) [OF assms(1)] assms(2) ia, of ?f, folded k_def, folded es_def] by blast
  let ?b1 = "b\<lparr>firstSeqNum := ?f, sizes := drop k (sizes b), bytes := y, escapeBytes := es\<rparr>"
  have "slots_fit ?b1" "unat ia < nfree ?b1" using win_slots_fit [OF w] ia by (simp_all add: slots_fit_def)
  from shiftSlots_ok [OF this] obtain bs where bs: "shiftSlots ia ?b1 = Some (?b1\<lparr>buff := bs, nextIndexFree := ?n\<rparr>)"
      "length bs = length (buff b)" "take (nfree b - k) bs = drop k (take (nfree b) (buff b))"
      "\<forall>i < length bs. nfree b - k \<le> i \<longrightarrow> bs ! i = None"
    by (auto simp: k_def)
  let ?b2 = "?b1\<lparr>buff := bs, nextIndexFree := ?n\<rparr>"
  have fit2: "slots_fit ?b2" using win_slots_fit [OF w] bs(2,4) by (auto simp: slots_fit_def)
  obtain bs' where bs': "(if nextIndexFree ?b2 \<le> currentCapacity ?b2 then shrinkBackingLocked ?b2 else ?b2) = ?b2\<lparr>buff := bs'\<rparr>"
      "backing (nfree b - k) (unat (currentCapacity b)) bs bs'"
  proof (cases "nextIndexFree ?b2 \<le> currentCapacity ?b2")
    case True
    from shrinkBackingLocked_ok [OF fit2] obtain bs' where bs': "shrinkBackingLocked ?b2 = ?b2\<lparr>buff := bs'\<rparr>"
        "backing (nfree b - k) (unat (currentCapacity b)) bs bs'" by auto
    show thesis by (rule that [OF _ bs'(2)]) (simp only: True if_True bs'(1))
  next
    case False
    have "backing (nfree b - k) (unat (currentCapacity b)) bs bs" using fit2 by (simp add: slots_fit_def backing_def)
    then show thesis by (rule that [rotated]) (use False in simp)
  qed
  obtain av where av: "(if ?n < currentCapacity b then Event_Set (isAvailable b) else Some (Event_Clear (isAvailable b))) = Some av"
      "event_wf av" "ev_v av \<longleftrightarrow> nfree b - k < unat (currentCapacity b)"
    using set_or_clear_ok [of "isAvailable b" "?n < currentCapacity b"] ev by (auto simp: word_less_nat_alt)
  obtain wc where wc: "signalLocked (?b2\<lparr>buff := bs', isAvailable := av\<rparr>) = Some (?b2\<lparr>buff := bs', isAvailable := av, wakeClosed := wc, wake := None\<rparr>)"
    using signalLocked_ok [of "?b2\<lparr>buff := bs', isAvailable := av\<rparr>"] ev by (auto simp: wake_ok_def)
  obtain em where em: "Event_Set (isEmpty b) = Some em" "event_wf em" "ev_v em" using ev by (auto elim: Event_Set_wf)
  have k: "unat (ia + 1) = k" "of_nat k = ia + 1"
    using ia unat_less_2_64 [of "nextIndexFree b"] by (simp_all add: k_def unat_Suc_exact del: unat_less_2_64)
  have d: "(if nextIndexToDeliver b > ia + 1 then nextIndexToDeliver b - (ia + 1) else 0) = of_nat (ndel b - k)"
    using k by (auto simp: word_less_nat_alt of_nat_diff)
  have ret: "{q \<in> retired b. \<not> q - firstSeqNum b \<le> ia} = {q \<in> retired b. k \<le> slot_of b q}"
    by (auto simp: k_def word_le_nat_alt)
  let ?d = "of_nat (ndel b - k) :: u64"
  let ?b3 = "?b2\<lparr>buff := bs', isAvailable := av, wakeClosed := wc, wake := None, nextIndexToDeliver := ?d\<rparr>"
  let ?b4 = "if ?d \<ge> ?n then ?b3\<lparr>isReadyToDeliver := Event_Clear (isReadyToDeliver b), isEmpty := em\<rparr> else ?b3"
  let ?b5 = "?b4\<lparr>retired := {q \<in> retired b. k \<le> slot_of b q}\<rparr>"
  have av': "(if nextIndexFree (?b2\<lparr>buff := bs'\<rparr>) < currentCapacity (?b2\<lparr>buff := bs'\<rparr>)
      then Event_Set (isAvailable (?b2\<lparr>buff := bs'\<rparr>)) else Some (Event_Clear (isAvailable (?b2\<lparr>buff := bs'\<rparr>)))) = Some av"
    using av(1) by (simp split: if_splits)
  have "removePrefixLocked ia (b, p) = Some (?b5, p')"
    by (simp only: removePrefixLocked_def Let_def prod.case r(1) bind.bind_lunit bs(1) bs'(1) av' wc) (simp add: em(1) d ret cong: if_cong)
  moreover have "removed k b ?b5"
    using r(2) bs(2-4) bs'(2) av(2,3) em(2,3) ev k(2)
    by (simp add: removed_def same_frame_def es_def backing_def word_le_nat_alt)
  moreover have "books W ?b5 p'" using r(3) by (simp add: books_def)
  ultimately show ?thesis using r(4) by (auto simp: k_def)
qed

definition core :: "handed \<Rightarrow> buffer_state \<Rightarrow> bool" where
  "core W s \<longleftrightarrow> slots_ok (fst s) \<and> rec_ok (fst s) \<and> books W (fst s) (snd s)"

lemma coreD: "core W (b, p) \<Longrightarrow> slots_ok b" "core W (b, p) \<Longrightarrow> rec_ok b" "core W (b, p) \<Longrightarrow> books W b p"
  by (simp_all add: core_def)

lemma books_dropReceipts: "books W (dropReceiptsLocked f i a b) p = books W b p"
  by (rule books_cong) (auto simp: dropReceiptsLocked_def drop_loop_eq Let_def)

lemma remove_prefix:
  assumes "core W (b, p)" and "unat ia < nfree b"
  obtains b1 p' where "removePrefixLocked ia (b, p) = Some (b1, p')"
    "\<And>a. core W (dropReceiptsLocked (firstSeqNum b) ia a b1, p')"
    "\<And>a. dropped (Suc (unat ia)) a b (dropReceiptsLocked (firstSeqNum b) ia a b1)"
    "\<And>a. loop_ok b \<Longrightarrow> ready_ok (dropReceiptsLocked (firstSeqNum b) ia a b1)" "p' = None \<longleftrightarrow> p = None"
proof -
  note c = coreD [OF assms(1)]
  from removePrefixLocked_ok [OF c(1,3) assms(2)] obtain b1 p' where
    r: "removePrefixLocked ia (b, p) = Some (b1, p')" "removed (Suc (unat ia)) b b1" "books W b1 p'" "p' = None \<longleftrightarrow> p = None"
    by blast
  have "(of_nat (Suc (unat ia)) - 1 :: u64) = ia" by simp
  note d = dropped_inv [OF c(1,2) _ _ r(2) refl, unfolded this]
  show thesis
    by (rule that [OF r(1)]) (use d r assms(2) in \<open>auto simp: core_def books_dropReceipts\<close>)
qed

lemma releaseRetiredHead_ok:
  assumes "core W (b, p)"
  shows "\<exists>b' p'. releaseRetiredHeadLocked (b, p) = Some (b', p') \<and> core W (b', p') \<and> (p' = None \<longleftrightarrow> p = None) \<and>
     firstSeqNum b' \<notin> retired b' \<and> (loop_ok b \<longrightarrow> loop_ok b') \<and> (ready_ok b \<longrightarrow> ready_ok b') \<and>
     (if retired_run b = 0 then b' = b else \<exists>r. dropped (retired_run b) False (b\<lparr>releasedRetired := r\<rparr>) b')"
proof (cases "retired_run b = 0")
  case True
  have "firstSeqNum b \<notin> retired b"
  proof (cases "nfree b = 0")
    case True
    then show ?thesis using slots_okD(4) [OF coreD(1) [OF assms]] by (auto simp: ret_ok_def)
  next
    case False
    then show ?thesis using retired_run_out [of b] \<open>retired_run b = 0\<close> by simp
  qed
  then show ?thesis using True assms by (auto simp: releaseRetiredHeadLocked_def Let_def)
next
  case False
  define n where "n = retired_run b"
  have n: "0 < n" "n \<le> nfree b" using False retired_run_le [of b] by (simp_all add: n_def)
  then have ia: "unat (of_nat n - 1 :: u64) = n - 1" by (rule unat_pred_nat)
  let ?r = "Some (fold (\<lambda>i. ring_add (firstSeqNum b + of_nat i)) [0..<n] (case releasedRetired b of None \<Rightarrow> ring_empty | Some r \<Rightarrow> r))"
  let ?b = "b\<lparr>releasedRetired := ?r\<rparr>"
  have c: "core W (?b, p)"
    using assms by (simp add: core_def slots_ok_def win_ok_def ev_ok_def wake_ok_def acct_ok_def ret_ok_def flag_ok_def
        held_flag_def rec_ok_def list_ok_def cursor_of_def books_def)
  have "unat (of_nat n - 1 :: u64) < nfree ?b" using n ia by simp
  from remove_prefix [OF c this] obtain b1 p' where
    r: "removePrefixLocked (of_nat n - 1) (?b, p) = Some (b1, p')" "p' = None \<longleftrightarrow> p = None"
      "core W (dropReceiptsLocked (firstSeqNum b) (of_nat n - 1) False b1, p')"
      "dropped n False ?b (dropReceiptsLocked (firstSeqNum b) (of_nat n - 1) False b1)"
      "loop_ok b \<Longrightarrow> ready_ok (dropReceiptsLocked (firstSeqNum b) (of_nat n - 1) False b1)"
    using n ia by (simp add: loop_ok_def) metis
  let ?d = "dropReceiptsLocked (firstSeqNum b) (of_nat n - 1) False b1"
  have live: "firstSeqNum ?d \<notin> retired ?d"
  proof (cases "n = nfree b")
    case True
    then have "nfree ?d = 0" using dropped_fields(2) [OF r(4)] by simp
    then show ?thesis using slots_okD(4) [OF coreD(1) [OF r(3)]] by (auto simp: ret_ok_def)
  next
    case False
    then have "firstSeqNum b + of_nat n \<notin> retired b" using retired_run_out [of b] n(2) by (simp add: n_def)
    then show ?thesis using dropped_fields(1,5) [OF r(4)] by simp
  qed
  have "retired b \<noteq> {}" using retired_run_in [of 0 b] n(1) by (auto simp: n_def)
  then have "releaseRetiredHeadLocked (b, p) = Some (?d, p')"
    using False r(1) by (simp add: releaseRetiredHeadLocked_def Let_def n_def [symmetric])
  moreover have "loop_ok ?d \<and> ready_ok ?d" if "loop_ok b" using r(5) [OF that] by (simp add: loop_ok_def ready_ok_def)
  moreover have "loop_ok b" if "ready_ok b" using that by (simp add: loop_ok_def ready_ok_def)
  ultimately show ?thesis using r(2-4) live False by (auto simp: n_def [symmetric])
qed

lemma releaseSlot_ok:
  assumes "acct_ok b" and "books W b p" and i: "slot_of b q < nfree b"
  defines "es \<equiv> (if escapeSeq b = q then 0 else escapeBytes b)" and "rest \<equiv> (sizes b)[slot_of b q := 0]"
  shows "\<exists>y p'. releaseSlot (q - firstSeqNum b) q (b\<lparr>cells := cs, buff := bs, retired := rt\<rparr>, p) =
       Some (b\<lparr>cells := cs, buff := bs, retired := rt, sizes := rest, bytes := y, escapeBytes := es\<rparr>, p') \<and>
     (if isClosed b then y = 0 else unat y = sum_list (map unat rest)) \<and>
     books W (b\<lparr>bytes := y, escapeBytes := es\<rparr>) p' \<and> (p' = None \<longleftrightarrow> p = None)"
proof (cases "accounting b")
  case False
  then have "sizes b = []" "bytes b = 0" "escapeBytes b = 0" "es = 0" using assms(1) by (auto simp: acct_ok_def es_def)
  then show ?thesis
    using False assms(2) by (intro exI [of _ 0] exI [of _ p]) (auto simp: releaseSlot_def books_def rest_def intro!: AckBuffer.equality)
next
  case True
  let ?i = "slot_of b q"
  define sz where "sz = (if bytes b < sizes b ! ?i then bytes b else sizes b ! ?i)"
  define esc where "esc = escapeBytes b - es"
  have len: "?i < length (sizes b)" using True assms(1) i by (simp add: acct_ok_def)
  have own: "own (b_group b) (registered b) (unat (bytes b)) (unat (escapeBytes b)) W p" using assms(2) by (simp add: books_def)
  have e: "esc = (if escapeSeq b = q then escapeBytes b else 0)" by (simp add: esc_def es_def)
  have fr: "unat sz \<le> unat (bytes b)" "unat esc \<le> unat sz" "unat esc \<le> unat (escapeBytes b)" "unat es = unat (escapeBytes b) - unat esc"
      "if isClosed b then bytes b - sz = 0 else unat (bytes b - sz) = sum_list (map unat rest)"
  proof -
    have tot: "unat (bytes b) = sum_list (map unat rest) + unat (sizes b ! ?i)" if "\<not> isClosed b"
      using that assms(1) sum_list_update [OF len] by (simp add: acct_ok_def rest_def)
    have c: "bytes b = 0 \<and> escapeBytes b = 0 \<and> sz = 0" if "isClosed b"
      using that assms(1) by (simp add: acct_ok_def sz_def) (simp add: word_less_nat_alt unat_eq_0)
    have f: "sz = sizes b ! ?i" if "\<not> isClosed b" using tot [OF that] by (simp add: sz_def word_less_nat_alt)
    have sl: "slot_of b (escapeSeq b) < length (sizes b) \<and> sizes b ! slot_of b (escapeSeq b) = escapeBytes b" if "escapeBytes b \<noteq> 0"
      using that assms(1) by (simp add: acct_ok_def)
    show "unat sz \<le> unat (bytes b)" by (simp add: sz_def word_less_nat_alt)
    show "unat esc \<le> unat (escapeBytes b)" "unat es = unat (escapeBytes b) - unat esc" by (auto simp: e es_def)
    show "unat esc \<le> unat sz"
      using f tot c sl by (cases "isClosed b"; cases "escapeBytes b = 0"; auto simp: e)
    show "if isClosed b then bytes b - sz = 0 else unat (bytes b - sz) = sum_list (map unat rest)"
      using f tot c by (auto simp: unat_sub word_le_nat_alt)
  qed
  obtain p' where p': "releaseFor sz esc (b_group b) p = Some p'"
      "own (b_group b) (registered b) (unat (bytes b) - unat sz) (unat (escapeBytes b) - unat esc) W p'"
    using release_law [OF own fr(1-3)] by blast
  have "books W (b\<lparr>bytes := bytes b - sz, escapeBytes := es\<rparr>) p'" "p' = None \<longleftrightarrow> p = None"
    using p' fr(1,4) assms(2) budgetp_nil(1) [OF p'(1)] by (simp_all add: books_def unat_sub word_le_nat_alt)
  moreover have "releaseSlot (q - firstSeqNum b) q (b\<lparr>cells := cs, buff := bs, retired := rt\<rparr>, p) =
       Some (b\<lparr>cells := cs, buff := bs, retired := rt, sizes := rest, bytes := bytes b - sz, escapeBytes := es\<rparr>, p')"
    using True len p'(1)
    by (cases "bytes b < sizes b ! ?i"; cases "escapeBytes b \<noteq> 0 \<and> escapeSeq b = q")
      (auto simp: releaseSlot_def Let_def sz_def e es_def rest_def)
  ultimately show ?thesis using fr(5) by blast
qed

lemma retireLocked_ok:
  assumes "slots_ok b" and "list_ok b" and "books W b p" and "t \<in> set (receipts b)"
  shows "\<exists>y es wc p'. retireLocked (t_seq t - firstSeqNum b) t (b, p) = Some (retire_state t b y es wc, p') \<and>
     slots_ok (retire_state t b y es wc) \<and> list_ok (retire_state t b y es wc) \<and> books W (retire_state t b y es wc) p' \<and>
     (p' = None \<longleftrightarrow> p = None) \<and> (\<forall>c. wake b = Some c \<longrightarrow> wc c)"
proof -
  let ?q = "t_seq t" and ?es = "if escapeSeq b = t_seq t then 0 else escapeBytes b"
  let ?b1 = "b\<lparr>cells := (cells b)(t_state t := ReceiptRetired),
      buff := (buff b)[slot_of b ?q := Some (zeroDataMessage\<lparr>SeqNum := ?q\<rparr>)], retired := insert ?q (retired b)\<rparr>"
  note w = slots_okD(1) [OF assms(1)]
  have i: "slot_of b ?q < nfree b" using assms(2,4) by (simp add: list_ok_def)
  then have len: "\<not> buffLen b \<le> ?q - firstSeqNum b" using w win_size [OF w] by (simp add: word_le_nat_alt win_ok_def)
  from releaseSlot_ok [OF slots_okD(3) [OF assms(1)] assms(3) i] obtain y p' where
    y: "releaseSlot (?q - firstSeqNum b) ?q (?b1, p) =
         Some (?b1\<lparr>sizes := (sizes b)[slot_of b ?q := 0], bytes := y, escapeBytes := ?es\<rparr>, p')"
       "if isClosed b then y = 0 else unat y = sum_list (map unat ((sizes b)[slot_of b ?q := 0]))"
       "books W (b\<lparr>bytes := y, escapeBytes := ?es\<rparr>) p'" "p' = None \<longleftrightarrow> p = None"
    by blast
  let ?b2 = "?b1\<lparr>sizes := (sizes b)[slot_of b ?q := 0], bytes := y, escapeBytes := ?es,
      lastFlaggedSeq := (if lastFlaggedSeq b = ?q then 0 else lastFlaggedSeq b)\<rparr>"
  obtain wc where wc: "signalLocked ?b2 = Some (?b2\<lparr>wakeClosed := wc, wake := None\<rparr>)" "\<forall>c. wake b = Some c \<longrightarrow> wc c"
    using signalLocked_ok [of ?b2] slots_okD(6) [OF assms(1)] by (auto simp: wake_ok_def)
  have "retireLocked (?q - firstSeqNum b) t (b, p) = Some (retire_state t b y ?es wc, p')"
    using len y(1) wc(1) by (cases "lastFlaggedSeq b = ?q") (simp_all add: retireLocked_def Let_def retire_state_def)
  moreover have "books W (retire_state t b y ?es wc) p'" using y(3) by (simp add: books_def retire_state_def)
  ultimately show ?thesis using retire_slots [OF assms(1,2,4) y(2) refl] y(4) wc(2) by blast
qed

end

end
