(* ===== verification/AckWindow.thy ===== *)
theory AckWindow
  imports AckOps
begin

text \<open>
  The specification of the acknowledgement buffer as a window: a list of slots, each a
  message with the number of transmissions it has left or a gap, and how many of them were
  sent. The abstraction of a buffer forgets the backing array, the linked entries, the
  cursor, the retired map and the events; the lemmas below give the effect of the buffer's
  internal operations on it.
\<close>

section \<open>Specification\<close>

datatype slot = Live DataMessage "nat option" | Gone

record window =
  a_first :: u64
  a_slots :: "slot list"
  a_sent :: nat

definition w_drop :: "nat \<Rightarrow> window \<Rightarrow> window" where
  "w_drop k w = w\<lparr>a_first := a_first w + of_nat k, a_slots := drop k (a_slots w), a_sent := a_sent w - k\<rparr>"

text \<open>Gaps never stay at the front.\<close>

definition gap :: "window \<Rightarrow> nat" where
  "gap w = length (takeWhile (\<lambda>s. s = Gone) (a_slots w))"

definition w_trim :: "window \<Rightarrow> window" where
  "w_trim w = w_drop (gap w) w"

definition w_add :: "DataMessage \<Rightarrow> nat option \<Rightarrow> window \<Rightarrow> window" where
  "w_add m lim w = w\<lparr>a_slots := a_slots w @ [Live m lim]\<rparr>"

definition w_ack :: "nat \<Rightarrow> window \<Rightarrow> window" where
  "w_ack k w = w_trim (w_drop k w)"

definition w_gone :: "nat \<Rightarrow> window \<Rightarrow> window" where
  "w_gone i w = w\<lparr>a_slots := (a_slots w)[i := Gone]\<rparr>"

definition w_send :: "nat \<Rightarrow> window \<Rightarrow> window" where
  "w_send i w = w\<lparr>a_slots := (a_slots w)[i := (case a_slots w ! i of Gone \<Rightarrow> Gone | Live m lim \<Rightarrow> Live m (map_option (\<lambda>n. n - 1) lim))],
     a_sent := Suc (a_sent w)\<rparr>"

text \<open>
  The next message: gaps are skipped, a message whose transmissions are used up becomes a
  gap, and the last message sent from a sealed window asks for an acknowledgement.
\<close>

function w_next :: "bool \<Rightarrow> window \<Rightarrow> DataMessage option \<times> window" where
  "w_next sealed w =
     (if a_sent w < length (a_slots w) then
        (case a_slots w ! a_sent w of
           Gone \<Rightarrow> w_next sealed (w\<lparr>a_sent := Suc (a_sent w)\<rparr>)
         | Live m lim \<Rightarrow>
             if lim = Some 0 then w_next sealed (w_trim (w_gone (a_sent w) w\<lparr>a_sent := Suc (a_sent w)\<rparr>))
             else (Some (if sealed \<and> (\<forall>s \<in> set (drop (Suc (a_sent w)) (a_slots w)). s = Gone) then m\<lparr>AckRequested := True\<rparr> else m),
                   w_send (a_sent w) w))
      else (None, w))"
  by pat_completeness auto
termination
  by (relation "measure (\<lambda>(_, w). length (a_slots w) - a_sent w)") (auto simp: w_trim_def w_drop_def w_gone_def)

declare w_next.simps [simp del]

definition exhausted :: "slot \<Rightarrow> slot" where
  "exhausted s = (case s of Live m (Some 0) \<Rightarrow> Gone | _ \<Rightarrow> s)"

definition w_reset :: "window \<Rightarrow> window" where
  "w_reset w = w_trim (w\<lparr>a_slots := map exhausted (a_slots w), a_sent := 0\<rparr>)"

section \<open>Abstraction\<close>

definition limit :: "AckBuffer \<Rightarrow> u64 \<Rightarrow> nat option" where
  "limit b q = (case List.find (\<lambda>t. t_seq t = q) (receipts b) of None \<Rightarrow> None
     | Some t \<Rightarrow> if t_max t = 0 then None else Some (unat (t_max t) - unat (t_sends t)))"

definition slot_at :: "AckBuffer \<Rightarrow> nat \<Rightarrow> slot" where
  "slot_at b i = (let q = firstSeqNum b + of_nat i in
     if q \<in> retired b then Gone else Live (the (buff b ! i)) (limit b q))"

definition slots :: "AckBuffer \<Rightarrow> slot list" where
  "slots b = map (slot_at b) [0..<nfree b]"

definition window_of :: "AckBuffer \<Rightarrow> window" where
  "window_of b = \<lparr>a_first = firstSeqNum b, a_slots = slots b, a_sent = ndel b\<rparr>"

lemma slots_simps [simp]: "length (slots b) = nfree b" "i < nfree b \<Longrightarrow> slots b ! i = slot_at b i"
  by (simp_all add: slots_def)

lemma window_of_simps [simp]: "a_first (window_of b) = firstSeqNum b" "a_slots (window_of b) = slots b" "a_sent (window_of b) = ndel b"
  by (simp_all add: window_of_def)

lemma slot_at_Gone: "slot_at b i = Gone \<longleftrightarrow> firstSeqNum b + of_nat i \<in> retired b"
  by (simp add: slot_at_def Let_def)

lemma window_cong:
  "firstSeqNum b' = firstSeqNum b \<Longrightarrow> nextIndexFree b' = nextIndexFree b \<Longrightarrow> retired b' = retired b \<Longrightarrow> buff b' = buff b \<Longrightarrow>
   receipts b' = receipts b \<Longrightarrow> nextIndexToDeliver b' = nextIndexToDeliver b \<Longrightarrow> window_of b' = window_of b"
  by (simp add: window_of_def slots_def slot_at_def limit_def Let_def)

lemma slots_cong:
  "firstSeqNum b' = firstSeqNum b \<Longrightarrow> nextIndexFree b' = nextIndexFree b \<Longrightarrow> retired b' = retired b \<Longrightarrow> buff b' = buff b \<Longrightarrow>
   receipts b' = receipts b \<Longrightarrow> slots b' = slots b"
  by (simp add: slots_def slot_at_def limit_def Let_def)

lemma find_filter: "(\<And>x. P x \<Longrightarrow> Q x) \<Longrightarrow> List.find P (filter Q xs) = List.find P xs"
  by (induction xs) auto

lemma gap_run: "gap (window_of b) = retired_run b"
  by (simp add: gap_def retired_run_def slots_def takeWhile_map comp_def slot_at_Gone)

section \<open>Effect of a removal and of a retirement\<close>

lemma slots_dropped:
  assumes "win_ok b" and d: "dropped k a b b'"
  shows "slots b' = drop k (slots b)"
proof (rule nth_equalityI)
  note f = dropped_fields [OF d]
  show "length (slots b') = length (drop k (slots b))" by (simp add: f)
  show "slots b' ! i = drop k (slots b) ! i" if "i < length (slots b')" for i
  proof -
    have i: "i < nfree b - k" using that f by simp
    let ?q = "firstSeqNum b' + of_nat i"
    have q: "?q = firstSeqNum b + of_nat (k + i)" by (simp add: f algebra_simps)
    have "k + i < 2 ^ 64" using i unat_less_2_64 [of "nextIndexFree b"] by (simp del: unat_less_2_64)
    then have sl: "slot_of b ?q = k + i" unfolding q by (rule slot_of_nth)
    have "limit b' ?q = limit b ?q"
      unfolding limit_def dropped_frame(17) [OF d] kept_receipts_def by (subst find_filter) (use sl in auto)
    moreover have "?q \<in> retired b' \<longleftrightarrow> ?q \<in> retired b" using sl by (simp add: f(5))
    ultimately have "slot_at b' i = slot_at b (k + i)"
      using dropped_nth [OF assms(1) d i] by (simp add: slot_at_def Let_def q)
    then show ?thesis using i f by (simp add: add.commute)
  qed
qed

lemma window_dropped: "win_ok b \<Longrightarrow> dropped k a b b' \<Longrightarrow> window_of b' = w_drop k (window_of b)"
  by (simp add: window_of_def w_drop_def slots_dropped dropped_fields)

lemma window_retire:
  assumes "slots_ok b" and "list_ok b" and "t \<in> set (receipts b)"
  shows "window_of (retire_state t b y es wc) = w_gone (slot_of b (t_seq t)) (window_of b)"
proof -
  let ?i = "slot_of b (t_seq t)" and ?b = "retire_state t b y es wc"
  have i: "?i < nfree b" using assms(2,3) by (simp add: list_ok_def)
  have "slots ?b = (slots b)[?i := Gone]"
  proof (rule nth_equalityI)
    show "length (slots ?b) = length ((slots b)[?i := Gone])" by (simp add: retire_state_def)
    show "slots ?b ! j = (slots b)[?i := Gone] ! j" if "j < length (slots ?b)" for j
    proof (cases "j = ?i")
      case True
      then show ?thesis using i by (simp add: retire_state_def slot_at_def)
    next
      case False
      have "firstSeqNum b + of_nat j \<noteq> t_seq t"
      proof
        assume "firstSeqNum b + of_nat j = t_seq t"
        then have "?i = unat (firstSeqNum b + of_nat j - firstSeqNum b)" by simp
        also have "\<dots> = j" using that unat_less_2_64 [of "nextIndexFree b"]
          by (intro slot_of_nth) (simp add: retire_state_def del: unat_less_2_64)
        finally show False using False by simp
      qed
      then show ?thesis using that False by (simp add: retire_state_def slot_at_def limit_def Let_def)
    qed
  qed
  then show ?thesis by (simp add: window_of_def w_gone_def) (simp add: retire_state_def)
qed

section \<open>Which acknowledgements are accepted\<close>

definition acceptable :: "u64 \<Rightarrow> AckBuffer \<Rightarrow> bool" where
  "acceptable sq b \<longleftrightarrow> slot_of b sq < nfree b \<and> (slot_of b sq < ndel b \<or> slot_of b sq = 0 \<and> ndel b = 0)"

definition late_ack :: "u64 \<Rightarrow> AckBuffer \<Rightarrow> bool" where
  "late_ack sq b \<longleftrightarrow> nfree b \<le> slot_of b sq \<and> (\<exists>r. releasedRetired b = Some r \<and> ring_has sq r)"

definition ack_counted :: "AckBuffer \<Rightarrow> AckBuffer" where
  "ack_counted b = b\<lparr>onAckCalls := (if onAck b then onAckCalls b + 1 else onAckCalls b)\<rparr>"

lemma ack_counted_simps [simp]: "firstSeqNum (ack_counted b) = firstSeqNum b" "nextIndexFree (ack_counted b) = nextIndexFree b"
    "nextIndexToDeliver (ack_counted b) = nextIndexToDeliver b" "b_group (ack_counted b) = b_group b"
    "releasedRetired (ack_counted b) = releasedRetired b" "buff (ack_counted b) = buff b" "nextSeqNum (ack_counted b) = nextSeqNum b"
  by (simp_all add: ack_counted_def)

lemma ack_counted_if: "(if onAck b then b\<lparr>onAckCalls := onAckCalls b + 1\<rparr> else b) = ack_counted b"
  by (simp add: ack_counted_def)

lemma Ack_accept:
  assumes "win_ok b" and "acceptable sq b"
  shows "Ack sq (b, p) = do {
     (b1, p1) \<leftarrow> removePrefixLocked (sq - firstSeqNum b) (ack_counted b, p);
     (b2, p2) \<leftarrow> releaseRetiredHeadLocked (dropReceiptsLocked (firstSeqNum b) (sq - firstSeqNum b) True b1, p1);
     Some (None, (b2, p2))
   }"
proof -
  have in_w: "firstSeqNum b \<le> sq" "sq < nextSeqNum b" "slot_of b sq < nfree b"
    using assms in_window [of b sq] by (auto simp: acceptable_def)
  have "nfree b \<le> length (buff b)" using assms(1) by (simp add: win_ok_def)
  then have f: "\<not> buffLen b \<le> sq - firstSeqNum b" "\<not> nextIndexFree b \<le> sq - firstSeqNum b"
      "\<not> (sq - firstSeqNum b \<ge> nextIndexToDeliver b \<and> \<not> (nextIndexToDeliver b = 0 \<and> sq - firstSeqNum b = 0))"
    using in_w(3) assms(2) win_size [OF assms(1)]
    by (auto simp: word_le_nat_alt acceptable_def unat_eq_0)
  have g: "\<not> sq < firstSeqNum b" "\<not> nextSeqNum b \<le> sq" using in_w(1,2) by auto
  show ?thesis
    by (simp only: Ack_def Let_def prod.case ack_counted_if ack_counted_simps f g if_False simp_thms) (simp only: ackReceiptsLocked_def)
qed

lemma Ack_reject:
  assumes "win_ok b" and "\<not> acceptable sq b"
  obtains r where "Ack sq (b, p) = Some (r, (ack_counted b, p))" "r = None \<longleftrightarrow> late_ack sq b"
    "nfree b \<le> slot_of b sq \<Longrightarrow> \<not> late_ack sq b \<Longrightarrow> r \<in> {Some (ErrAckUnexpected sq), Some (ErrAckNotInBuffer sq)}"
    "slot_of b sq < nfree b \<Longrightarrow> r = Some (ErrAckNotDelivered sq (sq - firstSeqNum b) (firstSeqNum b + nextIndexToDeliver b) (nextIndexToDeliver b))"
proof -
  show thesis
  proof (cases "slot_of b sq < nfree b")
    case False
    then have out: "nextIndexFree b \<le> sq - firstSeqNum b" by (simp add: word_le_nat_alt)
    let ?r = "if late_ack sq b then None
      else if (sq < firstSeqNum b \<and> buffLen b - (MaxUint64 - firstSeqNum b) \<le> sq) \<or> (sq \<ge> nextSeqNum b \<and> sq \<noteq> MaxUint64 \<and> nextSeqNum b \<noteq> 0)
      then Some (ErrAckUnexpected sq) else Some (ErrAckNotInBuffer sq)"
    have "Ack sq (b, p) = Some (?r, (ack_counted b, p))"
      using out False by (simp only: Ack_def Let_def prod.case ack_counted_if) (auto simp: late_ack_def)
    then show thesis by (rule that) (use False in auto)
  next
    case True
    have in_w: "firstSeqNum b \<le> sq" "sq < nextSeqNum b" using True in_window [OF assms(1), of sq] by auto
    have g: "\<not> sq < firstSeqNum b" "\<not> nextSeqNum b \<le> sq" using in_w by auto
    have del: "ndel b \<le> slot_of b sq" "\<not> (ndel b = 0 \<and> slot_of b sq = 0)" using assms(2) True by (auto simp: acceptable_def)
    obtain m where m: "buff b ! ndel b = Some m" "SeqNum m = firstSeqNum b + nextIndexToDeliver b"
      using assms(1) del(1) True by (auto simp: win_ok_def dest!: spec [of _ "ndel b"])
    have len: "nfree b \<le> length (buff b)" using assms(1) by (simp add: win_ok_def)
    have cmp: "\<not> nextIndexFree b \<le> sq - firstSeqNum b" "\<not> buffLen b \<le> sq - firstSeqNum b" "nextIndexToDeliver b < buffLen b"
        "nextIndexToDeliver b \<le> sq - firstSeqNum b" "\<not> (nextIndexToDeliver b = 0 \<and> sq - firstSeqNum b = 0)"
      using True del len win_size [OF assms(1)] by (auto simp: word_le_nat_alt word_less_nat_alt unat_eq_0)
    let ?r = "ErrAckNotDelivered sq (sq - firstSeqNum b) (firstSeqNum b + nextIndexToDeliver b) (nextIndexToDeliver b)"
    have "Ack sq (b, p) = Some (Some ?r, (ack_counted b, p))"
      by (simp only: Ack_def Let_def prod.case ack_counted_if ack_counted_simps cmp g m if_False if_True simp_thms option.case)
    then show thesis by (rule that) (use True in \<open>auto simp: late_ack_def\<close>)
  qed
qed

section \<open>The invariant at rest\<close>

text \<open>The acknowledgement callback only counts.\<close>

lemma onAckCalls_simps [simp]:
  "slots_ok (b\<lparr>onAckCalls := n\<rparr>) = slots_ok b" "rec_ok (b\<lparr>onAckCalls := n\<rparr>) = rec_ok b"
  "ready_ok (b\<lparr>onAckCalls := n\<rparr>) = ready_ok b" "soft_ok (b\<lparr>onAckCalls := n\<rparr>) = soft_ok b"
  "window_of (b\<lparr>onAckCalls := n\<rparr>) = window_of b" "win_ok (b\<lparr>onAckCalls := n\<rparr>) = win_ok b" "loop_ok (b\<lparr>onAckCalls := n\<rparr>) = loop_ok b"
  by (simp_all add: slots_ok_def win_ok_def ev_ok_def wake_ok_def acct_ok_def ret_ok_def flag_ok_def held_flag_def
      rec_ok_def list_ok_def cursor_of_def ready_ok_def soft_ok_def loop_ok_def window_of_def slots_def slot_at_def limit_def Let_def)

lemma releasedRetired_simps [simp]:
  "slots_ok (b\<lparr>releasedRetired := r\<rparr>) = slots_ok b" "win_ok (b\<lparr>releasedRetired := r\<rparr>) = win_ok b"
  "soft_ok (b\<lparr>releasedRetired := r\<rparr>) = soft_ok b" "window_of (b\<lparr>releasedRetired := r\<rparr>) = window_of b"
  by (simp_all add: slots_ok_def win_ok_def ev_ok_def wake_ok_def acct_ok_def ret_ok_def flag_ok_def held_flag_def
      soft_ok_def window_of_def slots_def slot_at_def limit_def Let_def)

lemma w_drop_0 [simp]: "w_drop 0 w = w"
  by (simp add: w_drop_def)

lemma soft_dropped:
  assumes "soft_ok b" and d: "dropped k a b b'"
  shows "soft_ok b'"
  using assms(1) dropped_fields(5,6) [OF d] dropped_frame(10,11,17) [OF d] by (auto simp: soft_ok_def kept_receipts_def split: if_splits)

lemma trim_frame:
  assumes "if retired_run b = 0 then b' = b else \<exists>r. dropped (retired_run b) False (b\<lparr>releasedRetired := r\<rparr>) b'"
  shows "b_group b' = b_group b" "isRunning b' = isRunning b" "nextSeqNum b' = nextSeqNum b" "cells b' = cells b"
proof -
  have "b_group b' = b_group b \<and> isRunning b' = isRunning b \<and> nextSeqNum b' = nextSeqNum b \<and> cells b' = cells b"
  proof (cases "retired_run b = 0")
    case False
    then obtain r where d: "dropped (retired_run b) False (b\<lparr>releasedRetired := r\<rparr>) b'" using assms by auto
    from dropped_frame(2,3,8,18) [OF d] show ?thesis by (simp add: acked_cells_def fun_eq_iff)
  qed (use assms in simp)
  then show "b_group b' = b_group b" "isRunning b' = isRunning b" "nextSeqNum b' = nextSeqNum b" "cells b' = cells b" by simp_all
qed

context shared_budget
begin

definition at_rest :: "handed \<Rightarrow> buffer_state \<Rightarrow> bool" where
  "at_rest W s \<longleftrightarrow> core W s \<and> ready_ok (fst s) \<and> firstSeqNum (fst s) \<notin> retired (fst s)"

lemma at_restD:
  assumes "at_rest W (b, p)"
  shows "core W (b, p)" "ready_ok b" "firstSeqNum b \<notin> retired b" "acct_ok b" "slots_ok b" "rec_ok b" "books W b p" "win_ok b"
  using assms by (simp_all add: at_rest_def core_def slots_ok_def)

lemma at_rest_onAckCalls [simp]: "at_rest W (b\<lparr>onAckCalls := n\<rparr>, p) = at_rest W (b, p)"
  by (simp add: at_rest_def core_def books_def)

lemma trim_ok:
  assumes "core W (b, p)"
  shows "\<exists>b' p'. releaseRetiredHeadLocked (b, p) = Some (b', p') \<and> core W (b', p') \<and> (p' = None \<longleftrightarrow> p = None) \<and>
     firstSeqNum b' \<notin> retired b' \<and> (loop_ok b \<longrightarrow> loop_ok b') \<and> (ready_ok b \<longrightarrow> ready_ok b') \<and>
     (soft_ok b \<longrightarrow> soft_ok b') \<and> window_of b' = w_trim (window_of b) \<and>
     (if retired_run b = 0 then b' = b else \<exists>r. dropped (retired_run b) False (b\<lparr>releasedRetired := r\<rparr>) b')"
proof -
  from releaseRetiredHead_ok [OF assms] obtain b' p' where r: "releaseRetiredHeadLocked (b, p) = Some (b', p')" "core W (b', p')"
      "p' = None \<longleftrightarrow> p = None" "firstSeqNum b' \<notin> retired b'" "loop_ok b \<longrightarrow> loop_ok b'" "ready_ok b \<longrightarrow> ready_ok b'"
      "if retired_run b = 0 then b' = b else \<exists>r. dropped (retired_run b) False (b\<lparr>releasedRetired := r\<rparr>) b'"
    by blast
  note sl = coreD(1) [OF assms]
  have "(soft_ok b \<longrightarrow> soft_ok b') \<and> window_of b' = w_trim (window_of b)"
  proof (cases "retired_run b = 0")
    case True
    then show ?thesis using r(7) by (simp add: w_trim_def gap_run)
  next
    case False
    then obtain rr where d: "dropped (retired_run b) False (b\<lparr>releasedRetired := rr\<rparr>) b'" using r(7) by auto
    show ?thesis
      using soft_dropped [OF _ d] window_dropped [OF _ d] sl slots_okD(1) [OF sl] by (simp add: w_trim_def gap_run)
  qed
  then show ?thesis using r by blast
qed

lemma remove_prefix_ex:
  assumes "core W (b, p)" and "unat ia < nfree b"
  shows "\<exists>b1 p'. removePrefixLocked ia (b, p) = Some (b1, p') \<and> core W (dropReceiptsLocked (firstSeqNum b) ia a b1, p') \<and>
     dropped (Suc (unat ia)) a b (dropReceiptsLocked (firstSeqNum b) ia a b1) \<and>
     (loop_ok b \<longrightarrow> ready_ok (dropReceiptsLocked (firstSeqNum b) ia a b1)) \<and> (p' = None \<longleftrightarrow> p = None)"
  by (rule remove_prefix [OF assms]) blast

lemma Ack_ok:
  assumes "at_rest W (b, p)"
  shows "\<exists>r b' p'. Ack sq (b, p) = Some (r, (b', p')) \<and> at_rest W (b', p') \<and> (p' = None \<longleftrightarrow> p = None) \<and>
     (soft_ok b \<longrightarrow> soft_ok b') \<and>
     (if acceptable sq b then r = None \<and> window_of b' = w_ack (Suc (slot_of b sq)) (window_of b) \<and>
        isRunning b' = isRunning b \<and> nextSeqNum b' = nextSeqNum b \<and> cells b' = acked_cells (Suc (slot_of b sq)) True b
      else b' = ack_counted b \<and> p' = p)"
proof (cases "acceptable sq b")
  case True
  note w = at_restD(8) [OF assms]
  have c: "core W (ack_counted b, p)" "unat (sq - firstSeqNum b) < nfree (ack_counted b)" "loop_ok (ack_counted b)"
    using at_restD(1,2) [OF assms] True by (auto simp: ack_counted_def core_def books_def acceptable_def loop_ok_def ready_ok_def)
  from remove_prefix_ex [OF c(1,2), of True] obtain b1 p1 where r: "removePrefixLocked (sq - firstSeqNum b) (ack_counted b, p) = Some (b1, p1)"
      "core W (dropReceiptsLocked (firstSeqNum b) (sq - firstSeqNum b) True b1, p1)"
      "dropped (Suc (slot_of b sq)) True (ack_counted b) (dropReceiptsLocked (firstSeqNum b) (sq - firstSeqNum b) True b1)"
      "ready_ok (dropReceiptsLocked (firstSeqNum b) (sq - firstSeqNum b) True b1)" "p1 = None \<longleftrightarrow> p = None"
    using c(3) by auto
  let ?d = "dropReceiptsLocked (firstSeqNum b) (sq - firstSeqNum b) True b1"
  have sd: "soft_ok b \<Longrightarrow> soft_ok ?d" "window_of ?d = w_drop (Suc (slot_of b sq)) (window_of b)"
    using soft_dropped [OF _ r(3)] window_dropped [OF _ r(3)] at_restD(5,8) [OF assms]
    by (auto simp: ack_counted_def)
  from trim_ok [OF r(2)] obtain b2 p2 where t: "releaseRetiredHeadLocked (?d, p1) = Some (b2, p2)" "core W (b2, p2)"
      "p2 = None \<longleftrightarrow> p1 = None" "firstSeqNum b2 \<notin> retired b2" "ready_ok ?d \<longrightarrow> ready_ok b2" "soft_ok ?d \<longrightarrow> soft_ok b2"
      "window_of b2 = w_trim (window_of ?d)"
      "if retired_run ?d = 0 then b2 = ?d else \<exists>r. dropped (retired_run ?d) False (?d\<lparr>releasedRetired := r\<rparr>) b2"
    by blast
  have fr: "b_group b2 = b_group b" "isRunning b2 = isRunning b" "nextSeqNum b2 = nextSeqNum b"
      "cells b2 = acked_cells (Suc (slot_of b sq)) True b"
    using trim_frame [OF t(8)] dropped_frame(2,3,8,18) [OF r(3)] by (simp_all add: ack_counted_def acked_cells_def fun_eq_iff)
  then have "at_rest W (b2, p2)" using t r(4) by (auto simp: at_rest_def)
  moreover have "Ack sq (b, p) = Some (None, (b2, p2))" using Ack_accept [OF w True, of p] r(1) t(1) by simp
  ultimately show ?thesis using True r(5) t(3,6,7) sd fr by (auto simp: w_ack_def)
next
  case False
  obtain r where "Ack sq (b, p) = Some (r, (ack_counted b, p))" by (rule Ack_reject [OF at_restD(8) [OF assms] False])
  then show ?thesis using False assms by (auto simp: ack_counted_def)
qed

end

end
