(* ===== verification/AckDeliver.thy ===== *)
theory AckDeliver
  imports AckWindow
begin

text \<open>
  Delivery: the loop of \<open>GetNextToDeliver\<close> ends and hands out what \<open>w_next\<close> says, and
  \<open>ResetDelivery\<close> is \<open>w_reset\<close>.
\<close>

section \<open>The cursor\<close>

lemma find_distinct: "distinct (map f ts) \<Longrightarrow> t \<in> set ts \<Longrightarrow> List.find (\<lambda>u. f u = f t) ts = Some t"
  by (induction ts) auto

lemma entry_next_eq:
  fixes f :: "trackedAdmission \<Rightarrow> nat"
  assumes "sorted_wrt (\<lambda>s t. f s < f t) ts" and "distinct (map t_id ts)" and "t \<in> set ts"
  shows "entry_next (t_id t) ts = head_id (filter (\<lambda>u. f t < f u) ts)"
  using assms
proof (induction ts)
  case (Cons a ts)
  show ?case
  proof (cases "a = t")
    case True
    then have "filter (\<lambda>u. f t < f u) ts = ts" using Cons.prems(1) by (auto intro: filter_True)
    then show ?thesis using True by (cases ts) auto
  next
    case False
    then have t: "t \<in> set ts" using Cons.prems(3) by simp
    then have "t_id a \<noteq> t_id t" "\<not> f t < f a" using Cons.prems(1,2) by auto
    then show ?thesis using Cons t by simp
  qed
qed simp

lemma distinct_map_sorted: "sorted_wrt (\<lambda>s t. f s < (f t :: nat)) ts \<Longrightarrow> distinct (map f ts)"
  by (induction ts) auto

definition tracked_at :: "nat \<Rightarrow> AckBuffer \<Rightarrow> trackedAdmission option" where
  "tracked_at i b = List.find (\<lambda>t. slot_of b (t_seq t) = i) (receipts b)"

lemma tracked_at_Some: "tracked_at i b = Some t \<Longrightarrow> t \<in> set (receipts b) \<and> slot_of b (t_seq t) = i"
  by (auto simp: tracked_at_def find_Some_iff)

lemma tracked_at_None: "tracked_at i b = None \<longleftrightarrow> (\<forall>t \<in> set (receipts b). slot_of b (t_seq t) \<noteq> i)"
  by (auto simp: tracked_at_def find_None_iff)

definition cursor_entry :: "AckBuffer \<Rightarrow> trackedAdmission option" where
  "cursor_entry b = (case Option.bind (deliverCursor b) (\<lambda>i. find_entry i b) of None \<Rightarrow> None
     | Some t \<Rightarrow> if t_seq t - firstSeqNum b = nextIndexToDeliver b then Some t else None)"

definition cursor_next :: "AckBuffer \<Rightarrow> nat option" where
  "cursor_next b = (case cursor_entry b of None \<Rightarrow> deliverCursor b | Some t \<Rightarrow> entry_next (t_id t) (receipts b))"

lemma cursor_entry_eq:
  assumes "rec_ok b"
  shows "cursor_entry b = tracked_at (ndel b) b"
    and "cursor_next b = head_id (filter (\<lambda>t. Suc (ndel b) \<le> slot_of b (t_seq t)) (receipts b))"
proof -
  let ?f = "\<lambda>t. slot_of b (t_seq t)"
  have l: "sorted_wrt (\<lambda>s t. ?f s < ?f t) (receipts b)" "distinct (map t_id (receipts b))"
    and c: "deliverCursor b = head_id (filter (\<lambda>t. ndel b \<le> ?f t) (receipts b))"
    using assms by (simp_all add: rec_ok_def list_ok_def cursor_of_def)
  have "cursor_entry b = tracked_at (ndel b) b \<and>
      cursor_next b = head_id (filter (\<lambda>t. Suc (ndel b) \<le> ?f t) (receipts b))"
  proof (cases "filter (\<lambda>t. ndel b \<le> ?f t) (receipts b)")
    case Nil
    then have none: "\<forall>t \<in> set (receipts b). \<not> ndel b \<le> ?f t" by (simp add: filter_empty_conv)
    then have "filter (\<lambda>t. Suc (ndel b) \<le> ?f t) (receipts b) = []" "tracked_at (ndel b) b = None"
      by (auto simp: filter_empty_conv tracked_at_None)
    moreover have "cursor_entry b = None" using c Nil by (simp add: cursor_entry_def)
    ultimately show ?thesis using c Nil by (simp add: cursor_next_def)
  next
    case (Cons t r)
    have t: "t \<in> set (receipts b)" "ndel b \<le> ?f t"
      using Cons list.set_intros(1) [of t r] by (simp_all flip: Cons)
    have least: "?f t \<le> ?f u" if "u \<in> set (receipts b)" "ndel b \<le> ?f u" for u
    proof -
      have "sorted_wrt (\<lambda>s t. ?f s < ?f t) (t # r)" using l(1) by (simp flip: Cons add: sorted_wrt_filter)
      moreover have "u \<in> set (t # r)" using that by (simp flip: Cons)
      ultimately show ?thesis by auto
    qed
    have fe: "find_entry (t_id t) b = Some t" unfolding find_entry_def using l(2) t(1) by (rule find_distinct)
    have cd: "deliverCursor b = Some (t_id t)" using c Cons by simp
    show ?thesis
    proof (cases "?f t = ndel b")
      case True
      then have e: "cursor_entry b = Some t" using fe cd by (simp add: cursor_entry_def word_unat_eq_iff)
      moreover have "tracked_at (ndel b) b = Some t"
      proof -
        have "distinct (map ?f (receipts b))" using l(1) by (simp add: distinct_map_sorted)
        from find_distinct [OF this t(1)] show ?thesis using True by (simp add: tracked_at_def)
      qed
      moreover have "entry_next (t_id t) (receipts b) = head_id (filter (\<lambda>u. Suc (ndel b) \<le> ?f u) (receipts b))"
        using entry_next_eq [OF l t(1)] True by (simp add: Suc_le_eq)
      ultimately show ?thesis by (simp add: cursor_next_def)
    next
      case False
      then have e: "cursor_entry b = None" using fe cd by (simp add: cursor_entry_def word_unat_eq_iff)
      have "tracked_at (ndel b) b = None" using least False t(2) by (force simp: tracked_at_None)
      moreover have "filter (\<lambda>u. Suc (ndel b) \<le> ?f u) (receipts b) = filter (\<lambda>u. ndel b \<le> ?f u) (receipts b)"
        using least False t(2) by (intro filter_cong) force+
      ultimately show ?thesis using e c by (simp add: cursor_next_def)
    qed
  qed
  then show "cursor_entry b = tracked_at (ndel b) b" "cursor_next b = head_id (filter (\<lambda>t. Suc (ndel b) \<le> ?f t) (receipts b))"
    by simp_all
qed

section \<open>Advancing past a slot\<close>

definition advance :: "AckBuffer \<Rightarrow> AckBuffer" where
  "advance b = b\<lparr>deliverCursor := cursor_next b, nextIndexToDeliver := nextIndexToDeliver b + 1\<rparr>"

definition static :: "AckBuffer \<Rightarrow> nat option \<times> bool \<times> bool \<times> u64 \<times> bool \<times> bool \<times> u64 \<times> u64" where
  "static b = (b_group b, registered b, accounting b, maxBytes b, isRunning b, isClosed b, nextSeqNum b, currentCapacity b)"

lemma static_dropped: "dropped k a b b' \<Longrightarrow> static b' = static b"
  by (simp add: static_def dropped_frame)

lemma trim_static:
  assumes "if retired_run b = 0 then b' = b else \<exists>r. dropped (retired_run b) False (b\<lparr>releasedRetired := r\<rparr>) b'"
  shows "static b' = static b"
proof (cases "retired_run b = 0")
  case False
  then obtain r where "dropped (retired_run b) False (b\<lparr>releasedRetired := r\<rparr>) b'" using assms by auto
  from static_dropped [OF this] show ?thesis by (simp add: static_def)
qed (use assms in simp)

lemma ndel_Suc: "win_ok b \<Longrightarrow> ndel b < nfree b \<Longrightarrow> unat (nextIndexToDeliver b + 1) = Suc (ndel b)"
  using unat_less_2_64 [of "nextIndexFree b"] by (intro unat_Suc_exact) (simp del: unat_less_2_64)

lemma advance_simps [simp]:
  "nextIndexFree (advance b) = nextIndexFree b" "firstSeqNum (advance b) = firstSeqNum b" "buff (advance b) = buff b"
  "retired (advance b) = retired b" "receipts (advance b) = receipts b" "isReadyToDeliver (advance b) = isReadyToDeliver b"
  "b_group (advance b) = b_group b" "static (advance b) = static b" "isRunning (advance b) = isRunning b"
  by (simp_all add: advance_def static_def)

lemma advance_ok:
  assumes "slots_ok b" and "rec_ok b" and "ndel b < nfree b"
  shows "slots_ok (advance b)" "rec_ok (advance b)" "ndel (advance b) = Suc (ndel b)" "soft_ok (advance b) = soft_ok b"
    "window_of (advance b) = window_of b\<lparr>a_sent := Suc (ndel b)\<rparr>"
proof -
  note n = ndel_Suc [OF slots_okD(1) [OF assms(1)] assms(3)]
  show "ndel (advance b) = Suc (ndel b)" using n by (simp add: advance_def)
  show "slots_ok (advance b)"
    using assms(1,3) n by (simp add: advance_def slots_ok_def win_ok_def ev_ok_def wake_ok_def acct_ok_def ret_ok_def flag_ok_def held_flag_def)
  show "rec_ok (advance b)"
    using assms(2) cursor_entry_eq(2) [OF assms(2)] n by (simp add: advance_def rec_ok_def list_ok_def cursor_of_def)
  show "soft_ok (advance b) = soft_ok b" by (simp add: advance_def soft_ok_def)
  show "window_of (advance b) = window_of b\<lparr>a_sent := Suc (ndel b)\<rparr>"
    using n by (simp add: window_of_def advance_def slots_def slot_at_def limit_def Let_def)
qed

lemma limit_at:
  assumes "i < nfree b"
  shows "limit b (firstSeqNum b + of_nat i) = (case tracked_at i b of None \<Rightarrow> None
     | Some t \<Rightarrow> if t_max t = 0 then None else Some (unat (t_max t) - unat (t_sends t)))"
proof -
  have i: "unat (of_nat i :: u64) = i"
    using assms unat_less_2_64 [of "nextIndexFree b"] by (intro unat_of_nat_exact) (simp del: unat_less_2_64)
  have "t_seq t = firstSeqNum b + of_nat i \<longleftrightarrow> slot_of b (t_seq t) = i" for t
    using i slot_seq [of "firstSeqNum b" "t_seq t"] by (metis add_diff_cancel_left')
  then have eq: "(\<lambda>t. t_seq t = firstSeqNum b + of_nat i) = (\<lambda>t. slot_of b (t_seq t) = i)" by blast
  show ?thesis unfolding limit_def tracked_at_def eq ..
qed

lemma limit_tracked:
  assumes "ndel b < nfree b"
  shows "limit b (firstSeqNum b + nextIndexToDeliver b) = (case tracked_at (ndel b) b of None \<Rightarrow> None
     | Some t \<Rightarrow> if t_max t = 0 then None else Some (unat (t_max t) - unat (t_sends t)))"
  using limit_at [OF assms] by simp

definition spent :: "trackedAdmission \<Rightarrow> bool" where
  "spent t \<longleftrightarrow> t_max t \<noteq> 0 \<and> t_max t \<le> t_sends t"

lemma exhausted_slot:
  assumes "list_ok b" and "i < nfree b"
  shows "(if \<exists>t \<in> set (receipts b). slot_of b (t_seq t) = i \<and> spent t then Gone else slots b ! i) = exhausted (slots b ! i)"
proof (cases "firstSeqNum b + of_nat i \<in> retired b")
  case True
  then show ?thesis using assms(2) by (simp add: slot_at_def exhausted_def)
next
  case False
  have uniq: "tracked_at i b = Some t" if "t \<in> set (receipts b)" "slot_of b (t_seq t) = i" for t
  proof -
    have "distinct (map (\<lambda>t. slot_of b (t_seq t)) (receipts b))" using assms(1) by (simp add: list_ok_def distinct_map_sorted)
    from find_distinct [OF this that(1)] show ?thesis using that(2) by (simp add: tracked_at_def)
  qed
  have "(\<exists>t \<in> set (receipts b). slot_of b (t_seq t) = i \<and> spent t) \<longleftrightarrow> limit b (firstSeqNum b + of_nat i) = Some 0"
  proof (cases "tracked_at i b")
    case None
    then have "limit b (firstSeqNum b + of_nat i) = None" using limit_at [OF assms(2)] by simp
    then show ?thesis using None by (auto simp: tracked_at_None)
  next
    case (Some t)
    have "(\<exists>t \<in> set (receipts b). slot_of b (t_seq t) = i \<and> spent t) \<longleftrightarrow> spent t"
      using uniq tracked_at_Some [OF Some] Some by auto
    then show ?thesis using limit_at [OF assms(2)] Some by (simp add: spent_def word_le_nat_alt)
  qed
  then show ?thesis using assms(2) False by (auto simp: slot_at_def exhausted_def Let_def split: option.splits nat.splits)
qed

text \<open>One more transmission of a tracked entry.\<close>

lemma count_send_simps [simp]:
  "nextIndexFree (count_send i b) = nextIndexFree b" "firstSeqNum (count_send i b) = firstSeqNum b" "buff (count_send i b) = buff b"
  "retired (count_send i b) = retired b" "nextIndexToDeliver (count_send i b) = nextIndexToDeliver b"
  "deliverCursor (count_send i b) = deliverCursor b" "static (count_send i b) = static b" "b_group (count_send i b) = b_group b"
  "isRunning (count_send i b) = isRunning b"
  by (simp_all add: count_send_def static_def)

lemma filter_count:
  assumes "\<And>t. P (t\<lparr>t_sends := t_sends t + 1\<rparr>) = P t"
  shows "head_id (filter P (map (\<lambda>t. if t_id t = i then t\<lparr>t_sends := t_sends t + 1\<rparr> else t) ts)) = head_id (filter P ts)"
  using assms by (induction ts) auto

lemma count_send_ok:
  assumes "slots_ok b" and "list_ok b" and "t \<in> set (receipts b)" and "t_max t \<noteq> 0" and "t_sends t < t_max t"
  shows "slots_ok (count_send (t_id t) b)" "list_ok (count_send (t_id t) b)" "cursor_of (count_send (t_id t) b) = cursor_of b"
    "soft_ok (count_send (t_id t) b) = soft_ok b"
proof -
  show "slots_ok (count_send (t_id t) b)"
    using assms(1) by (simp add: count_send_def slots_ok_def win_ok_def ev_ok_def wake_ok_def acct_ok_def ret_ok_def flag_ok_def held_flag_def)
  let ?g = "\<lambda>u. if t_id u = t_id t then u\<lparr>t_sends := t_sends u + 1\<rparr> else u"
  have g: "t_id (?g u) = t_id u" "t_state (?g u) = t_state u" "t_seq (?g u) = t_seq u" "t_max (?g u) = t_max u" for u by simp_all
  have fn: "t_id \<circ> ?g = t_id" "t_state \<circ> ?g = t_state" by (simp_all add: fun_eq_iff)
  have snd: "t_sends (?g u) \<le> t_max u" if "u \<in> set (receipts b)" "t_max u \<noteq> 0" for u
  proof -
    have "t_sends t + 1 \<le> t_max t" using assms(5) by (metis inc_le)
    moreover have "u = t" if "t_id u = t_id t" using list_ok_inj(3) [OF assms(2) \<open>u \<in> _\<close> assms(3) that] .
    ultimately show ?thesis using that assms(2) by (auto simp: list_ok_def)
  qed
  have "receipts (count_send (t_id t) b) = map ?g (receipts b)" "cells (count_send (t_id t) b) = cells b"
    "next_entry (count_send (t_id t) b) = next_entry b" by (simp_all add: count_send_def)
  then show "list_ok (count_send (t_id t) b)"
    using assms(2) snd unfolding list_ok_def
    by (simp add: sorted_wrt_map g fn split del: if_split del: if_image_distrib)
  show "cursor_of (count_send (t_id t) b) = cursor_of b" by (simp add: cursor_of_def count_send_def filter_count)
  show "soft_ok (count_send (t_id t) b) = soft_ok b"
    by (simp add: soft_ok_def count_send_def g split del: if_split del: if_image_distrib)
qed

lemma find_map: "List.find P (map f xs) = map_option f (List.find (P \<circ> f) xs)"
  by (induction xs) auto

lemma slots_count_send:
  assumes "list_ok b" and "t \<in> set (receipts b)" and "t_max t \<noteq> 0" and "t_sends t < t_max t" and "t_seq t \<notin> retired b"
  shows "slots (count_send (t_id t) b) =
    (slots b)[slot_of b (t_seq t) := Live (the (buff b ! slot_of b (t_seq t))) (Some (unat (t_max t) - unat (t_sends t) - 1))]"
proof (rule nth_equalityI)
  let ?g = "\<lambda>u. if t_id u = t_id t then u\<lparr>t_sends := t_sends u + 1\<rparr> else u" and ?i = "slot_of b (t_seq t)"
  let ?b = "count_send (t_id t) b"
  show "length (slots ?b) = length ((slots b)[?i := Live (the (buff b ! ?i)) (Some (unat (t_max t) - unat (t_sends t) - 1))])" by simp
  have lim: "limit ?b q = (if q = t_seq t then Some (unat (t_max t) - unat (t_sends t) - 1) else limit b q)" for q
  proof -
    have f: "List.find (\<lambda>u. t_seq u = q) (receipts ?b) = map_option ?g (List.find (\<lambda>u. t_seq u = q) (receipts b))"
      by (simp add: count_send_def find_map comp_def if_distrib cong: if_cong)
    show ?thesis
    proof (cases "List.find (\<lambda>u. t_seq u = q) (receipts b)")
      case None
      then have "q \<noteq> t_seq t" using assms(2) by (auto simp: find_None_iff)
      then show ?thesis using f None by (simp add: limit_def)
    next
      case (Some u)
      then have u: "u \<in> set (receipts b)" "t_seq u = q" by (auto simp: find_Some_iff)
      have ident: "t_id u = t_id t \<longleftrightarrow> u = t" "t_seq u = t_seq t \<longleftrightarrow> u = t"
        using list_ok_inj [OF assms(1) u(1) assms(2)] by auto
      have "unat (t_max t) < 2 ^ LENGTH(32)" by (rule unsigned_less)
      then have "unat (t_sends t + 1) = Suc (unat (t_sends t))"
        using assms(4) by (simp add: unat_word_ariths word_less_nat_alt)
      then show ?thesis using f Some ident u(2) assms(3) by (auto simp: limit_def)
    qed
  qed
  show "slots ?b ! j = (slots b)[?i := Live (the (buff b ! ?i)) (Some (unat (t_max t) - unat (t_sends t) - 1))] ! j"
    if "j < length (slots ?b)" for j
  proof -
    have j: "j < nfree b" using that by simp
    then have sl: "slot_of b (firstSeqNum b + of_nat j) = j"
      using unat_less_2_64 [of "nextIndexFree b"] by (intro slot_of_nth) (simp del: unat_less_2_64)
    show ?thesis
    proof (cases "j = ?i")
      case True
      then have "firstSeqNum b + of_nat j = t_seq t" by simp
      then show ?thesis using j True assms(5) lim by (simp add: slot_at_def Let_def)
    next
      case False
      have "firstSeqNum b + of_nat j \<noteq> t_seq t"
      proof
        assume a: "firstSeqNum b + of_nat j = t_seq t"
        show False using sl False unfolding a by simp
      qed
      then show ?thesis using j False lim by (simp add: slot_at_def Let_def)
    qed
  qed
qed

section \<open>Handing a slot out\<close>

lemma onlyRetiredAfter_eq:
  assumes "win_ok b" and "ndel b < nfree b"
  shows "onlyRetiredAfterLocked (nextIndexToDeliver b) b \<longleftrightarrow> (\<forall>s \<in> set (drop (Suc (ndel b)) (slots b)). s = Gone)"
proof (cases "retired b = {}")
  case True
  then have ng: "s \<noteq> Gone" if "s \<in> set (slots b)" for s using that by (auto simp: slots_def slot_at_Gone)
  have "(\<forall>s \<in> set (drop (Suc (ndel b)) (slots b)). s = Gone) \<longleftrightarrow> drop (Suc (ndel b)) (slots b) = []"
    using ng in_set_dropD [of _ "Suc (ndel b)" "slots b"] by (metis empty_iff hd_in_set list.set(1))
  then show ?thesis
    using True assms(2) ndel_Suc [OF assms] by (auto simp: onlyRetiredAfterLocked_def word_unat_eq_iff)
next
  case False
  have "drop (Suc (ndel b)) (slots b) = map (slot_at b) [Suc (ndel b)..<nfree b]" by (simp add: slots_def drop_map)
  then show ?thesis using False by (simp add: onlyRetiredAfterLocked_def list_all_iff slot_at_Gone)
qed

lemma hand_out_ok:
  assumes "slots_ok b" and "loop_ok b" and "ndel b < nfree b"
  shows "\<exists>m rd em. buff b ! ndel b = Some m \<and>
     hand_out (nextIndexToDeliver b) b =
       Some (Some (if \<not> isRunning b \<and> onlyRetiredAfterLocked (nextIndexToDeliver b) b then m\<lparr>AckRequested := True\<rparr> else m),
             b\<lparr>nextIndexToDeliver := nextIndexToDeliver b + 1, isReadyToDeliver := rd, isEmpty := em\<rparr>) \<and>
     event_wf rd \<and> event_wf em \<and> (ev_v em \<longleftrightarrow> \<not> ev_v rd) \<and> (ev_v rd \<longleftrightarrow> Suc (ndel b) < nfree b)"
proof -
  note w = slots_okD(1) [OF assms(1)] and ev = slots_okD(2) [OF assms(1), unfolded ev_ok_def]
  obtain m where m: "buff b ! ndel b = Some m" using w assms(3) by (auto simp: win_ok_def)
  have "nfree b \<le> length (buff b)" using w by (simp add: win_ok_def)
  then have len: "\<not> buffLen b \<le> nextIndexToDeliver b" using assms(3) win_size [OF w] by (simp add: word_le_nat_alt)
  have le: "nextIndexFree b \<le> nextIndexToDeliver b + 1 \<longleftrightarrow> \<not> Suc (ndel b) < nfree b"
    using ndel_Suc [OF w assms(3)] by (simp add: word_le_nat_alt not_less)
  obtain em where em: "Event_Set (isEmpty b) = Some em" "event_wf em" "ev_v em" using ev by (auto elim: Event_Set_wf)
  have rd: "ev_v (isReadyToDeliver b)" using assms(2,3) by (simp add: loop_ok_def)
  show ?thesis
  proof (cases "Suc (ndel b) < nfree b")
    case True
    then show ?thesis
      using m len le ev rd
      by (intro exI [of _ m] exI [of _ "isReadyToDeliver b"] exI [of _ "isEmpty b"]) (simp add: hand_out_def Let_def)
  next
    case False
    then show ?thesis
      using m len le ev em
      by (intro exI [of _ m] exI [of _ "Event_Clear (isReadyToDeliver b)"] exI [of _ em]) (simp add: hand_out_def Let_def)
  qed
qed

lemma events_slots_ok:
  "slots_ok b \<Longrightarrow> event_wf rd \<Longrightarrow> event_wf em \<Longrightarrow> (ev_v em \<longleftrightarrow> \<not> ev_v rd) \<Longrightarrow> slots_ok (b\<lparr>isReadyToDeliver := rd, isEmpty := em\<rparr>)"
  by (simp add: slots_ok_def win_ok_def ev_ok_def wake_ok_def acct_ok_def ret_ok_def flag_ok_def held_flag_def)

lemma events_simps [simp]:
  "rec_ok (b\<lparr>isReadyToDeliver := rd, isEmpty := em\<rparr>) = rec_ok b" "soft_ok (b\<lparr>isReadyToDeliver := rd, isEmpty := em\<rparr>) = soft_ok b"
  "window_of (b\<lparr>isReadyToDeliver := rd, isEmpty := em\<rparr>) = window_of b" "static (b\<lparr>isReadyToDeliver := rd, isEmpty := em\<rparr>) = static b"
  by (simp_all add: rec_ok_def list_ok_def cursor_of_def soft_ok_def window_of_def slots_def slot_at_def limit_def Let_def static_def)

lemma deliver_turn_eq:
  "deliver_turn (b, p) =
     (let b1 = b\<lparr>deliverCursor := cursor_next b\<rparr> in
      if firstSeqNum b + nextIndexToDeliver b \<in> retired b then Some (Inl (advance b, p))
      else (case cursor_entry b of
        None \<Rightarrow> map_option (\<lambda>(n, b). Inr (n, (b, p))) (hand_out (nextIndexToDeliver b) b1)
      | Some t \<Rightarrow>
          if t_max t \<noteq> 0 \<and> t_max t \<le> t_sends t then do {
            (b2, p2) \<leftarrow> retireLocked (nextIndexToDeliver b) t (b1, p);
            s \<leftarrow> releaseRetiredHeadLocked (b2\<lparr>nextIndexToDeliver := nextIndexToDeliver b2 + 1\<rparr>, p2);
            Some (Inl s)
          } else map_option (\<lambda>(n, b). Inr (n, (b, p)))
                   (hand_out (nextIndexToDeliver b) (if t_max t \<noteq> 0 then count_send (t_id t) b1 else b1))))"
proof -
  have c: "(case cursor_entry b of None \<Rightarrow> b | Some t \<Rightarrow> b\<lparr>deliverCursor := entry_next (t_id t) (receipts b)\<rparr>) =
      b\<lparr>deliverCursor := cursor_next b\<rparr>"
    by (cases "cursor_entry b") (simp_all add: cursor_next_def)
  have m: "(do { (n, b) \<leftarrow> h; Some (Inr (n, (b, p))) }) = map_option (\<lambda>(n, b). Inr (n, (b, p))) h" for h
    by (cases h) auto
  show ?thesis
    unfolding deliver_turn_def Let_def prod.case cursor_entry_def [symmetric] c
    by (cases "cursor_entry b") (simp_all add: m advance_def)
qed

lemma slots_ok_ndel: "slots_ok b \<Longrightarrow> unat d \<le> nfree b \<Longrightarrow> slots_ok (b\<lparr>nextIndexToDeliver := d\<rparr>)"
  by (simp add: slots_ok_def win_ok_def ev_ok_def wake_ok_def acct_ok_def ret_ok_def flag_ok_def held_flag_def)

lemma window_ndel: "window_of (b\<lparr>nextIndexToDeliver := d\<rparr>) = window_of b\<lparr>a_sent := unat d\<rparr>"
  by (simp add: window_of_def slots_def slot_at_def limit_def Let_def)

context shared_budget
begin

definition loop_inv :: "handed \<Rightarrow> buffer_state \<Rightarrow> bool" where
  "loop_inv W s \<longleftrightarrow> core W s \<and> loop_ok (fst s) \<and> firstSeqNum (fst s) \<notin> retired (fst s)"

lemma books_static: "static b' = static b \<Longrightarrow> bytes b' = bytes b \<Longrightarrow> escapeBytes b' = escapeBytes b \<Longrightarrow> books W b' p = books W b p"
  by (rule books_cong) (simp_all add: static_def)

lemma static_group: "static b' = static b \<Longrightarrow> b_group b' = b_group b" "static b' = static b \<Longrightarrow> isRunning b' = isRunning b"
  by (simp_all add: static_def)

lemma loop_invD:
  assumes "loop_inv W (b, p)"
  shows "core W (b, p)" "slots_ok b" "rec_ok b" "list_ok b" "books W b p" "loop_ok b" "firstSeqNum b \<notin> retired b" "win_ok b"
  using assms by (simp_all add: loop_inv_def core_def slots_ok_def rec_ok_def)

text \<open>The slot is handed out, by a buffer \<open>c\<close> whose cursor has moved on and which counts the transmission.\<close>

lemma deliver_out:
  assumes inv: "loop_inv W (b, p)" and n: "ndel b < nfree b"
    and c: "c\<lparr>nextIndexToDeliver := nextIndexToDeliver b + 1\<rparr> = c'" "nextIndexToDeliver c = nextIndexToDeliver b"
      "slots_ok c'" "rec_ok c'" "static c = static b" "books W c p" "slots_ok c" "loop_ok c" "nextIndexFree c = nextIndexFree b"
      "firstSeqNum c \<notin> retired c" "soft_ok c = soft_ok b"
    and win: "window_of c' = w_send (ndel b) (window_of b)"
    and live: "slot_at b (ndel b) = Live m lim" "lim \<noteq> Some 0" "buff c = buff b" "retired c = retired b" "firstSeqNum c = firstSeqNum b"
  shows "\<exists>m b'. hand_out (nextIndexToDeliver b) c = Some (Some m, b') \<and> at_rest W (b', p) \<and> static b' = static b \<and> (soft_ok b' = soft_ok b) \<and>
     w_next (\<not> isRunning b) (window_of b) = (Some m, window_of b')"
proof -
  have "ndel c < nfree c" using c(2,9) n by simp
  from hand_out_ok [OF c(7,8) this] obtain m2 rd em where h: "buff c ! ndel c = Some m2"
      "hand_out (nextIndexToDeliver c) c =
       Some (Some (if \<not> isRunning c \<and> onlyRetiredAfterLocked (nextIndexToDeliver c) c then m2\<lparr>AckRequested := True\<rparr> else m2),
             c\<lparr>nextIndexToDeliver := nextIndexToDeliver c + 1, isReadyToDeliver := rd, isEmpty := em\<rparr>)"
      "event_wf rd" "event_wf em" "ev_v em \<longleftrightarrow> \<not> ev_v rd" "ev_v rd \<longleftrightarrow> Suc (ndel c) < nfree c"
    by blast
  let ?b = "c'\<lparr>isReadyToDeliver := rd, isEmpty := em\<rparr>"
  have out: "onlyRetiredAfterLocked (nextIndexToDeliver c) c \<longleftrightarrow> (\<forall>s \<in> set (drop (Suc (ndel b)) (slots b)). s = Gone)"
  proof -
    have "onlyRetiredAfterLocked (nextIndexToDeliver c) c = onlyRetiredAfterLocked (nextIndexToDeliver b) b"
      using c(2,9) live(4,5) by (simp add: onlyRetiredAfterLocked_def)
    then show ?thesis using onlyRetiredAfter_eq [OF loop_invD(8) [OF inv] n] by simp
  qed
  have m2: "m2 = m" using live(1,3) h(1) c(2) by (auto simp: slot_at_def Let_def split: if_splits)
  have st: "static ?b = static b" using c(1,5) by (auto simp: static_def)
  have fields: "bytes ?b = bytes c" "escapeBytes ?b = escapeBytes c" "nextIndexFree ?b = nextIndexFree b" "retired ?b = retired c"
      "firstSeqNum ?b = firstSeqNum c" "nextIndexToDeliver ?b = nextIndexToDeliver b + 1" "soft_ok c' = soft_ok c"
    using c(1,9) by (auto simp: soft_ok_def)
  have "core W (?b, p)"
    using events_slots_ok [OF c(3) h(3,4,5)] c(4,5,6) st books_static [of ?b c W p] fields by (simp add: core_def)
  moreover have "ready_ok ?b" using h(6) ndel_Suc [OF loop_invD(8) [OF inv] n] fields c(2,9) by (simp add: ready_ok_def)
  ultimately have "at_rest W (?b, p)"
    using fields c(10) by (simp add: at_rest_def)
  moreover have "hand_out (nextIndexToDeliver b) c =
      Some (Some (if \<not> isRunning b \<and> (\<forall>s \<in> set (drop (Suc (ndel b)) (slots b)). s = Gone) then m\<lparr>AckRequested := True\<rparr> else m), ?b)"
    using h(2) out m2 c(1,2) static_group(2) [OF c(5)] by auto
  moreover have "w_next (\<not> isRunning b) (window_of b) =
      (Some (if \<not> isRunning b \<and> (\<forall>s \<in> set (drop (Suc (ndel b)) (slots b)). s = Gone) then m\<lparr>AckRequested := True\<rparr> else m), window_of ?b)"
    using n live(1,2) win by (subst w_next.simps) simp
  moreover have "soft_ok ?b = soft_ok b" using fields(7) c(11) by simp
  ultimately show ?thesis using st by blast
qed

lemma cursor_frame:
  assumes "loop_inv W (b, p)"
  shows "slots_ok (b\<lparr>deliverCursor := c\<rparr>)" "list_ok (b\<lparr>deliverCursor := c\<rparr>)" "books W (b\<lparr>deliverCursor := c\<rparr>) p"
    "loop_ok (b\<lparr>deliverCursor := c\<rparr>)" "static (b\<lparr>deliverCursor := c\<rparr>) = static b" "soft_ok (b\<lparr>deliverCursor := c\<rparr>) = soft_ok b"
  using loop_invD [OF assms]
  by (simp_all add: slots_ok_def win_ok_def ev_ok_def wake_ok_def acct_ok_def ret_ok_def flag_ok_def held_flag_def
      list_ok_def books_def loop_ok_def static_def soft_ok_def)

lemma deliver_plain:
  assumes inv: "loop_inv W (b, p)" and n: "ndel b < nfree b" and live: "slot_at b (ndel b) = Live m None"
  shows "\<exists>m b'. hand_out (nextIndexToDeliver b) (b\<lparr>deliverCursor := cursor_next b\<rparr>) = Some (Some m, b') \<and> at_rest W (b', p) \<and>
     static b' = static b \<and> (soft_ok b' = soft_ok b) \<and> w_next (\<not> isRunning b) (window_of b) = (Some m, window_of b')"
proof -
  note adv = advance_ok [OF loop_invD(2,3) [OF inv] n]
  have "window_of (advance b) = w_send (ndel b) (window_of b)"
    using adv(5) live n list_update_id [of "slots b" "ndel b"] by (simp add: w_send_def)
  then show ?thesis
    by (intro deliver_out [OF inv n _ _ adv(1,2), where m = m and lim = None])
      (use cursor_frame [OF inv] loop_invD(7) [OF inv] live in \<open>simp_all add: advance_def\<close>)
qed

lemma deliver_counted:
  assumes inv: "loop_inv W (b, p)" and n: "ndel b < nfree b" and live: "slot_at b (ndel b) = Live m (Some (unat (t_max t) - unat (t_sends t)))"
    and t: "tracked_at (ndel b) b = Some t" "t_max t \<noteq> 0" "t_sends t < t_max t"
  shows "\<exists>m b'. hand_out (nextIndexToDeliver b) (count_send (t_id t) (b\<lparr>deliverCursor := cursor_next b\<rparr>)) = Some (Some m, b') \<and> at_rest W (b', p) \<and>
     static b' = static b \<and> (soft_ok b' = soft_ok b) \<and> w_next (\<not> isRunning b) (window_of b) = (Some m, window_of b')"
proof -
  note adv = advance_ok [OF loop_invD(2,3) [OF inv] n] and cf = cursor_frame [OF inv, of "cursor_next b"]
  have tr: "t \<in> set (receipts b)" "slot_of b (t_seq t) = ndel b" using tracked_at_Some [OF t(1)] by auto
  have nret: "t_seq t \<notin> retired b" using live tr(2) slot_seq [of "firstSeqNum b" "t_seq t"] by (auto simp: slot_at_def Let_def split: if_splits)
  have la: "list_ok (advance b)" using adv(2) by (simp add: rec_ok_def)
  let ?c = "count_send (t_id t) (b\<lparr>deliverCursor := cursor_next b\<rparr>)" and ?c' = "count_send (t_id t) (advance b)"
  note cs = count_send_ok [OF cf(1,2) _ t(2,3)] and cs' = count_send_ok [OF adv(1) la _ t(2,3)]
  have "slots ?c' = (slots b)[ndel b := Live (the (buff b ! ndel b)) (Some (unat (t_max t) - unat (t_sends t) - 1))]"
    using slots_count_send [OF la _ t(2,3)] tr nret slots_cong [of "advance b" b] by simp
  then have "window_of ?c' = w_send (ndel b) (window_of b)"
    using live n adv(3) by (auto simp: window_of_def w_send_def slot_at_def Let_def split: if_splits)
  moreover have "rec_ok ?c'" using adv(2) cs' tr(1) by (simp add: rec_ok_def)
  moreover have "books W ?c p" using cf(3) by (simp add: count_send_def books_def)
  moreover have "loop_ok ?c" using cf(4) by (simp add: count_send_def loop_ok_def)
  ultimately show ?thesis
    using live t(3) cs cs' tr(1) cf(5,6) loop_invD(7) [OF inv]
    by (intro deliver_out [OF inv n, of ?c ?c']) (simp_all add: word_less_nat_alt, simp_all add: count_send_def advance_def)
qed

lemma deliver_retire:
  assumes inv: "loop_inv W (b, p)" and n: "ndel b < nfree b" and live: "slot_at b (ndel b) = Live m (Some 0)"
    and t: "tracked_at (ndel b) b = Some t" "t_max t \<noteq> 0"
  shows "\<exists>b2 p2 b' p'. retireLocked (nextIndexToDeliver b) t (b\<lparr>deliverCursor := cursor_next b\<rparr>, p) = Some (b2, p2) \<and>
     releaseRetiredHeadLocked (b2\<lparr>nextIndexToDeliver := nextIndexToDeliver b2 + 1\<rparr>, p2) = Some (b', p') \<and> loop_inv W (b', p') \<and>
     (p' = None \<longleftrightarrow> p = None) \<and> nfree b' - ndel b' < nfree b - ndel b \<and> static b' = static b \<and> \<not> soft_ok b \<and>
     w_next (\<not> isRunning b) (window_of b) = w_next (\<not> isRunning b) (window_of b')"
proof -
  note cf = cursor_frame [OF inv, of "cursor_next b"]
  have tr: "t \<in> set (receipts b)" "slot_of b (t_seq t) = ndel b" using tracked_at_Some [OF t(1)] by auto
  have hard: "\<not> soft_ok b" using t(2) tr(1) by (auto simp: soft_ok_def)
  let ?b1 = "b\<lparr>deliverCursor := cursor_next b\<rparr>"
  from retireLocked_ok [OF cf(1-3)] tr obtain y es wc p2 where
    r: "retireLocked (t_seq t - firstSeqNum b) t (?b1, p) = Some (retire_state t ?b1 y es wc, p2)"
      "slots_ok (retire_state t ?b1 y es wc)" "list_ok (retire_state t ?b1 y es wc)" "books W (retire_state t ?b1 y es wc) p2"
      "p2 = None \<longleftrightarrow> p = None"
    by auto metis
  let ?b2 = "retire_state t ?b1 y es wc"
  let ?b3 = "?b2\<lparr>nextIndexToDeliver := nextIndexToDeliver b + 1\<rparr>"
  have eq: "nextIndexToDeliver b = t_seq t - firstSeqNum b" using tr(2) by (simp add: word_unat_eq_iff)
  have b2: "nextIndexFree ?b2 = nextIndexFree b" "firstSeqNum ?b2 = firstSeqNum b" "receipts ?b2 = receipts b"
      "nextIndexToDeliver ?b2 = nextIndexToDeliver b" "deliverCursor ?b2 = cursor_next b" "static ?b2 = static b"
      "isReadyToDeliver ?b2 = isReadyToDeliver b" by (simp_all add: retire_state_def static_def)
  have suc: "unat (nextIndexToDeliver b + 1) = Suc (ndel b)" by (rule ndel_Suc [OF loop_invD(8) [OF inv] n])
  have "rec_ok ?b3" using r(3) b2 suc cursor_entry_eq(2) [OF loop_invD(3) [OF inv]] by (simp add: rec_ok_def list_ok_def cursor_of_def)
  moreover have "slots_ok ?b3" by (rule slots_ok_ndel [OF r(2)]) (use suc n b2(1) in simp)
  ultimately have core: "core W (?b3, p2)" using r(4) by (simp add: core_def books_def)
  have w1: "window_of ?b1 = window_of b" by (rule window_cong) simp_all
  have win: "window_of ?b3 = w_gone (ndel b) (window_of b)\<lparr>a_sent := Suc (ndel b)\<rparr>"
    using window_retire [OF cf(1,2), of t y es wc] tr w1 suc window_ndel [where b = ?b2] by simp
  from trim_ok [OF core] obtain b' p' where t3: "releaseRetiredHeadLocked (?b3, p2) = Some (b', p')" "core W (b', p')"
      "p' = None \<longleftrightarrow> p2 = None" "firstSeqNum b' \<notin> retired b'" "loop_ok ?b3 \<longrightarrow> loop_ok b'" "window_of b' = w_trim (window_of ?b3)"
      "if retired_run ?b3 = 0 then b' = ?b3 else \<exists>r. dropped (retired_run ?b3) False (?b3\<lparr>releasedRetired := r\<rparr>) b'"
    by blast
  have "static b' = static b \<and> nfree b' - ndel b' < nfree b - ndel b"
  proof (cases "retired_run ?b3 = 0")
    case True
    then have "b' = ?b3" using t3(7) by simp
    then show ?thesis using b2 suc n by (simp add: static_def)
  next
    case False
    then obtain rr where d: "dropped (retired_run ?b3) False (?b3\<lparr>releasedRetired := rr\<rparr>) b'" using t3(7) by auto
    show ?thesis using dropped_frame(1-3,5-9) [OF d] dropped_fields(2,3) [OF d] b2 suc n by (simp add: static_def)
  qed
  then have st: "static b' = static b" "nfree b' - ndel b' < nfree b - ndel b" by simp_all
  have "loop_ok ?b3" using loop_invD(6) [OF inv] b2 suc n by (simp add: loop_ok_def)
  then have "loop_inv W (b', p')" using t3 by (simp add: loop_inv_def)
  moreover have "w_next (\<not> isRunning b) (window_of b) = w_next (\<not> isRunning b) (window_of b')"
    using n live win t3(6) by (subst w_next.simps) simp
  ultimately show ?thesis using r(1,5) t3(1,3) st hard b2(4) eq by fastforce
qed

lemma deliver_turn_ok:
  assumes inv: "loop_inv W (b, p)" and n: "ndel b < nfree b"
  shows "(\<exists>b' p'. deliver_turn (b, p) = Some (Inl (b', p')) \<and> loop_inv W (b', p') \<and> (p' = None \<longleftrightarrow> p = None) \<and>
      nfree b' - ndel b' < nfree b - ndel b \<and> static b' = static b \<and> (soft_ok b \<longrightarrow> soft_ok b') \<and>
      w_next (\<not> isRunning b) (window_of b) = w_next (\<not> isRunning b) (window_of b')) \<or>
    (\<exists>m b'. deliver_turn (b, p) = Some (Inr (Some m, (b', p))) \<and> at_rest W (b', p) \<and> static b' = static b \<and> (soft_ok b' = soft_ok b) \<and>
      w_next (\<not> isRunning b) (window_of b) = (Some m, window_of b'))"
    (is "?Inl \<or> ?Inr")
proof -
  note i = loop_invD [OF inv] and adv = advance_ok [OF loop_invD(2,3) [OF inv] n]
  let ?q = "firstSeqNum b + nextIndexToDeliver b"
  have q: "slots b ! ndel b = slot_at b (ndel b)" "slot_at b (ndel b) = Gone \<longleftrightarrow> ?q \<in> retired b"
    using n by (simp_all add: slot_at_Gone)
  have entry: "cursor_entry b = tracked_at (ndel b) b" by (rule cursor_entry_eq(1) [OF i(3)])
  show ?thesis
  proof (cases "?q \<in> retired b")
    case True
    have "core W (advance b, p)"
      using adv(1,2) i(5) by (simp add: core_def books_static [of "advance b" b]) (simp add: advance_def books_def)
    moreover have "loop_ok (advance b)" using adv(3) i(6) n by (simp add: loop_ok_def)
    moreover have "w_next (\<not> isRunning b) (window_of b) = w_next (\<not> isRunning b) (window_of (advance b))"
      using n q True adv(5) by (subst w_next.simps) simp
    ultimately have ?Inl using True n i(7) adv by (auto simp: deliver_turn_eq loop_inv_def)
    then show ?thesis ..
  next
    case False
    then obtain m where live: "slot_at b (ndel b) = Live m (limit b ?q)" by (auto simp: slot_at_def Let_def)
    note lim = limit_tracked [OF n]
    show ?thesis
    proof (cases "\<exists>t. tracked_at (ndel b) b = Some t \<and> t_max t \<noteq> 0")
      case no: False
      then have "limit b ?q = None" using lim by (auto split: option.splits)
      then have ?Inr
        using deliver_plain [OF inv n] live False no entry by (auto simp: deliver_turn_eq Let_def split: option.splits)
      then show ?thesis ..
    next
      case True
      then obtain t where t: "tracked_at (ndel b) b = Some t" "t_max t \<noteq> 0" by blast
      have l: "limit b ?q = Some (unat (t_max t) - unat (t_sends t))" using lim t by simp
      show ?thesis
      proof (cases "t_sends t < t_max t")
        case True
        then have ?Inr using deliver_counted [OF inv n _ t] live l False t entry by (auto simp: deliver_turn_eq Let_def)
        then show ?thesis ..
      next
        case ex: False
        then have "limit b ?q = Some 0" using l by (simp add: word_less_nat_alt)
        then have ?Inl using deliver_retire [OF inv n _ t] live False ex t entry by (auto simp: deliver_turn_eq Let_def)
        then show ?thesis ..
      qed
    qed
  qed
qed

lemma deliver_loop_ok:
  assumes "loop_inv W (b, p)"
  shows "\<exists>r b' p'. deliver_loop (b, p) = Some (r, (b', p')) \<and> at_rest W (b', p') \<and> (p' = None \<longleftrightarrow> p = None) \<and>
     static b' = static b \<and> (soft_ok b \<longrightarrow> soft_ok b') \<and> w_next (\<not> isRunning b) (window_of b) = (r, window_of b')"
  using assms
proof (induction "nfree b - ndel b" arbitrary: b p rule: less_induct)
  case less
  note i = loop_invD [OF less.prems]
  show ?case
  proof (cases "ndel b < nfree b")
    case False
    obtain em where em: "Event_Set (isEmpty b) = Some em" "event_wf em" "ev_v em"
      using slots_okD(2) [OF i(2)] by (auto simp: ev_ok_def elim: Event_Set_wf)
    let ?b = "b\<lparr>isReadyToDeliver := Event_Clear (isReadyToDeliver b), isEmpty := em\<rparr>"
    have "slots_ok ?b" by (rule events_slots_ok) (use i(2) em slots_okD(2) [OF i(2)] in \<open>simp_all add: ev_ok_def\<close>)
    then have "at_rest W (?b, p)"
      using i(3,5,7) False by (simp add: at_rest_def core_def books_def ready_ok_def)
    moreover have "w_next (\<not> isRunning b) (window_of b) = (None, window_of ?b)" using False by (subst w_next.simps) simp
    moreover have "deliver_loop (b, p) = Some (None, (?b, p))"
      using False em by (subst deliver_loop.simps) (simp add: word_less_nat_alt)
    moreover have "static ?b = static b" "soft_ok ?b = soft_ok b" by (rule events_simps)+
    ultimately show ?thesis by blast
  next
    case True
    have u: "deliver_loop (b, p) = Option.bind (deliver_turn (b, p)) (\<lambda>r. case r of Inl s' \<Rightarrow> deliver_loop s' | Inr out \<Rightarrow> Some out)"
      using True by (subst deliver_loop.simps) (simp add: word_less_nat_alt)
    from deliver_turn_ok [OF less.prems True] show ?thesis
    proof (elim disjE exE conjE)
      fix b1 p1
      assume b1: "deliver_turn (b, p) = Some (Inl (b1, p1))" "loop_inv W (b1, p1)" "p1 = None \<longleftrightarrow> p = None"
        "nfree b1 - ndel b1 < nfree b - ndel b" "static b1 = static b" "soft_ok b \<longrightarrow> soft_ok b1"
        "w_next (\<not> isRunning b) (window_of b) = w_next (\<not> isRunning b) (window_of b1)"
      from less.hyps [OF b1(4,2)] obtain r b' p' where "deliver_loop (b1, p1) = Some (r, (b', p'))" "at_rest W (b', p')"
          "p' = None \<longleftrightarrow> p1 = None" "static b' = static b1" "soft_ok b1 \<longrightarrow> soft_ok b'" "w_next (\<not> isRunning b1) (window_of b1) = (r, window_of b')"
        by blast
      then show ?thesis using u b1 static_group(2) [OF b1(5)] by auto
    qed (use u in auto)
  qed
qed

lemma GetNextToDeliver_ok:
  assumes "at_rest W (b, p)"
  shows "\<exists>r b' p'. GetNextToDeliver signalled (b, p) = Some (r, (b', p')) \<and> at_rest W (b', p') \<and> (p' = None \<longleftrightarrow> p = None) \<and>
     static b' = static b \<and> (soft_ok b \<longrightarrow> soft_ok b') \<and>
     (if signalled then w_next (\<not> isRunning b) (window_of b) = (r, window_of b') else r = None \<and> b' = b \<and> p' = p)"
proof (cases "signalled \<and> ev_v (isReadyToDeliver b)")
  case True
  have "loop_inv W (b, p)" using assms by (auto simp: at_rest_def loop_inv_def loop_ok_def ready_ok_def)
  from deliver_loop_ok [OF this] show ?thesis using True by (simp add: GetNextToDeliver_def Event_IsSet_def)
next
  case False
  then have "\<not> ndel b < nfree b" if signalled using that at_restD(2) [OF assms] by (simp add: ready_ok_def)
  then have "w_next (\<not> isRunning b) (window_of b) = (None, window_of b)" if signalled using that by (subst w_next.simps) simp
  then show ?thesis using False assms by (auto simp: GetNextToDeliver_def Event_IsSet_def)
qed

section \<open>Starting over\<close>

lemma reset_loop_ok:
  assumes "core W (b, p)" and "set ts \<subseteq> set (receipts b)"
  shows "\<exists>b' p'. reset_loop ts (b, p) = Some (b', p') \<and> core W (b', p') \<and> (p' = None \<longleftrightarrow> p = None) \<and> static b' = static b \<and>
     receipts b' = receipts b \<and> nextIndexToDeliver b' = nextIndexToDeliver b \<and> firstSeqNum b' = firstSeqNum b \<and>
     nextIndexFree b' = nextIndexFree b \<and> (soft_ok b \<longrightarrow> soft_ok b') \<and>
     (\<forall>i < nfree b. slots b' ! i = (if \<exists>t \<in> set ts. slot_of b (t_seq t) = i \<and> spent t then Gone else slots b ! i))"
  using assms
proof (induction ts arbitrary: b p)
  case Nil
  then show ?case by simp
next
  case (Cons t ts)
  show ?case
  proof (cases "spent t \<and> t_seq t \<notin> retired b")
    case False
    have "slots b ! slot_of b (t_seq t) = Gone" if "spent t"
    proof -
      have "slot_of b (t_seq t) < nfree b" using Cons.prems by (simp add: core_def rec_ok_def list_ok_def)
      then show ?thesis using False that by (simp add: slot_at_Gone)
    qed
    moreover have "reset_loop (t # ts) (b, p) = reset_loop ts (b, p)" using False by (auto simp: spent_def not_less)
    ultimately show ?thesis using Cons.IH [OF Cons.prems(1)] Cons.prems(2) by auto
  next
    case True
    have t: "t \<in> set (receipts b)" using Cons.prems(2) by simp
    have hard: "\<not> soft_ok b" using True t by (auto simp: soft_ok_def spent_def)
    note c = coreD [OF Cons.prems(1)]
    have lo: "list_ok b" using c(2) by (simp add: rec_ok_def)
    from retireLocked_ok [OF c(1) lo c(3) t] obtain y es wc p1 where
      r: "retireLocked (t_seq t - firstSeqNum b) t (b, p) = Some (retire_state t b y es wc, p1)"
        "slots_ok (retire_state t b y es wc)" "list_ok (retire_state t b y es wc)" "books W (retire_state t b y es wc) p1"
        "p1 = None \<longleftrightarrow> p = None"
      by blast
    let ?b = "retire_state t b y es wc"
    have f: "receipts ?b = receipts b" "nextIndexToDeliver ?b = nextIndexToDeliver b" "firstSeqNum ?b = firstSeqNum b"
        "nextIndexFree ?b = nextIndexFree b" "static ?b = static b" "deliverCursor ?b = deliverCursor b" "cursor_of ?b = cursor_of b"
      by (simp_all add: retire_state_def static_def cursor_of_def)
    have core: "core W (?b, p1)" using r(2-4) c(2) f by (simp add: core_def rec_ok_def)
    have sl: "slots ?b = (slots b)[slot_of b (t_seq t) := Gone]"
      using arg_cong [OF window_retire [OF c(1) lo t, of y es wc], of a_slots] by (simp add: w_gone_def)
    from Cons.IH [OF core] Cons.prems(2) f(1) obtain b' p' where
      b': "reset_loop ts (?b, p1) = Some (b', p')" "core W (b', p')" "p' = None \<longleftrightarrow> p1 = None" "static b' = static ?b"
        "receipts b' = receipts ?b" "nextIndexToDeliver b' = nextIndexToDeliver ?b" "firstSeqNum b' = firstSeqNum ?b"
        "nextIndexFree b' = nextIndexFree ?b"
        "\<forall>i < nfree ?b. slots b' ! i = (if \<exists>t \<in> set ts. slot_of ?b (t_seq t) = i \<and> spent t then Gone else slots ?b ! i)"
      by auto
    have "slots b' ! i = (if \<exists>u \<in> set (t # ts). slot_of b (t_seq u) = i \<and> spent u then Gone else slots b ! i)" if "i < nfree b" for i
    proof -
      have "slots b' ! i = (if \<exists>t \<in> set ts. slot_of b (t_seq t) = i \<and> spent t then Gone else (slots b)[slot_of b (t_seq t) := Gone] ! i)"
        using b'(9) that f(3,4) sl by auto
      then show ?thesis using that True by (auto simp: nth_list_update)
    qed
    moreover have "reset_loop (t # ts) (b, p) = Some (b', p')" using True r(1) b'(1) by (auto simp: spent_def not_less)
    ultimately show ?thesis using b' r(5) f hard by auto
  qed
qed

lemma ResetDelivery_ok:
  assumes "at_rest W (b, p)"
  shows "\<exists>b' p'. ResetDelivery (b, p) = Some (b', p') \<and> at_rest W (b', p') \<and> (p' = None \<longleftrightarrow> p = None) \<and>
     static b' = static b \<and> (soft_ok b \<longrightarrow> soft_ok b') \<and> window_of b' = w_reset (window_of b)"
proof -
  let ?b0 = "b\<lparr>nextIndexToDeliver := 0, deliverCursor := (case receipts b of [] \<Rightarrow> None | t # _ \<Rightarrow> Some (t_id t))\<rparr>"
  note r = at_restD [OF assms]
  have "slots_ok ?b0"
    using r(5) by (simp add: slots_ok_def win_ok_def ev_ok_def wake_ok_def acct_ok_def ret_ok_def flag_ok_def held_flag_def)
  moreover have "rec_ok ?b0" using r(6) by (simp add: rec_ok_def list_ok_def cursor_of_def head_id_def)
  ultimately have c0: "core W (?b0, p)" using r(7) by (simp add: core_def books_def)
  from reset_loop_ok [OF c0 subset_refl] obtain b1 p1 where
    b1: "reset_loop (receipts b) (?b0, p) = Some (b1, p1)" "core W (b1, p1)" "p1 = None \<longleftrightarrow> p = None" "static b1 = static b"
      "nextIndexToDeliver b1 = 0" "firstSeqNum b1 = firstSeqNum b" "nextIndexFree b1 = nextIndexFree b" "soft_ok ?b0 \<longrightarrow> soft_ok b1"
      "\<forall>i < nfree b. slots b1 ! i = (if \<exists>t \<in> set (receipts b). slot_of b (t_seq t) = i \<and> spent t then Gone else slots ?b0 ! i)"
    by (auto simp: static_def)
  have s0: "slots ?b0 = slots b" "soft_ok ?b0 = soft_ok b" by (rule slots_cong; simp) (simp add: soft_ok_def)
  have "slots b1 = map exhausted (slots b)"
  proof (rule nth_equalityI)
    fix i
    assume "i < length (slots b1)"
    then have i: "i < nfree b" using b1(7) by simp
    have "list_ok b" using r(6) by (simp add: rec_ok_def)
    then show "slots b1 ! i = map exhausted (slots b) ! i"
      using b1(9) [rule_format, OF i] exhausted_slot [OF _ i] i unfolding s0(1) by simp
  qed (simp add: b1(7))
  then have w1: "window_of b1 = window_of b\<lparr>a_slots := map exhausted (slots b), a_sent := 0\<rparr>" using b1(5,6) by (simp add: window_of_def)
  from trim_ok [OF b1(2)] obtain b2 p2 where
    b2: "releaseRetiredHeadLocked (b1, p1) = Some (b2, p2)" "core W (b2, p2)" "p2 = None \<longleftrightarrow> p1 = None" "firstSeqNum b2 \<notin> retired b2"
      "soft_ok b1 \<longrightarrow> soft_ok b2" "window_of b2 = w_trim (window_of b1)" "static b2 = static b1"
    using trim_static by blast
  have ev: "event_wf (isReadyToDeliver b2)" "event_wf (isEmpty b2)" using slots_okD(2) [OF coreD(1) [OF b2(2)]] by (simp_all add: ev_ok_def)
  let ?c = "nextIndexFree b2 \<le> nextIndexToDeliver b2"
  have red: "ResetDelivery (b, p) = (if ?c
      then map_option (\<lambda>em. (b2\<lparr>isReadyToDeliver := Event_Clear (isReadyToDeliver b2), isEmpty := em\<rparr>, p2)) (Event_Set (isEmpty b2))
      else map_option (\<lambda>rd. (b2\<lparr>isReadyToDeliver := rd, isEmpty := Event_Clear (isEmpty b2)\<rparr>, p2)) (Event_Set (isReadyToDeliver b2)))"
    using b1(1) by (simp add: ResetDelivery_def Let_def b2(1) map_conv_bind_option comp_def)
  obtain rd em where e: "ResetDelivery (b, p) = Some (b2\<lparr>isReadyToDeliver := rd, isEmpty := em\<rparr>, p2)" "event_wf rd" "event_wf em"
      "ev_v em \<longleftrightarrow> \<not> ev_v rd" "ev_v rd \<longleftrightarrow> \<not> ?c"
  proof (cases ?c)
    case True
    obtain em where "Event_Set (isEmpty b2) = Some em" "event_wf em" "ev_v em" using ev(2) by (rule Event_Set_wf)
    then show thesis by (intro that [of em "Event_Clear (isReadyToDeliver b2)"]) (simp_all add: red True ev)
  next
    case False
    obtain rd where "Event_Set (isReadyToDeliver b2) = Some rd" "event_wf rd" "ev_v rd" using ev(1) by (rule Event_Set_wf)
    then show thesis by (intro that [of "Event_Clear (isEmpty b2)" rd]) (simp_all add: red False ev)
  qed
  let ?b = "b2\<lparr>isReadyToDeliver := rd, isEmpty := em\<rparr>"
  have "core W (?b, p2)" using events_slots_ok [OF coreD(1) [OF b2(2)] e(2-4)] coreD(2,3) [OF b2(2)] by (simp add: core_def books_def)
  moreover have "ready_ok ?b" using e(5) by (simp add: ready_ok_def word_le_nat_alt not_le)
  moreover have "b_group ?b = b_group b" using static_group(1) [of b2 b] b2(7) b1(4) by simp
  moreover have "soft_ok b \<longrightarrow> soft_ok ?b" using b1(8) b2(5) s0(2) by simp
  ultimately have "at_rest W (?b, p2)" using b2(4) r(4) by (simp add: at_rest_def)
  moreover have "window_of ?b = w_reset (window_of b)" using b2(6) w1 by (simp add: w_reset_def)
  ultimately show ?thesis
    by (intro exI [of _ ?b] exI [of _ p2]) (use e(1) b1(3,4) b2(3,7) \<open>soft_ok b \<longrightarrow> soft_ok ?b\<close> in simp)
qed

end

end
