(* ===== verification/AckControl.thy ===== *)
theory AckControl
  imports AckDeliver
begin

text \<open>
  Flow control, closing and draining of the acknowledgement buffer: every operation returns
  and keeps the invariant and the window, and a failed drain reports exactly what is left.
\<close>

section \<open>Flow control\<close>

lemma take_nth_eq: "take n xs = take n ys \<Longrightarrow> i < n \<Longrightarrow> xs ! i = ys ! i"
  by (metis nth_take)

lemma refit_ok:
  fixes wc :: "nat \<Rightarrow> bool"
  assumes "slots_ok b" and fit: "0 < length bs" "length bs \<le> 35184372088832" "nfree b \<le> length bs" "unat cap \<le> length bs"
      "take (nfree b) bs = take (nfree b) (buff b)" "\<forall>i < length bs. nfree b \<le> i \<longrightarrow> bs ! i = None"
    and ev: "event_wf av" "ev_v av \<longleftrightarrow> nextIndexFree b < cap" "every \<noteq> 0"
  defines "b' \<equiv> b\<lparr>buff := bs, currentCapacity := cap, isAvailable := av, wakeClosed := wc, wake := None, ackEvery := every\<rparr>"
  shows "slots_ok b'" "rec_ok b' = rec_ok b" "soft_ok b' = soft_ok b" "window_of b' = window_of b" "ready_ok b' = ready_ok b"
proof -
  have nth: "bs ! i = buff b ! i" if "i < nfree b" for i using take_nth_eq [OF fit(5) that] .
  note w = slots_okD(1) [OF assms(1), unfolded win_ok_def] and f = slots_okD(5) [OF assms(1), unfolded flag_ok_def]
  have "win_ok b'" using w fit ev(3) nth by (simp add: b'_def win_ok_def)
  moreover have "flag_ok b'" using f nth by (simp add: b'_def flag_ok_def held_flag_def)
  ultimately show "slots_ok b'"
    using assms(1) ev by (simp add: slots_ok_def) (simp add: b'_def ev_ok_def wake_ok_def acct_ok_def ret_ok_def)
  show "rec_ok b' = rec_ok b" "ready_ok b' = ready_ok b"
    by (simp_all add: b'_def rec_ok_def list_ok_def cursor_of_def ready_ok_def)
  have "length (sizes b) \<le> nfree b" using slots_okD(3) [OF assms(1)] by (auto simp: acct_ok_def split: if_splits)
  then show "soft_ok b' = soft_ok b" using nth by (auto simp: b'_def soft_ok_def)
  show "window_of b' = window_of b" using nth by (simp add: b'_def window_of_def slots_def slot_at_def limit_def Let_def)
qed

lemma UpdateCapacity_refit:
  assumes "slots_ok b" and "make_ok n" and "n \<noteq> currentCapacity b"
  shows "\<exists>bs av wc every. UpdateCapacity n b = Some (b\<lparr>buff := bs, currentCapacity := n, isAvailable := av, wakeClosed := wc, wake := None, ackEvery := every\<rparr>) \<and>
     0 < length bs \<and> length bs \<le> 35184372088832 \<and> nfree b \<le> length bs \<and> unat n \<le> length bs \<and>
     take (nfree b) bs = take (nfree b) (buff b) \<and> (\<forall>i < length bs. nfree b \<le> i \<longrightarrow> bs ! i = None) \<and>
     event_wf av \<and> (ev_v av \<longleftrightarrow> nextIndexFree b < n) \<and> every \<noteq> 0 \<and> (\<forall>c. wake b = Some c \<longrightarrow> wc c)"
proof -
  note w = slots_okD(1) [OF assms(1)] and ev = slots_okD(2) [OF assms(1), unfolded ev_ok_def]
  have len: "buffLen b < n \<longleftrightarrow> length (buff b) < unat n" using win_size [OF w] by (simp add: word_less_nat_alt)
  have mk: "unat n \<le> 35184372088832" using assms(2) by (simp add: make_ok_def word_le_nat_alt)
  define b1 where "b1 = (if buffLen b < n then b\<lparr>buff := buff b @ replicate (unat n - length (buff b)) None\<rparr> else b)\<lparr>currentCapacity := n\<rparr>"
  have "slots_fit b1" using win_slots_fit [OF w] mk len by (auto simp: slots_fit_def b1_def nth_append)
  from shrinkBackingLocked_ok [OF this] obtain bs where
    bs: "shrinkBackingLocked b1 = b1\<lparr>buff := bs\<rparr>" "backing (nfree b1) (unat (currentCapacity b1)) (buff b1) bs" by blast
  have b1: "b1\<lparr>buff := bs\<rparr> = b\<lparr>buff := bs, currentCapacity := n\<rparr>" "nextIndexFree b1 = nextIndexFree b" "currentCapacity b1 = n"
      "length (buff b1) \<le> 35184372088832" "take (nfree b) (buff b1) = take (nfree b) (buff b)"
    using w mk by (auto simp: b1_def win_ok_def)
  obtain av where av: "(if nextIndexFree b < n then Event_Set (isAvailable b) else Some (Event_Clear (isAvailable b))) = Some av"
      "event_wf av" "ev_v av \<longleftrightarrow> nextIndexFree b < n"
    using set_or_clear_ok [of "isAvailable b" "nextIndexFree b < n"] ev by blast
  let ?b2 = "b\<lparr>buff := bs, currentCapacity := n, isAvailable := av\<rparr>"
  obtain wc where wc: "signalLocked ?b2 = Some (?b2\<lparr>wakeClosed := wc, wake := None\<rparr>)" "\<forall>c. wake b = Some c \<longrightarrow> wc c"
    using signalLocked_ok [of ?b2] ev by (auto simp: wake_ok_def)
  let ?e = "if half_capacity n = 0 then 1 else half_capacity n"
  have "\<not> (buffLen b < n \<and> \<not> make_ok n)" using assms(2) by simp
  then have "UpdateCapacity n b = Some (b\<lparr>buff := bs, currentCapacity := n, isAvailable := av, wakeClosed := wc, wake := None, ackEvery := ?e\<rparr>)"
    using assms(3) bs(1) av(1) wc(1) b1(1) unfolding UpdateCapacity_def Let_def b1_def [symmetric]
    by (simp add: b1(2) assms(2) split del: if_split cong: if_cong)
  moreover have "?e \<noteq> 0" by simp
  ultimately show ?thesis
    using bs(2) b1 av(2,3) wc(2) by (intro exI [of _ bs] exI [of _ av] exI [of _ wc] exI [of _ ?e]) (auto simp: backing_def)
qed

section \<open>What is still unacknowledged\<close>

lemma live_last_props:
  assumes "f \<le> l"
  shows "f \<le> live_last b f l \<and> live_last b f l \<le> l \<and> (live_last b f l = f \<or> firstSeqNum b + of_nat (live_last b f l) \<notin> retired b) \<and>
     (\<forall>j. live_last b f l < j \<and> j \<le> l \<longrightarrow> firstSeqNum b + of_nat j \<in> retired b)"
  using assms
proof (induction b f l rule: live_last.induct)
  case (1 b f l)
  show ?case
  proof (cases "f < l \<and> firstSeqNum b + of_nat l \<in> retired b")
    case True
    then have eq: "live_last b f l = live_last b f (l - 1)" by (subst live_last.simps) simp
    have "f < l" using True by simp
    then have "f \<le> l - 1" by linarith
    note IH = "1.IH" [OF _ this]
    have "firstSeqNum b + of_nat j \<in> retired b" if "live_last b f (l - 1) < j" "j \<le> l" for j
      using IH True that by (cases "j = l") auto
    then show ?thesis unfolding eq using IH True by auto
  next
    case False
    then have "live_last b f l = l" by (subst live_last.simps) auto
    then show ?thesis using "1.prems" False by auto
  qed
qed

lemma retired_slots:
  assumes "ret_ok b"
  shows "card (retired b) = length (filter (\<lambda>s. s = Gone) (slots b))"
proof -
  let ?I = "{i. i < nfree b \<and> firstSeqNum b + of_nat i \<in> retired b}"
  have sl: "slot_of b (firstSeqNum b + of_nat i) = i" if "i < nfree b" for i
    using that unat_less_2_64 [of "nextIndexFree b"] by (intro slot_of_nth) (simp del: unat_less_2_64)
  have "bij_betw (\<lambda>i. firstSeqNum b + of_nat i) ?I (retired b)"
    unfolding bij_betw_def
  proof (intro conjI inj_onI set_eqI iffI)
    show "i = j" if "i \<in> ?I" "j \<in> ?I" "firstSeqNum b + of_nat i = firstSeqNum b + of_nat j" for i j
      using sl [of i] sl [of j] that(1,2) unfolding that(3) by simp
    show "q \<in> (\<lambda>i. firstSeqNum b + of_nat i) ` ?I" if "q \<in> retired b" for q
      using assms that by (intro image_eqI [of _ _ "slot_of b q"]) (auto simp: ret_ok_def)
  qed auto
  then have "card (retired b) = card ?I" by (simp add: bij_betw_same_card)
  also have "?I = {i. i < length (slots b) \<and> slots b ! i = Gone}" by (auto simp: slot_at_Gone)
  finally show ?thesis by (simp add: length_filter_conv_card)
qed

definition last_live :: "nat \<Rightarrow> AckBuffer \<Rightarrow> bool" where
  "last_live l b \<longleftrightarrow> l < nfree b \<and> slots b ! l \<noteq> Gone \<and> (\<forall>j. l < j \<and> j < nfree b \<longrightarrow> slots b ! j = Gone)"

lemma liveSeqBounds_ok:
  assumes "slots_ok b" and "firstSeqNum b \<notin> retired b" and "nfree b \<noteq> 0"
  obtains l where "liveSeqBoundsLocked b = Some (firstSeqNum b, firstSeqNum b + of_nat l)" "last_live l b"
proof -
  note w = slots_okD(1) [OF assms(1), unfolded win_ok_def]
  define l where "l = (if retired b \<noteq> {} then live_last b 0 (nfree b - 1) else nfree b - 1)"
  have f: "live_first b 0 n = 0" for n using assms(2) by (subst live_first.simps) simp
  have n: "unat (nextIndexFree b - 1) = nfree b - 1" using assms(3) by (intro unat_pred_exact) auto
  have g: "(if retired b \<noteq> {} then live_first b 0 (nfree b - 1) else 0) = 0" using f by simp
  have l: "l < nfree b" "firstSeqNum b + of_nat l \<notin> retired b" "\<And>j. l < j \<Longrightarrow> j < nfree b \<Longrightarrow> firstSeqNum b + of_nat j \<in> retired b"
    using live_last_props [of 0 "nfree b - 1" b] assms(2,3) by (auto simp: l_def split: if_splits)
  then have live: "last_live l b" by (simp add: last_live_def slot_at_Gone)
  obtain m where "buff b ! 0 = Some m" "SeqNum m = firstSeqNum b + of_nat 0" using w assms(3) by blast
  moreover obtain k where "buff b ! l = Some k" "SeqNum k = firstSeqNum b + of_nat l" using w l(1) by blast
  moreover have "0 < length (buff b)" "l < length (buff b)" using w l(1) by auto
  ultimately have "liveSeqBoundsLocked b = Some (firstSeqNum b, firstSeqNum b + of_nat l)"
    unfolding liveSeqBoundsLocked_def Let_def n g l_def [symmetric] by simp
  then show thesis using live by (rule that)
qed

lemma unacked_count:
  assumes "slots_ok b"
  shows "sint (nextIndexFree b) - int (card (retired b)) = int (length (filter (\<lambda>s. s \<noteq> Gone) (slots b)))"
proof -
  have "nfree b \<le> 35184372088832" by (rule win_small [OF slots_okD(1) [OF assms]])
  then have le: "int (nfree b) \<le> 35184372088832" by linarith
  have "- (2 ^ 63) \<le> int (nfree b)" by (rule order_trans [of _ 0]) simp_all
  moreover have "int (nfree b) < 2 ^ 63" by (rule le_less_trans [OF le]) simp
  ultimately have "signed_take_bit 63 (int (nfree b)) = int (nfree b)" by (rule signed_take_bit_int_eq_self)
  then have "sint (nextIndexFree b) = int (nfree b)" by (simp add: sint_uint)
  moreover have "nfree b = length (filter (\<lambda>s. s = Gone) (slots b)) + length (filter (\<lambda>s. s \<noteq> Gone) (slots b))"
    using sum_length_filter_compl [of "\<lambda>s. s = Gone" "slots b"] by simp
  ultimately show ?thesis using retired_slots [OF slots_okD(4) [OF assms]] by simp
qed

context shared_budget
begin

lemma UpdateCapacity_ok:
  assumes "at_rest W (b, p)" and "make_ok n"
  shows "\<exists>b'. UpdateCapacity n b = Some b' \<and> at_rest W (b', p) \<and> window_of b' = window_of b \<and> soft_ok b' = soft_ok b \<and> currentCapacity b' = n \<and>
     isRunning b' = isRunning b \<and> receipts b' = receipts b \<and> cells b' = cells b"
proof (cases "n = currentCapacity b")
  case True
  then show ?thesis using assms(1) by (simp add: UpdateCapacity_def)
next
  case False
  note r = at_restD [OF assms(1)]
  from UpdateCapacity_refit [OF r(5) assms(2) False] obtain bs av wc every where
    u: "UpdateCapacity n b = Some (b\<lparr>buff := bs, currentCapacity := n, isAvailable := av, wakeClosed := wc, wake := None, ackEvery := every\<rparr>)"
      "0 < length bs" "length bs \<le> 35184372088832" "nfree b \<le> length bs" "unat n \<le> length bs"
      "take (nfree b) bs = take (nfree b) (buff b)" "\<forall>i < length bs. nfree b \<le> i \<longrightarrow> bs ! i = None"
      "event_wf av" "ev_v av \<longleftrightarrow> nextIndexFree b < n" "every \<noteq> 0"
    by blast
  note f = refit_ok [OF r(5) u(2-10), of wc]
  show ?thesis using u(1) f r by (simp add: at_rest_def core_def books_def)
qed

section \<open>Closing\<close>

lemma releaseAllLocked_ok:
  assumes "acct_ok b" and "books W b p"
  shows "\<exists>p'. releaseAllLocked (b\<lparr>isRunning := r, isClosed := c\<rparr>, p) = Some (b\<lparr>isRunning := r, isClosed := c, bytes := 0, escapeBytes := 0\<rparr>, p') \<and>
     books W (b\<lparr>bytes := 0, escapeBytes := 0\<rparr>) p' \<and> (p' = None \<longleftrightarrow> p = None)"
proof -
  have esc: "unat (escapeBytes b) \<le> unat (bytes b)"
  proof (cases "escapeBytes b = 0")
    case False
    then show ?thesis using assms(1) nth_le_sum [of "slot_of b (escapeSeq b)" "sizes b"] by (auto simp: acct_ok_def)
  qed simp
  have own: "own (b_group b) (registered b) (unat (bytes b)) (unat (escapeBytes b)) W p" using assms(2) by (simp add: books_def)
  show ?thesis
  proof (cases "bytes b = 0")
    case True
    then have "escapeBytes b = 0" using esc by (simp add: unat_eq_0)
    then have "b\<lparr>bytes := 0, escapeBytes := 0\<rparr> = b" "b\<lparr>isRunning := r, isClosed := c, bytes := 0, escapeBytes := 0\<rparr> = b\<lparr>isRunning := r, isClosed := c\<rparr>"
      using True by (auto intro!: AckBuffer.equality)
    then show ?thesis using True assms(2) by (simp add: releaseAllLocked_def)
  next
    case False
    obtain p' where "releaseFor (bytes b) (escapeBytes b) (b_group b) p = Some p'" "own (b_group b) (registered b) 0 0 W p'"
      using release_law [OF own le_refl esc le_refl] by auto
    moreover from this have "p' = None \<longleftrightarrow> p = None" using budgetp_nil(1) by blast
    ultimately show ?thesis using False assms(2) by (auto simp: releaseAllLocked_def books_def)
  qed
qed

lemma Close_ok:
  assumes "at_rest W (b, p)"
  shows "\<exists>b' p'. Close (b, p) = Some (b', p') \<and> at_rest W (b', p') \<and> (p' = None \<longleftrightarrow> p = None) \<and> window_of b' = window_of b \<and>
     (soft_ok b \<longrightarrow> soft_ok b') \<and> isClosed b' \<and> \<not> isRunning b' \<and> bytes b' = 0 \<and> escapeBytes b' = 0 \<and> \<not> registered b' \<and>
     receipts b' = receipts b \<and> cells b' = cells b"
proof -
  note r = at_restD [OF assms]
  let ?b0 = "b\<lparr>isRunning := False, isClosed := True\<rparr>"
  from releaseAllLocked_ok [OF slots_okD(3) [OF r(5)] r(7), where r = False and c = True] obtain p1 where
    p1: "releaseAllLocked (?b0, p) = Some (?b0\<lparr>bytes := 0, escapeBytes := 0\<rparr>, p1)" "books W (b\<lparr>bytes := 0, escapeBytes := 0\<rparr>) p1"
      "p1 = None \<longleftrightarrow> p = None" by blast
  define p2 where "p2 = (if registered b then unregister (b_group b) p1 else p1)"
  let ?b1 = "b\<lparr>isRunning := False, isClosed := True, bytes := 0, escapeBytes := 0, registered := False\<rparr>"
  obtain wc where wc: "signalLocked ?b1 = Some (?b1\<lparr>wakeClosed := wc, wake := None\<rparr>)"
    using signalLocked_ok [of ?b1] slots_okD(6) [OF r(5)] by (auto simp: wake_ok_def)
  let ?b2 = "?b1\<lparr>wakeClosed := wc, wake := None\<rparr>"
  have cl: "Close (b, p) = Some (?b2, p2)"
  proof (cases "registered b")
    case True
    then show ?thesis using p1(1) wc by (simp add: Close_def Let_def p2_def)
  next
    case False
    then have eq: "?b0\<lparr>bytes := 0, escapeBytes := 0\<rparr> = ?b1" by (auto intro!: AckBuffer.equality)
    have "signalLocked (?b0\<lparr>bytes := 0, escapeBytes := 0\<rparr>) = Some ?b2" by (subst eq) (rule wc)
    then show ?thesis using False p1(1) by (simp add: Close_def Let_def p2_def)
  qed
  have un: "unregister g None = None" for g by (simp add: budgetp_nil(3))
  have "books W ?b2 p2"
    using p1(2) unregister_law by (auto simp: books_def p2_def budgetp_nil(3) un)
  moreover have "slots_ok ?b2"
    using r(5) by (auto simp: slots_ok_def win_ok_def ev_ok_def wake_ok_def acct_ok_def ret_ok_def flag_ok_def held_flag_def)
  moreover have "rec_ok ?b2" "ready_ok ?b2" using r(2,6) by (simp_all add: rec_ok_def list_ok_def cursor_of_def ready_ok_def)
  moreover have so: "soft_ok b \<longrightarrow> soft_ok ?b2" by (simp add: soft_ok_def)
  moreover have "window_of ?b2 = window_of b" by (rule window_cong) simp_all
  moreover have "p2 = None \<longleftrightarrow> p = None" using p1(3) by (simp add: p2_def budgetp_nil(3))
  ultimately show ?thesis using cl r(3,4) by (simp add: at_rest_def core_def)
qed

lemma releaseReceiptTracking_ok:
  assumes "at_rest W (b, p)"
  shows "at_rest W (releaseReceiptTracking b, p)" "soft_ok b \<Longrightarrow> soft_ok (releaseReceiptTracking b)"
  using at_restD [OF assms]
  by (simp_all add: at_rest_def core_def books_def releaseReceiptTracking_def slots_ok_def win_ok_def ev_ok_def wake_ok_def
      acct_ok_def ret_ok_def flag_ok_def held_flag_def rec_ok_def list_ok_def cursor_of_def ready_ok_def soft_ok_def)

section \<open>Draining\<close>

lemma wake_frame:
  assumes "at_rest W (b, p)" and "\<forall>c. w = Some c \<longrightarrow> c < n \<and> \<not> wc c"
  shows "at_rest W (b\<lparr>wake := w, wakeClosed := wc, next_wake := n\<rparr>, p)"
  using at_restD [OF assms(1)] assms(2)
  by (simp add: at_rest_def core_def books_def slots_ok_def win_ok_def ev_ok_def wake_ok_def
      acct_ok_def ret_ok_def flag_ok_def held_flag_def rec_ok_def list_ok_def cursor_of_def ready_ok_def soft_ok_def)

lemma drain_seal_ok:
  assumes "at_rest W (b, p)"
  shows "\<exists>b'. drain_seal b = Some b' \<and> at_rest W (b', p) \<and> window_of b' = window_of b \<and> (soft_ok b' = soft_ok b) \<and> \<not> isRunning b' \<and>
    receipts b' = receipts b \<and> cells b' = cells b"
proof -
  note r = at_restD [OF assms]
  let ?b = "b\<lparr>isRunning := False\<rparr>"
  obtain wc where wc: "signalLocked ?b = Some (?b\<lparr>wakeClosed := wc, wake := None\<rparr>)"
    using signalLocked_ok [of ?b] slots_okD(6) [OF r(5)] by (auto simp: wake_ok_def)
  have "at_rest W (?b\<lparr>wakeClosed := wc, wake := None\<rparr>, p)"
    using r by (simp add: at_rest_def core_def books_def slots_ok_def win_ok_def ev_ok_def wake_ok_def
      acct_ok_def ret_ok_def flag_ok_def held_flag_def rec_ok_def list_ok_def cursor_of_def ready_ok_def soft_ok_def)
  moreover have "window_of (?b\<lparr>wakeClosed := wc, wake := None\<rparr>) = window_of b" by (rule window_cong) simp_all
  ultimately show ?thesis using wc by (simp add: drain_seal_def soft_ok_def)
qed

lemma drain_iteration_ok:
  assumes "at_rest W (b, p)"
  shows "\<exists>r b'. drain_iteration ctxErr b = Some (r, b') \<and> at_rest W (b', p) \<and> window_of b' = window_of b \<and> (soft_ok b' = soft_ok b) \<and>
     receipts b' = receipts b \<and> cells b' = cells b \<and> isRunning b' = isRunning b \<and>
     (if nfree b = 0 then r = Drained
      else if isClosed b \<or> ctxErr \<noteq> None then
        \<exists>l. r = DrainFailed \<lparr>Unacked = int (length (filter (\<lambda>s. s \<noteq> Gone) (slots b))), FirstSeq = firstSeqNum b,
             LastSeq = firstSeqNum b + of_nat l, Err = (if isClosed b then ErrorClosed else the ctxErr)\<rparr> \<and> last_live l b
      else \<exists>c. r = DrainWaits c \<and> wake b' = Some c)"
proof (cases "nfree b = 0")
  case True
  then show ?thesis using assms by (simp add: drain_iteration_def unat_eq_0)
next
  case False
  note r = at_restD [OF assms]
  show ?thesis
  proof (cases "isClosed b \<or> ctxErr \<noteq> None")
    case True
    obtain l where l: "liveSeqBoundsLocked b = Some (firstSeqNum b, firstSeqNum b + of_nat l)" "last_live l b"
      by (rule liveSeqBounds_ok [OF r(5,3) False])
    have "sint (nextIndexFree b) - int (card (retired b)) = int (length (filter (\<lambda>s. s \<noteq> Gone) (slots b)))"
      by (rule unacked_count [OF r(5)])
    then show ?thesis using False True assms l by (auto simp: drain_iteration_def unat_eq_0)
  next
    case no: False
    obtain c b' where e: "ensure_wake b = (c, b')" by fastforce
    from ensure_wake_ok [OF slots_okD(6) [OF r(5)] e] obtain wc n where
      b': "b' = b\<lparr>wake := Some c, wakeClosed := wc, next_wake := n\<rparr>" "c < n" "\<not> wc c" by blast
    have "at_rest W (b', p)" unfolding b'(1) by (rule wake_frame [OF assms]) (use b' in simp)
    moreover have "window_of b' = window_of b" unfolding b'(1) by (rule window_cong) simp_all
    ultimately show ?thesis using False no e b'(1) by (simp add: drain_iteration_def unat_eq_0 soft_ok_def)
  qed
qed

end

end
