(* ===== verification/AckAdmit.thy ===== *)
theory AckAdmit
  imports AckControl
begin

text \<open>
  The admission of a message: what \<open>tryAddWithReceiptLocked\<close> stores, when it refuses, and
  the iterations of a blocked \<open>addWithReceipt\<close>.
\<close>

section \<open>The stored state\<close>

definition flagged :: "DataMessage \<Rightarrow> u64 \<Rightarrow> bool \<Rightarrow> u64 \<Rightarrow> AckBuffer \<Rightarrow> bool" where
  "flagged e sz forced ps b \<longleftrightarrow> AckRequested e \<or> nextSeqNum b mod ackEvery b = 0 \<or> forced \<or> (ps \<noteq> 0 \<and> ps \<le> bytesSinceFlag b + sz)"

definition stored_msg :: "DataMessage \<Rightarrow> bool \<Rightarrow> AckBuffer \<Rightarrow> DataMessage" where
  "stored_msg e flag b = e\<lparr>SeqNum := nextSeqNum b, AckRequested := flag\<rparr>"

definition new_entry :: "nat option \<Rightarrow> u32 \<Rightarrow> AckBuffer \<Rightarrow> trackedAdmission list" where
  "new_entry receipt mx b = (case receipt of None \<Rightarrow> []
     | Some cell \<Rightarrow> [\<lparr>t_id = next_entry b, t_seq = nextSeqNum b, t_state = cell, t_max = mx, t_sends = 0\<rparr>])"

definition stamped :: "u64 \<Rightarrow> bool \<Rightarrow> AckBuffer \<Rightarrow> AckBuffer" where
  "stamped sz flag b =
     b\<lparr>nextSeqNum := nextSeqNum b + 1, lastFlaggedSeq := (if flag then nextSeqNum b else lastFlaggedSeq b),
       bytesSinceFlag := (if flag then 0 else if accounting b then bytesSinceFlag b + sz else bytesSinceFlag b)\<rparr>"

definition receipted :: "nat option \<Rightarrow> trackedAdmission list \<Rightarrow> AckBuffer \<Rightarrow> AckBuffer" where
  "receipted receipt ts b =
     b\<lparr>receipts := receipts b @ ts, deliverCursor := (if deliverCursor b = None then head_id ts else deliverCursor b),
       next_entry := next_entry b + length ts,
       cells := (case receipt of None \<Rightarrow> cells b | Some c \<Rightarrow> (cells b)(c := ReceiptRetained))\<rparr>"

definition placed :: "DataMessage \<Rightarrow> u64 \<Rightarrow> Event \<Rightarrow> AckBuffer \<Rightarrow> AckBuffer" where
  "placed m sz rd b =
     b\<lparr>buff := (buff b)[nfree b := Some m], nextIndexFree := nextIndexFree b + 1,
       sizes := (if accounting b then sizes b @ [sz] else sizes b), bytes := (if accounting b then bytes b + sz else bytes b),
       isAvailable := (if currentCapacity b \<le> nextIndexFree b + 1 then Event_Clear (isAvailable b) else isAvailable b),
       isReadyToDeliver := rd, isEmpty := Event_Clear (isEmpty b)\<rparr>"

definition stored :: "DataMessage \<Rightarrow> u64 \<Rightarrow> bool \<Rightarrow> nat option \<Rightarrow> u32 \<Rightarrow> Event \<Rightarrow> AckBuffer \<Rightarrow> AckBuffer" where
  "stored e sz flag receipt mx rd b =
     placed (stored_msg e flag b) sz rd (receipted receipt (new_entry receipt mx b) (stamped sz flag b))"

lemma stampMessage_eq:
  "stampMessage e sz forced ps b = (stored_msg e (flagged e sz forced ps b) b, stamped sz (flagged e sz forced ps b) b)"
proof (cases "flagged e sz forced ps b")
  case True
  then show ?thesis
    by (cases "AckRequested e") (auto simp: stampMessage_def Let_def stamped_def stored_msg_def flagged_def)
next
  case False
  then have c: "\<not> AckRequested e" "\<not> (nextSeqNum b mod ackEvery b = 0 \<or> forced \<or> (ps \<noteq> 0 \<and> ps \<le> bytesSinceFlag b + sz))"
    by (auto simp: flagged_def)
  have m: "stored_msg e False b = e\<lparr>SeqNum := nextSeqNum b\<rparr>"
    using c(1) by (intro DataMessage.equality) (simp_all add: stored_msg_def)
  have sel: "AckRequested (e\<lparr>SeqNum := nextSeqNum b\<rparr>) = False" "SeqNum (e\<lparr>SeqNum := nextSeqNum b\<rparr>) = nextSeqNum b"
      "ackEvery (b\<lparr>nextSeqNum := nextSeqNum b + 1\<rparr>) = ackEvery b" "bytesSinceFlag (b\<lparr>nextSeqNum := nextSeqNum b + 1\<rparr>) = bytesSinceFlag b"
      "accounting (b\<lparr>nextSeqNum := nextSeqNum b + 1\<rparr>) = accounting b"
    using c(1) by simp_all
  have st: "stamped sz False b = (if accounting b then b\<lparr>nextSeqNum := nextSeqNum b + 1, bytesSinceFlag := bytesSinceFlag b + sz\<rparr>
      else b\<lparr>nextSeqNum := nextSeqNum b + 1\<rparr>)"
    by (cases "accounting b") (auto simp: stamped_def intro!: AckBuffer.equality)
  have f: "flagged e sz forced ps b = False" using False by simp
  show ?thesis unfolding stampMessage_def Let_def f m st sel by (simp only: c(2) if_False sel)
qed

lemma trackReceipt_eq:
  "trackReceipt receipt mx (nextSeqNum b) (stamped sz flag b) = receipted receipt (new_entry receipt mx b) (stamped sz flag b)"
  by (cases receipt) (auto simp: trackReceipt_def receipted_def new_entry_def stamped_def Let_def)

lemma placeMessage_eq:
  assumes "nextIndexFree b < buffLen b" and "Event_Set (isReadyToDeliver b) = Some rd"
  shows "placeMessage m sz b = Some (placed m sz rd b)"
proof -
  have "\<not> buffLen b \<le> nextIndexFree b" using assms(1) by simp
  then show ?thesis using assms(2) by (cases "accounting b") (auto simp: placeMessage_def placed_def Let_def)
qed

lemma storeMessage_eq:
  assumes "ackEvery b \<noteq> 0" and "nextIndexFree b < buffLen b" and "event_wf (isReadyToDeliver b)"
  shows "\<exists>rd. storeMessage e sz forced ps receipt mx b = Some (stored e sz (flagged e sz forced ps b) receipt mx rd b) \<and> event_wf rd \<and> ev_v rd"
proof -
  obtain rd where rd: "Event_Set (isReadyToDeliver b) = Some rd" "event_wf rd" "ev_v rd" using assms(3) by (rule Event_Set_wf)
  have "SeqNum (stored_msg e f b) = nextSeqNum b" for f by (simp add: stored_msg_def)
  then have "storeMessage e sz forced ps receipt mx b = Some (stored e sz (flagged e sz forced ps b) receipt mx rd b)"
    using assms(1,2) rd(1)
    by (simp add: storeMessage_def stampMessage_eq trackReceipt_eq stored_def) (intro placeMessage_eq; simp add: receipted_def stamped_def)
  then show ?thesis using rd by blast
qed

definition escaped :: "bool \<Rightarrow> u64 \<Rightarrow> AckBuffer \<Rightarrow> AckBuffer" where
  "escaped esc sz b = (if esc then b\<lparr>escapeSeq := nextSeqNum b, escapeBytes := sz\<rparr> else b)"

text \<open>What the caller of an admission promises about the buffer.\<close>

definition room_for :: "u64 \<Rightarrow> nat option \<Rightarrow> AckBuffer \<Rightarrow> bool" where
  "room_for sz receipt b \<longleftrightarrow> nextSeqNum b \<noteq> MaxUint64 \<and> uint (bytes b) + uint sz < 2 ^ 64 \<and> (accounting b \<longrightarrow> sz \<noteq> 0) \<and>
     (case receipt of None \<Rightarrow> True | Some c \<Rightarrow> c \<notin> t_state ` set (receipts b))"

lemma room_for_eq: "room_for sz receipt b \<longleftrightarrow> nextSeqNum b \<noteq> MaxUint64 \<and> unat (bytes b) + unat sz < 2 ^ 64 \<and> (accounting b \<longrightarrow> sz \<noteq> 0) \<and>
     (\<forall>c. receipt = Some c \<longrightarrow> c \<notin> t_state ` set (receipts b))"
proof -
  have "uint x + uint y < 2 ^ 64 \<longleftrightarrow> unat x + unat y < 2 ^ 64" for x y :: u64
  proof -
    have "uint x + uint y = int (unat x + unat y)" by simp
    moreover have "int n < 18446744073709551616 \<longleftrightarrow> n < 18446744073709551616" for n by linarith
    ultimately show ?thesis by (simp only: power_numeral Num.pow.simps Num.sqr.simps numeral_times_numeral)
  qed
  then show ?thesis by (auto simp: room_for_def split: option.splits)
qed

lemma stamped_frame [frame_simps]:
  "receipts (stamped sz flag b) = receipts b" "deliverCursor (stamped sz flag b) = deliverCursor b"
  "retired (stamped sz flag b) = retired b" "releasedRetired (stamped sz flag b) = releasedRetired b"
  "isClosed (stamped sz flag b) = isClosed b" "isRunning (stamped sz flag b) = isRunning b"
  "isAvailable (stamped sz flag b) = isAvailable b" "buff (stamped sz flag b) = buff b"
  "nextIndexFree (stamped sz flag b) = nextIndexFree b" "firstSeqNum (stamped sz flag b) = firstSeqNum b"
  "ackEvery (stamped sz flag b) = ackEvery b" "nextIndexToDeliver (stamped sz flag b) = nextIndexToDeliver b"
  "isReadyToDeliver (stamped sz flag b) = isReadyToDeliver b" "isEmpty (stamped sz flag b) = isEmpty b"
  "currentCapacity (stamped sz flag b) = currentCapacity b" "accounting (stamped sz flag b) = accounting b"
  "maxBytes (stamped sz flag b) = maxBytes b" "b_group (stamped sz flag b) = b_group b"
  "registered (stamped sz flag b) = registered b" "escapeSeq (stamped sz flag b) = escapeSeq b"
  "escapeBytes (stamped sz flag b) = escapeBytes b" "sizes (stamped sz flag b) = sizes b"
  "bytes (stamped sz flag b) = bytes b" "wake (stamped sz flag b) = wake b"
  "wakeClosed (stamped sz flag b) = wakeClosed b" "next_wake (stamped sz flag b) = next_wake b"
  "cells (stamped sz flag b) = cells b" "next_entry (stamped sz flag b) = next_entry b"
  "onAckCalls (stamped sz flag b) = onAckCalls b" "onAck (stamped sz flag b) = onAck b"
  by (simp_all add: stamped_def)

lemma receipted_frame [frame_simps]:
  "retired (receipted receipt ts b) = retired b" "releasedRetired (receipted receipt ts b) = releasedRetired b"
  "isClosed (receipted receipt ts b) = isClosed b" "isRunning (receipted receipt ts b) = isRunning b"
  "isAvailable (receipted receipt ts b) = isAvailable b" "buff (receipted receipt ts b) = buff b"
  "nextIndexFree (receipted receipt ts b) = nextIndexFree b" "firstSeqNum (receipted receipt ts b) = firstSeqNum b"
  "nextSeqNum (receipted receipt ts b) = nextSeqNum b" "ackEvery (receipted receipt ts b) = ackEvery b"
  "nextIndexToDeliver (receipted receipt ts b) = nextIndexToDeliver b"
  "isReadyToDeliver (receipted receipt ts b) = isReadyToDeliver b" "isEmpty (receipted receipt ts b) = isEmpty b"
  "currentCapacity (receipted receipt ts b) = currentCapacity b" "accounting (receipted receipt ts b) = accounting b"
  "maxBytes (receipted receipt ts b) = maxBytes b" "b_group (receipted receipt ts b) = b_group b"
  "registered (receipted receipt ts b) = registered b" "escapeSeq (receipted receipt ts b) = escapeSeq b"
  "escapeBytes (receipted receipt ts b) = escapeBytes b" "sizes (receipted receipt ts b) = sizes b"
  "bytes (receipted receipt ts b) = bytes b" "lastFlaggedSeq (receipted receipt ts b) = lastFlaggedSeq b"
  "bytesSinceFlag (receipted receipt ts b) = bytesSinceFlag b" "wake (receipted receipt ts b) = wake b"
  "wakeClosed (receipted receipt ts b) = wakeClosed b" "next_wake (receipted receipt ts b) = next_wake b"
  "onAckCalls (receipted receipt ts b) = onAckCalls b" "onAck (receipted receipt ts b) = onAck b"
  by (simp_all add: receipted_def)

lemma placed_frame [frame_simps]:
  "receipts (placed m sz rd b) = receipts b" "deliverCursor (placed m sz rd b) = deliverCursor b"
  "retired (placed m sz rd b) = retired b" "releasedRetired (placed m sz rd b) = releasedRetired b"
  "isClosed (placed m sz rd b) = isClosed b" "isRunning (placed m sz rd b) = isRunning b"
  "firstSeqNum (placed m sz rd b) = firstSeqNum b" "nextSeqNum (placed m sz rd b) = nextSeqNum b"
  "ackEvery (placed m sz rd b) = ackEvery b" "nextIndexToDeliver (placed m sz rd b) = nextIndexToDeliver b"
  "currentCapacity (placed m sz rd b) = currentCapacity b" "accounting (placed m sz rd b) = accounting b"
  "maxBytes (placed m sz rd b) = maxBytes b" "b_group (placed m sz rd b) = b_group b"
  "registered (placed m sz rd b) = registered b" "escapeSeq (placed m sz rd b) = escapeSeq b"
  "escapeBytes (placed m sz rd b) = escapeBytes b" "lastFlaggedSeq (placed m sz rd b) = lastFlaggedSeq b"
  "bytesSinceFlag (placed m sz rd b) = bytesSinceFlag b" "wake (placed m sz rd b) = wake b"
  "wakeClosed (placed m sz rd b) = wakeClosed b" "next_wake (placed m sz rd b) = next_wake b"
  "cells (placed m sz rd b) = cells b" "next_entry (placed m sz rd b) = next_entry b"
  "onAckCalls (placed m sz rd b) = onAckCalls b" "onAck (placed m sz rd b) = onAck b"
  by (simp_all add: placed_def)

lemma escaped_frame [frame_simps]:
  "receipts (escaped esc sz b) = receipts b" "deliverCursor (escaped esc sz b) = deliverCursor b"
  "retired (escaped esc sz b) = retired b" "releasedRetired (escaped esc sz b) = releasedRetired b"
  "isClosed (escaped esc sz b) = isClosed b" "isRunning (escaped esc sz b) = isRunning b"
  "isAvailable (escaped esc sz b) = isAvailable b" "buff (escaped esc sz b) = buff b"
  "nextIndexFree (escaped esc sz b) = nextIndexFree b" "firstSeqNum (escaped esc sz b) = firstSeqNum b"
  "nextSeqNum (escaped esc sz b) = nextSeqNum b" "ackEvery (escaped esc sz b) = ackEvery b"
  "nextIndexToDeliver (escaped esc sz b) = nextIndexToDeliver b"
  "isReadyToDeliver (escaped esc sz b) = isReadyToDeliver b" "isEmpty (escaped esc sz b) = isEmpty b"
  "currentCapacity (escaped esc sz b) = currentCapacity b" "accounting (escaped esc sz b) = accounting b"
  "maxBytes (escaped esc sz b) = maxBytes b" "b_group (escaped esc sz b) = b_group b"
  "registered (escaped esc sz b) = registered b" "sizes (escaped esc sz b) = sizes b"
  "bytes (escaped esc sz b) = bytes b" "lastFlaggedSeq (escaped esc sz b) = lastFlaggedSeq b"
  "bytesSinceFlag (escaped esc sz b) = bytesSinceFlag b" "wake (escaped esc sz b) = wake b"
  "wakeClosed (escaped esc sz b) = wakeClosed b" "next_wake (escaped esc sz b) = next_wake b"
  "cells (escaped esc sz b) = cells b" "next_entry (escaped esc sz b) = next_entry b"
  "onAckCalls (escaped esc sz b) = onAckCalls b" "onAck (escaped esc sz b) = onAck b"
  by (simp_all add: escaped_def)

lemma stored_sel:
  fixes e sz flag receipt mx rd esc b
  defines "S \<equiv> stored e sz flag receipt mx rd (escaped esc sz b)"
  shows "firstSeqNum S = firstSeqNum b" "nextSeqNum S = nextSeqNum b + 1" "nextIndexFree S = nextIndexFree b + 1"
    "nextIndexToDeliver S = nextIndexToDeliver b" "buff S = (buff b)[nfree b := Some (stored_msg e flag b)]"
    "currentCapacity S = currentCapacity b" "ackEvery S = ackEvery b" "sizes S = (if accounting b then sizes b @ [sz] else sizes b)"
    "bytes S = (if accounting b then bytes b + sz else bytes b)" "escapeSeq S = (if esc then nextSeqNum b else escapeSeq b)"
    "escapeBytes S = (if esc then sz else escapeBytes b)" "lastFlaggedSeq S = (if flag then nextSeqNum b else lastFlaggedSeq b)"
    "retired S = retired b" "receipts S = receipts b @ new_entry receipt mx b"
    "deliverCursor S = (if deliverCursor b = None then head_id (new_entry receipt mx b) else deliverCursor b)"
    "next_entry S = next_entry b + length (new_entry receipt mx b)"
    "cells S = (case receipt of None \<Rightarrow> cells b | Some c \<Rightarrow> (cells b)(c := ReceiptRetained))"
    "isAvailable S = (if currentCapacity b \<le> nextIndexFree b + 1 then Event_Clear (isAvailable b) else isAvailable b)"
    "isReadyToDeliver S = rd" "isEmpty S = Event_Clear (isEmpty b)" "isClosed S = isClosed b" "isRunning S = isRunning b"
    "accounting S = accounting b" "b_group S = b_group b" "registered S = registered b" "wake S = wake b"
    "wakeClosed S = wakeClosed b" "next_wake S = next_wake b" "maxBytes S = maxBytes b"
proof -
  have m: "stored_msg e flag (escaped esc sz b) = stored_msg e flag b" "new_entry receipt mx (escaped esc sz b) = new_entry receipt mx b"
    by (simp_all add: stored_msg_def new_entry_def frame_simps split: option.split)
  have ch: "escapeSeq (escaped esc sz b) = (if esc then nextSeqNum b else escapeSeq b)"
      "escapeBytes (escaped esc sz b) = (if esc then sz else escapeBytes b)" by (simp_all add: escaped_def)
  have st: "nextSeqNum (stamped sz flag c) = nextSeqNum c + 1"
      "lastFlaggedSeq (stamped sz flag c) = (if flag then nextSeqNum c else lastFlaggedSeq c)" for c by (simp_all add: stamped_def)
  have re: "receipts (receipted receipt ts c) = receipts c @ ts"
      "deliverCursor (receipted receipt ts c) = (if deliverCursor c = None then head_id ts else deliverCursor c)"
      "next_entry (receipted receipt ts c) = next_entry c + length ts"
      "cells (receipted receipt ts c) = (case receipt of None \<Rightarrow> cells c | Some d \<Rightarrow> (cells c)(d := ReceiptRetained))" for ts c
    by (simp_all add: receipted_def)
  have pl: "buff (placed n sz rd c) = (buff c)[nfree c := Some n]" "nextIndexFree (placed n sz rd c) = nextIndexFree c + 1"
      "sizes (placed n sz rd c) = (if accounting c then sizes c @ [sz] else sizes c)"
      "bytes (placed n sz rd c) = (if accounting c then bytes c + sz else bytes c)"
      "isAvailable (placed n sz rd c) = (if currentCapacity c \<le> nextIndexFree c + 1 then Event_Clear (isAvailable c) else isAvailable c)"
      "isReadyToDeliver (placed n sz rd c) = rd" "isEmpty (placed n sz rd c) = Event_Clear (isEmpty c)" for n c
    by (simp_all add: placed_def)
  show "firstSeqNum S = firstSeqNum b" "nextSeqNum S = nextSeqNum b + 1" "nextIndexFree S = nextIndexFree b + 1"
    "nextIndexToDeliver S = nextIndexToDeliver b" "buff S = (buff b)[nfree b := Some (stored_msg e flag b)]"
    "currentCapacity S = currentCapacity b" "ackEvery S = ackEvery b" "sizes S = (if accounting b then sizes b @ [sz] else sizes b)"
    "bytes S = (if accounting b then bytes b + sz else bytes b)" "escapeSeq S = (if esc then nextSeqNum b else escapeSeq b)"
    "escapeBytes S = (if esc then sz else escapeBytes b)" "lastFlaggedSeq S = (if flag then nextSeqNum b else lastFlaggedSeq b)"
    "retired S = retired b" "receipts S = receipts b @ new_entry receipt mx b"
    "deliverCursor S = (if deliverCursor b = None then head_id (new_entry receipt mx b) else deliverCursor b)"
    "next_entry S = next_entry b + length (new_entry receipt mx b)"
    "cells S = (case receipt of None \<Rightarrow> cells b | Some c \<Rightarrow> (cells b)(c := ReceiptRetained))"
    "isAvailable S = (if currentCapacity b \<le> nextIndexFree b + 1 then Event_Clear (isAvailable b) else isAvailable b)"
    "isReadyToDeliver S = rd" "isEmpty S = Event_Clear (isEmpty b)" "isClosed S = isClosed b" "isRunning S = isRunning b"
    "accounting S = accounting b" "b_group S = b_group b" "registered S = registered b" "wake S = wake b"
    "wakeClosed S = wakeClosed b" "next_wake S = next_wake b" "maxBytes S = maxBytes b"
    unfolding S_def stored_def by (simp_all only: frame_simps ch st re pl m)
qed

text \<open>The state an admission starts from.\<close>

definition can_store :: "u64 \<Rightarrow> nat option \<Rightarrow> bool \<Rightarrow> AckBuffer \<Rightarrow> bool" where
  "can_store sz receipt esc b \<longleftrightarrow> slots_ok b \<and> rec_ok b \<and> ev_v (isAvailable b) \<and> \<not> isClosed b \<and> room_for sz receipt b \<and> (esc \<longrightarrow> accounting b)"

lemma can_storeD:
  assumes "can_store sz receipt esc b"
  shows "slots_ok b" "rec_ok b" "win_ok b" "nextIndexFree b < currentCapacity b" "nfree b < length (buff b)" "\<not> isClosed b"
    "nextSeqNum b \<noteq> MaxUint64" "unat (bytes b) + unat sz < 2 ^ 64" "unat (nextIndexFree b + 1) = Suc (nfree b)"
    "unat (nextSeqNum b + 1) = Suc (unat (nextSeqNum b))" "nextSeqNum b = firstSeqNum b + of_nat (nfree b)" "slot_of b (nextSeqNum b) = nfree b"
    "0 < unat (nextSeqNum b)"
proof -
  show s: "slots_ok b" "rec_ok b" "\<not> isClosed b" "nextSeqNum b \<noteq> MaxUint64" "unat (bytes b) + unat sz < 2 ^ 64"
    using assms by (simp_all add: can_store_def room_for_eq)
  show w: "win_ok b" using s(1) by (rule slots_okD)
  show c: "nextIndexFree b < currentCapacity b" using assms slots_okD(2) [OF s(1)] by (simp add: can_store_def ev_ok_def)
  show len: "nfree b < length (buff b)" using c w by (simp add: win_ok_def word_less_nat_alt)
  show "unat (nextIndexFree b + 1) = Suc (nfree b)"
    using c unat_less_2_64 [of "currentCapacity b"] by (intro unat_Suc_exact) (simp add: word_less_nat_alt del: unat_less_2_64)
  have "unat (nextSeqNum b) \<noteq> unat MaxUint64" using s(4) by (simp add: word_unat_eq_iff)
  then show "unat (nextSeqNum b + 1) = Suc (unat (nextSeqNum b))"
    using unat_less_2_64 [of "nextSeqNum b"] by (intro unat_Suc_exact) (simp add: unat_MaxUint64 del: unat_less_2_64)
  have "unat (nextSeqNum b) = unat (firstSeqNum b) + nfree b" "0 < unat (firstSeqNum b)" using w by (simp_all add: win_ok_def)
  then show eq: "nextSeqNum b = firstSeqNum b + of_nat (nfree b)" "0 < unat (nextSeqNum b)"
    using unat_less_2_64 [of "nextSeqNum b"] by (simp_all add: word_unat_eq_iff unat_add_exact del: unat_less_2_64)
  show "slot_of b (nextSeqNum b) = nfree b" unfolding eq(1) by simp
qed

lemma store_win:
  assumes c: "can_store sz receipt esc b"
  shows "win_ok (stored e sz flag receipt mx rd (escaped esc sz b))" (is "win_ok ?S")
proof -
  note d = can_storeD [OF c] and w = can_storeD(3) [OF c, unfolded win_ok_def]
  have "\<exists>m. buff ?S ! i = Some m \<and> SeqNum m = firstSeqNum b + of_nat i" if "i < Suc (nfree b)" for i
  proof (cases "i = nfree b")
    case True
    then show ?thesis using d(5,11) by (simp add: stored_sel stored_msg_def)
  next
    case False
    then show ?thesis using that w by (simp add: stored_sel)
  qed
  moreover have "buff ?S ! i = None" if "i < length (buff b)" "Suc (nfree b) \<le> i" for i using that w by (simp add: stored_sel)
  moreover have "length (buff ?S) = length (buff b)" by (simp add: stored_sel)
  ultimately show ?thesis using w d(5,9,10) by (simp add: win_ok_def) (simp add: stored_sel)
qed

lemma store_slots:
  assumes c: "can_store sz receipt esc b" and rd: "event_wf rd" "ev_v rd"
    and over: "maxBytes b \<noteq> 0 \<Longrightarrow> maxBytes b < bytes b + sz \<Longrightarrow> accounting b \<Longrightarrow> flag \<and> \<not> held_flag b"
  shows "slots_ok (stored e sz flag receipt mx rd (escaped esc sz b))" (is "slots_ok ?S")
proof -
  note d = can_storeD [OF c]
  have acc: "if accounting b then length (sizes b) = nfree b else bytes b = 0"
    using slots_okD(3) [OF d(1)] d(6) by (auto simp: acct_ok_def)
  have small: "\<not> held_flag b \<Longrightarrow> maxBytes b \<noteq> 0 \<Longrightarrow> bytes b \<le> maxBytes b"
    using slots_okD(5) [OF d(1)] by (auto simp: flag_ok_def not_less)
  have "ev_ok ?S"
    using slots_okD(2) [OF d(1)] rd d(4,9) by (auto simp: ev_ok_def wake_ok_def stored_sel word_le_nat_alt word_less_nat_alt)
  moreover have "acct_ok ?S"
  proof -
    note a = slots_okD(3) [OF d(1), unfolded acct_ok_def]
    have e: "escapeBytes b \<noteq> 0 \<Longrightarrow> slot_of b (escapeSeq b) < length (sizes b)" using a by blast
    show ?thesis
      using a d(6,8,9,12) c e by (auto simp: acct_ok_def stored_sel can_store_def unat_add_exact nth_append)
  qed
  moreover have "ret_ok ?S" using slots_okD(4) [OF d(1)] d(9) by (auto simp: ret_ok_def stored_sel)
  moreover have "flag_ok ?S"
  proof (cases flag)
    case True
    have "nextSeqNum b \<notin> retired b" using slots_okD(4) [OF d(1)] d(12) by (auto simp: ret_ok_def)
    moreover have "unat (bytes ?S) \<le> unat (maxBytes b) + unat (sizes ?S ! nfree b)" if "maxBytes b \<noteq> 0" "maxBytes b < bytes ?S"
    proof -
      have a: "accounting b" using that acc by (cases "accounting b") (auto simp: stored_sel)
      then have "unat (bytes b) \<le> unat (maxBytes b)" using that over small by (simp add: stored_sel word_le_nat_alt)
      then show ?thesis using a acc d(8) by (simp add: stored_sel unat_add_exact nth_append)
    qed
    moreover have "firstSeqNum b \<le> nextSeqNum b" "nextSeqNum b \<noteq> 0"
      using d(3,13) by (auto simp: win_ok_def word_le_nat_alt)
    ultimately show ?thesis using True d(5,9,12) by (simp add: flag_ok_def held_flag_def) (simp add: stored_sel stored_msg_def)
  next
    case False
    have "\<not> (maxBytes b \<noteq> 0 \<and> maxBytes b < bytes ?S)"
      using False over acc by (cases "accounting b") (auto simp: stored_sel)
    then show ?thesis using False slots_okD(5) [OF d(1)] d(9) by (auto simp: flag_ok_def held_flag_def stored_sel)
  qed
  ultimately show ?thesis using store_win [OF c] by (simp add: slots_ok_def)
qed

lemma new_entry_props:
  "t \<in> set (new_entry receipt mx b) \<Longrightarrow> t_id t = next_entry b \<and> t_seq t = nextSeqNum b \<and> receipt = Some (t_state t) \<and> t_max t = mx \<and> t_sends t = 0"
  "distinct (map t_id (new_entry receipt mx b))" "distinct (map t_state (new_entry receipt mx b))" "length (new_entry receipt mx b) \<le> 1"
  "sorted_wrt R (new_entry receipt mx b)"
  by (auto simp: new_entry_def split: option.splits)

lemma store_rec:
  assumes c: "can_store sz receipt esc b"
  shows "rec_ok (stored e sz flag receipt mx rd (escaped esc sz b))" (is "rec_ok ?S")
proof -
  note d = can_storeD [OF c]
  let ?n = "new_entry receipt mx b"
  have l: "list_ok b" "deliverCursor b = cursor_of b" using d(2) by (simp_all add: rec_ok_def)
  note ls = l(1) [unfolded list_ok_def]
  have fresh: "t_state t \<noteq> t_state u" "t_id t < t_id u" if "t \<in> set (receipts b)" "u \<in> set ?n" for t u
  proof -
    note u = new_entry_props(1) [OF that(2)]
    have "t_state u \<notin> t_state ` set (receipts b)" using u c by (simp add: can_store_def room_for_eq)
    then show "t_state t \<noteq> t_state u" using that(1) by (metis imageI)
    show "t_id t < t_id u" using u ls that(1) by simp
  qed
  have nret: "nextSeqNum b \<notin> retired b" using slots_okD(4) [OF d(1)] d(12) by (auto simp: ret_ok_def)
  have cell: "cells ?S (t_state t) = (if t_seq t \<in> retired b then ReceiptRetired else ReceiptRetained)" if "t \<in> set (receipts b @ ?n)" for t
  proof (cases "t \<in> set ?n")
    case True
    then show ?thesis using new_entry_props(1) [OF True] nret by (simp add: stored_sel)
  next
    case False
    then have t: "t \<in> set (receipts b)" using that by simp
    have "receipt \<noteq> Some (t_state t)" using c t by (auto simp: can_store_def room_for_eq)
    then show ?thesis using t ls by (auto simp: stored_sel split: option.splits)
  qed
  have "sorted_wrt (\<lambda>s t. slot_of b (t_seq s) < slot_of b (t_seq t)) (receipts b @ ?n)"
    using ls new_entry_props(1,5) [of _ receipt mx b] d(12) by (fastforce simp: sorted_wrt_append)
  moreover have "\<forall>t \<in> set (receipts b @ ?n). slot_of b (t_seq t) < Suc (nfree b)"
    using ls new_entry_props(1) [of _ receipt mx b] d(12) by fastforce
  moreover have "distinct (map t_id (receipts b @ ?n))" "distinct (map t_state (receipts b @ ?n))"
    using ls new_entry_props(2,3) [of receipt mx b] fresh by (auto, force+)
  moreover have "\<forall>t \<in> set (receipts b @ ?n). t_id t < next_entry b + length ?n \<and> (t_max t \<noteq> 0 \<longrightarrow> t_sends t \<le> t_max t)"
    using ls new_entry_props(1) [of _ receipt mx b] by (cases ?n) fastforce+
  ultimately have "list_ok ?S" using cell d(9) by (simp add: list_ok_def stored_sel)
  moreover have "cursor_of ?S = deliverCursor ?S"
  proof -
    have "filter (\<lambda>t. ndel b \<le> slot_of b (t_seq t)) ?n = ?n"
      using new_entry_props(1) [of _ receipt mx b] d(3,12) by (intro filter_True) (auto simp: win_ok_def)
    then show ?thesis
      using l(2) by (cases "filter (\<lambda>t. ndel b \<le> slot_of b (t_seq t)) (receipts b)") (simp_all add: cursor_of_def stored_sel)
  qed
  ultimately show ?thesis by (simp add: rec_ok_def)
qed

definition new_limit :: "nat option \<Rightarrow> u32 \<Rightarrow> nat option" where
  "new_limit receipt mx = (if receipt = None \<or> mx = 0 then None else Some (unat mx))"

lemma find_append: "List.find P (xs @ ys) = (case List.find P xs of None \<Rightarrow> List.find P ys | Some x \<Rightarrow> Some x)"
  by (induction xs) auto

lemma store_window:
  assumes c: "can_store sz receipt esc b"
  shows "window_of (stored e sz flag receipt mx rd (escaped esc sz b)) = w_add (stored_msg e flag b) (new_limit receipt mx) (window_of b)"
    (is "window_of ?S = _")
proof -
  note d = can_storeD [OF c]
  let ?n = "new_entry receipt mx b"
  have nret: "nextSeqNum b \<notin> retired b" using slots_okD(4) [OF d(1)] d(12) by (auto simp: ret_ok_def)
  have none: "List.find (\<lambda>t. t_seq t = nextSeqNum b) (receipts b) = None"
    using d(2,12) by (auto simp: find_None_iff rec_ok_def list_ok_def)
  have sl: "slot_of b (firstSeqNum b + of_nat i) = i" if "i < nfree b" for i
    using that unat_less_2_64 [of "nextIndexFree b"] by (intro slot_of_nth) (simp del: unat_less_2_64)
  have lim: "limit ?S q = limit b q" if "q \<noteq> nextSeqNum b" for q
  proof -
    have "List.find (\<lambda>t. t_seq t = q) ?n = None" using new_entry_props(1) that by (fastforce simp: find_None_iff)
    then show ?thesis by (simp add: limit_def stored_sel find_append split: option.split)
  qed
  have new: "limit ?S (nextSeqNum b) = new_limit receipt mx"
    using none by (cases receipt) (simp_all add: limit_def stored_sel find_append new_entry_def new_limit_def)
  have "slot_at ?S i = slot_at b i" if "i < nfree b" for i
  proof -
    have "firstSeqNum b + of_nat i \<noteq> nextSeqNum b"
    proof
      assume a: "firstSeqNum b + of_nat i = nextSeqNum b"
      show False using sl [OF that] d(12) that unfolding a by simp
    qed
    then show ?thesis using that lim by (simp add: slot_at_def Let_def stored_sel)
  qed
  moreover have "slot_at ?S (nfree b) = Live (stored_msg e flag b) (new_limit receipt mx)"
    using nret new d(5,11) by (simp add: slot_at_def Let_def stored_sel)
  ultimately have "slots ?S = slots b @ [Live (stored_msg e flag b) (new_limit receipt mx)]"
    using d(9) by (simp add: slots_def stored_sel)
  then show ?thesis by (simp add: window_of_def w_add_def stored_sel)
qed

lemma store_soft:
  assumes c: "can_store sz receipt esc b" and s: "soft_ok b" and mx: "mx = 0" and fl: "esc \<Longrightarrow> flag"
  shows "soft_ok (stored e sz flag receipt mx rd (escaped esc sz b))" (is "soft_ok ?S")
proof -
  note d = can_storeD [OF c] and so = s [unfolded soft_ok_def] and a = slots_okD(3) [OF can_storeD(1) [OF c], unfolded acct_ok_def]
  have "escapeSeq ?S \<le> lastFlaggedSeq ?S" if "escapeBytes ?S \<noteq> 0"
  proof (cases "esc \<or> \<not> flag")
    case True
    then show ?thesis using that so fl by (auto simp: stored_sel)
  next
    case False
    then have "slot_of b (escapeSeq b) < nfree b" using that a by (auto simp: stored_sel split: if_splits)
    then have "escapeSeq b < nextSeqNum b" using in_window [OF d(3)] by simp
    then show ?thesis using False by (simp add: stored_sel)
  qed
  moreover have "\<forall>t \<in> set (receipts ?S). t_max t = 0" using so new_entry_props(1) [of _ receipt mx b] mx by (auto simp: stored_sel)
  moreover have "retired ?S = {}" using so by (simp add: stored_sel)
  ultimately show ?thesis unfolding soft_ok_def by blast
qed

section \<open>The decision\<close>

definition over_limit :: "u64 \<Rightarrow> AckBuffer \<Rightarrow> bool" where
  "over_limit sz b \<longleftrightarrow> maxBytes b \<noteq> 0 \<and> maxBytes b < bytes b + sz"

definition base_step :: "u64 \<Rightarrow> AckBuffer \<Rightarrow> u64" where
  "base_step sz b = (if maxBytes b \<noteq> 0 \<and> 2 * (bytes b + sz) \<ge> maxBytes b then maxBytes b div pressureStepDivisor else 0)"

definition shared_step :: "u64 \<Rightarrow> u64 \<Rightarrow> ByteBudget \<Rightarrow> u64" where
  "shared_step ps used bb = (if Total (Some bb) \<noteq> 0 \<and> 2 * used \<ge> Total (Some bb) \<and>
       (ps = 0 \<or> Total (Some bb) div pressureStepDivisor < ps) then Total (Some bb) div pressureStepDivisor else ps)"

lemma checkBytes_eq:
  "\<not> accounting b \<Longrightarrow> checkBytes sz w (b, p) = Some (Admitted False 0, (b, p))"
  "accounting b \<Longrightarrow> over_limit sz b \<Longrightarrow> held_flag b \<Longrightarrow> checkBytes sz w (b, p) = map_option (\<lambda>p'. (Refused None, (b, p'))) (cancel w p)"
  "accounting b \<Longrightarrow> \<not> (over_limit sz b \<and> held_flag b) \<Longrightarrow>
     checkBytes sz w (b, None) = Some (Admitted (over_limit sz b) (base_step sz b), (b, None))"
  "accounting b \<Longrightarrow> \<not> (over_limit sz b \<and> held_flag b) \<Longrightarrow>
     checkBytes sz w (b, Some bb) = map_option (\<lambda>(q, over, used, wk, bb'). if q
       then (Admitted (over_limit sz b \<or> over) (shared_step (base_step sz b) used bb'),
             (escaped (over \<and> b_group b \<noteq> None) sz b, Some bb'))
       else (Refused wk, (b, Some bb'))) (reserveFor sz (\<not> held_flag b) (b_group b) w bb)"
proof -
  have h: "(lastFlaggedSeq b \<noteq> 0 \<and> lastFlaggedSeq b \<ge> firstSeqNum b) = held_flag b" by (simp add: held_flag_def)
  have o: "(maxBytes b \<noteq> 0 \<and> bytes b + sz > maxBytes b) = over_limit sz b" by (simp add: over_limit_def)
  note u = checkBytes_def Let_def prod.case h o base_step_def [symmetric]
  show "checkBytes sz w (b, p) = Some (Admitted False 0, (b, p))" if "\<not> accounting b" using that by (simp only: u) simp
  show "checkBytes sz w (b, p) = map_option (\<lambda>p'. (Refused None, (b, p'))) (cancel w p)"
    if "accounting b" "over_limit sz b" "held_flag b"
    using that by (simp only: u) (cases "cancel w p"; simp)
  assume a: "accounting b" "\<not> (over_limit sz b \<and> held_flag b)"
  show "checkBytes sz w (b, None) = Some (Admitted (over_limit sz b) (base_step sz b), (b, None))"
    using a by (simp only: u) simp
  show "checkBytes sz w (b, Some bb) = map_option (\<lambda>(q, over, used, wk, bb'). if q
       then (Admitted (over_limit sz b \<or> over) (shared_step (base_step sz b) used bb'),
             (escaped (over \<and> b_group b \<noteq> None) sz b, Some bb'))
       else (Refused wk, (b, Some bb'))) (reserveFor sz (\<not> held_flag b) (b_group b) w bb)"
    using a unfolding u
    by (cases "reserveFor sz (\<not> held_flag b) (b_group b) w bb") (auto simp: shared_step_def escaped_def)
qed

text \<open>What the caller of an admission promises, and the waiters it holds after a blocked one.\<close>

definition add_ok :: "u64 \<Rightarrow> nat option \<Rightarrow> nat option \<Rightarrow> handed \<Rightarrow> buffer_state \<Rightarrow> bool" where
  "add_ok sz w receipt W s \<longleftrightarrow> handed_ok w sz W \<and> room_for sz receipt (fst s) \<and>
     (case snd s of None \<Rightarrow> True | Some bb \<Rightarrow> reserve_room sz bb)"

definition handed_after :: "nat option \<Rightarrow> u64 \<Rightarrow> nat option \<Rightarrow> handed \<Rightarrow> handed" where
  "handed_after w' sz w W = (case w' of None \<Rightarrow> forget w W | Some x \<Rightarrow> W(x \<mapsto> sz))"

context shared_budget
begin

definition claim_after :: "bool \<Rightarrow> bool \<Rightarrow> u64 \<Rightarrow> nat option \<Rightarrow> handed \<Rightarrow> AckBuffer \<Rightarrow> budgetp \<Rightarrow> bool" where
  "claim_after acct esc sz w W b p \<longleftrightarrow>
     own (b_group b) (registered b) (unat (bytes b) + (if acct then unat sz else 0)) (unat (escapeBytes b) + (if esc then unat sz else 0)) (forget w W) p"

definition refused :: "nat option \<Rightarrow> u64 \<Rightarrow> nat option \<Rightarrow> handed \<Rightarrow> AckBuffer \<Rightarrow> budgetp \<Rightarrow> bool" where
  "refused w' sz w W b p \<longleftrightarrow> (case w' of None \<Rightarrow> books (forget w W) b p
     | Some x \<Rightarrow> (w \<noteq> None \<longrightarrow> w' = w) \<and> books (W(x \<mapsto> sz)) b p)"

lemma no_pending_escape:
  assumes "slots_ok b" and "soft_ok b" and "\<not> held_flag b"
  shows "escapeBytes b = 0"
proof (rule ccontr)
  note w = slots_okD(1) [OF assms(1)]
  assume e: "escapeBytes b \<noteq> 0"
  then have "slot_of b (escapeSeq b) < nfree b" using slots_okD(3) [OF assms(1)] by (auto simp: acct_ok_def split: if_splits)
  then have "firstSeqNum b \<le> escapeSeq b" using in_window [OF w] by simp
  moreover have "escapeSeq b \<le> lastFlaggedSeq b" using assms(2) e by (simp add: soft_ok_def)
  moreover have "firstSeqNum b \<noteq> 0" using w by (auto simp: win_ok_def)
  ultimately show False using assms(3) by (auto simp: held_flag_def)
qed

lemma checkBytes_ok:
  assumes rest: "at_rest W (b, p)" and run: "\<not> isClosed b" and ok: "add_ok sz w receipt W (b, p)"
  shows "\<exists>r b' p'. checkBytes sz w (b, p) = Some (r, (b', p')) \<and> (p' = None \<longleftrightarrow> p = None) \<and>
     (case r of Refused w' \<Rightarrow> b' = b \<and> held_flag b \<and> refused w' sz w W b p'
      | Admitted forced ps \<Rightarrow> \<exists>esc. b' = escaped esc sz b \<and> (esc \<longrightarrow> accounting b \<and> forced \<and> \<not> held_flag b) \<and>
          (maxBytes b \<noteq> 0 \<longrightarrow> maxBytes b < bytes b + sz \<longrightarrow> accounting b \<longrightarrow> forced \<and> \<not> held_flag b) \<and> claim_after (accounting b) esc sz w W b p')"
proof -
  note r = at_restD [OF rest]
  have own: "own (b_group b) (registered b) (unat (bytes b)) (unat (escapeBytes b)) W p" and reg: "registered b \<or> b_group b = None"
    and acc: "p \<noteq> None \<longrightarrow> accounting b" and reg': "registered b \<longrightarrow> b_group b \<noteq> None"
    using r(7) run by (auto simp: books_def)
  have hand: "handed_ok w sz W" "w = None \<or> W (the w) \<noteq> None" using ok by (auto simp: add_ok_def handed_ok_def split: option.splits)
  show ?thesis
  proof (cases "accounting b")
    case False
    then have "p = None" using acc by blast
    then have "W = Map.empty" using nil_law own by blast
    then have "forget w W = W" using hand(2) by (cases w) (auto simp: forget_def)
    then have "claim_after (accounting b) False sz w W b p" using own False by (simp add: claim_after_def)
    then show ?thesis using False checkBytes_eq(1) [OF False, of sz w p] by (auto simp: escaped_def)
  next
    case accounting: True
    show ?thesis
    proof (cases "over_limit sz b \<and> held_flag b")
      case True
      obtain p' where p': "cancel w p = Some p'" "own (b_group b) (registered b) (unat (bytes b)) (unat (escapeBytes b)) (forget w W) p'"
        using cancel_law [OF own hand(2)] by blast
      then have "refused None sz w W b p'" using r(7) budgetp_nil(2) [OF p'(1)] by (auto simp: refused_def books_def)
      then show ?thesis using True checkBytes_eq(2) [OF accounting, of sz w p] p'(1) budgetp_nil(2) [OF p'(1)] by auto
    next
      case room: False
      have lim: "over_limit sz b \<longrightarrow> \<not> held_flag b" using room by blast
      show ?thesis
      proof (cases p)
        case None
        then have W: "W = Map.empty" "own (b_group b) (registered b) (unat (bytes b) + unat sz) (unat (escapeBytes b)) W p"
          using nil_law own by blast+
        then have "forget w W = W" using hand(2) by (cases w) (auto simp: forget_def)
        then have "claim_after (accounting b) False sz w W b p" using W(2) accounting by (simp add: claim_after_def)
        then show ?thesis
          using None lim checkBytes_eq(3) [OF accounting room, of w] by (auto simp: escaped_def over_limit_def)
      next
        case (Some bb)
        have space: "reserve_room sz bb" using ok Some by (simp add: add_ok_def)
        from reserve_law [OF own [unfolded Some] reg space hand(1), of "\<not> held_flag b"] obtain q over used wk bb' where
          res: "reserveFor sz (\<not> held_flag b) (b_group b) w bb = Some (q, over, used, wk, bb')"
            "reserved_ok own (b_group b) (registered b) (unat (bytes b)) (unat (escapeBytes b)) W sz (\<not> held_flag b) w (q, over, used, wk, bb')"
          by (metis prod_cases5)
        note eq = checkBytes_eq(4) [OF accounting room, of w bb, unfolded res(1), simplified]
        show ?thesis
        proof (cases q)
          case False
          then have "held_flag b" "refused wk sz w W b (Some bb')"
            using res(2) r(7) accounting by (auto simp: reserved_ok_def refused_def books_def)
          then show ?thesis using False eq Some by auto
        next
          case True
          let ?esc = "over \<and> b_group b \<noteq> None"
          have held: "over \<longrightarrow> \<not> held_flag b" using res(2) by (simp add: reserved_ok_def)
          have "claim_after (accounting b) ?esc sz w W b (Some bb')"
            using res(2) True accounting by (auto simp: reserved_ok_def claim_after_def)
          then show ?thesis
            using True eq Some lim accounting held
            by (intro exI [of _ "Admitted (over_limit sz b \<or> over) (shared_step (base_step sz b) used bb')"]
                exI [of _ "escaped ?esc sz b"] exI [of _ "Some bb'"]) (auto simp: over_limit_def intro!: exI [of _ ?esc])
        qed
      qed
    qed
  qed
qed

lemma at_rest_books: "at_rest W (b, p) \<Longrightarrow> books W' b p' \<Longrightarrow> at_rest W' (b, p')"
  by (simp add: at_rest_def core_def)

text \<open>
  A buffer at rest that knows of \<open>l\<close> escape bytes less than it owns: an admission that records a new
  escape forgets the one recorded before.
\<close>

definition rest_leaking :: "nat \<Rightarrow> handed \<Rightarrow> buffer_state \<Rightarrow> bool" where
  "rest_leaking l W s \<longleftrightarrow> shared_budget.at_rest (leaky l own) W s"

lemma rest_leaking_0 [simp]: "rest_leaking 0 W s = at_rest W s"
  by (simp add: rest_leaking_def)

lemma rest_leakingI:
  assumes "slots_ok b" "rec_ok b" "ready_ok b" "firstSeqNum b \<notin> retired b"
    and "own (b_group b) (registered b) (unat (bytes b)) (unat (escapeBytes b) + l) W p"
    and "p \<noteq> None \<longrightarrow> accounting b" "\<not> isClosed b \<longrightarrow> registered b \<or> b_group b = None" "registered b \<longrightarrow> b_group b \<noteq> None \<and> \<not> isClosed b"
  shows "rest_leaking l W (b, p)"
  unfolding rest_leaking_def shared_budget.at_rest_def [OF leaky_shared] shared_budget.core_def [OF leaky_shared]
    shared_budget.books_def [OF leaky_shared] using assms by (simp add: leaky_def)

lemma store_at_rest:
  assumes rest: "at_rest W (b, p)" and c: "can_store sz receipt esc b" and rd: "event_wf rd" "ev_v rd"
    and cl: "claim_after (accounting b) esc sz w W b p'" and nil: "p' = None \<longleftrightarrow> p = None"
    and over: "maxBytes b \<noteq> 0 \<Longrightarrow> maxBytes b < bytes b + sz \<Longrightarrow> accounting b \<Longrightarrow> flag \<and> \<not> held_flag b"
  shows "rest_leaking (if esc then unat (escapeBytes b) else 0) (forget w W) (stored e sz flag receipt mx rd (escaped esc sz b), p')" (is "rest_leaking ?l _ (?S, _)")
proof -
  note d = can_storeD [OF c] and r = at_restD [OF rest]
  have "unat (bytes ?S) = unat (bytes b) + (if accounting b then unat sz else 0)" using d(8) by (simp add: stored_sel unat_add_exact)
  moreover have "unat (escapeBytes ?S) + ?l = unat (escapeBytes b) + (if esc then unat sz else 0)" by (simp add: stored_sel)
  ultimately have own: "own (b_group ?S) (registered ?S) (unat (bytes ?S)) (unat (escapeBytes ?S) + ?l) (forget w W) p'"
    using cl unfolding claim_after_def by (simp only: stored_sel(24,25))
  have "p' \<noteq> None \<longrightarrow> accounting b" "\<not> isClosed b \<longrightarrow> registered b \<or> b_group b = None" "registered b \<longrightarrow> b_group b \<noteq> None \<and> \<not> isClosed b"
    using r(7) nil by (auto simp: books_def)
  then have fr: "p' \<noteq> None \<longrightarrow> accounting ?S" "\<not> isClosed ?S \<longrightarrow> registered ?S \<or> b_group ?S = None"
      "registered ?S \<longrightarrow> b_group ?S \<noteq> None \<and> \<not> isClosed ?S"
    unfolding stored_sel(21,23-25) by blast+
  have "ready_ok ?S" using rd(2) d(3,9) by (simp add: ready_ok_def stored_sel win_ok_def)
  moreover have "firstSeqNum ?S \<notin> retired ?S" using r(3) by (simp add: stored_sel)
  ultimately show ?thesis by (intro rest_leakingI store_slots [OF c rd over] store_rec [OF c] own fr)
qed

lemma tryAdd_ok:
  assumes rest: "at_rest W (b, p)" and run: "isRunning b" and ok: "add_ok sz w receipt W (b, p)"
  shows "\<exists>q w' b' p'. tryAddWithReceiptLocked e sz w receipt mx (b, p) = Some ((q, w'), (b', p')) \<and> (p' = None \<longleftrightarrow> p = None) \<and>
     (if q then w' = None \<and> (\<exists>l. rest_leaking l (forget w W) (b', p') \<and> (soft_ok b \<longrightarrow> l = 0)) \<and>
        (\<exists>flag esc rd. b' = stored e sz flag receipt mx rd (escaped esc sz b) \<and> can_store sz receipt esc b) \<and> (mx = 0 \<and> soft_ok b \<longrightarrow> soft_ok b')
      else b' = b \<and> refused w' sz w W b p' \<and> (ev_v (isAvailable b) \<longrightarrow> held_flag b))"
proof (cases "ev_v (isAvailable b)")
  case False
  note r = at_restD [OF rest]
  have hand: "w = None \<or> W (the w) \<noteq> None" using ok by (auto simp: add_ok_def handed_ok_def split: option.splits)
  have own: "own (b_group b) (registered b) (unat (bytes b)) (unat (escapeBytes b)) W p" using r(7) by (simp add: books_def)
  obtain p' where p': "cancel w p = Some p'" "own (b_group b) (registered b) (unat (bytes b)) (unat (escapeBytes b)) (forget w W) p'"
    using cancel_law [OF own hand] by blast
  then have "refused None sz w W b p'" using r(7) budgetp_nil(2) [OF p'(1)] by (auto simp: refused_def books_def)
  then show ?thesis using False p'(1) budgetp_nil(2) [OF p'(1)] by (auto simp: tryAddWithReceiptLocked_def Event_IsSet_def)
next
  case True
  note r = at_restD [OF rest]
  have cl: "\<not> isClosed b" using slots_okD(3) [OF r(5)] run by (auto simp: acct_ok_def)
  have can: "can_store sz receipt esc b" if "esc \<longrightarrow> accounting b" for esc
    using r(5,6) True cl ok that by (simp add: can_store_def add_ok_def)
  from checkBytes_ok [OF rest cl ok] obtain res b1 p1 where
    c: "checkBytes sz w (b, p) = Some (res, (b1, p1))" "p1 = None \<longleftrightarrow> p = None"
      "case res of Refused w' \<Rightarrow> b1 = b \<and> held_flag b \<and> refused w' sz w W b p1
       | Admitted forced ps \<Rightarrow> \<exists>esc. b1 = escaped esc sz b \<and> (esc \<longrightarrow> accounting b \<and> forced \<and> \<not> held_flag b) \<and>
          (maxBytes b \<noteq> 0 \<longrightarrow> maxBytes b < bytes b + sz \<longrightarrow> accounting b \<longrightarrow> forced \<and> \<not> held_flag b) \<and> claim_after (accounting b) esc sz w W b p1"
    by blast
  show ?thesis
  proof (cases res)
    case (Refused w')
    then show ?thesis using True c by (auto simp: tryAddWithReceiptLocked_def Event_IsSet_def)
  next
    case (Admitted forced ps)
    then obtain esc where esc: "b1 = escaped esc sz b" "esc \<longrightarrow> accounting b \<and> forced \<and> \<not> held_flag b"
        "maxBytes b \<noteq> 0 \<longrightarrow> maxBytes b < bytes b + sz \<longrightarrow> accounting b \<longrightarrow> forced \<and> \<not> held_flag b" "claim_after (accounting b) esc sz w W b p1"
      using c(3) by auto
    have cs: "can_store sz receipt esc b" using can esc(2) by blast
    note d = can_storeD [OF cs]
    have "ackEvery b1 \<noteq> 0" "nextIndexFree b1 < buffLen b1" "event_wf (isReadyToDeliver b1)"
      using d(3,5) slots_okD(2) [OF d(1)] win_size [OF d(3)]
      by (simp_all add: esc(1) frame_simps win_ok_def ev_ok_def word_less_nat_alt)
    from storeMessage_eq [OF this, of e sz forced ps receipt mx] obtain rd where
      st: "storeMessage e sz forced ps receipt mx b1 = Some (stored e sz (flagged e sz forced ps b1) receipt mx rd b1)" "event_wf rd" "ev_v rd"
      by blast
    let ?f = "flagged e sz forced ps b1"
    have ff: "forced \<Longrightarrow> ?f" by (simp add: flagged_def)
    have acc0: "\<not> accounting b \<Longrightarrow> bytes b = 0" using slots_okD(3) [OF d(1)] by (simp add: acct_ok_def)
    let ?l = "if esc then unat (escapeBytes b) else 0"
    have soft: "soft_ok (stored e sz ?f receipt mx rd (escaped esc sz b))" if "soft_ok b" "mx = 0"
      by (rule store_soft [OF cs that]) (use esc(2) ff in auto)
    have "rest_leaking ?l (forget w W) (stored e sz ?f receipt mx rd (escaped esc sz b), p1)"
      by (rule store_at_rest [OF rest cs st(2,3) esc(4) c(2)]) (use esc(3) ff in auto)
    moreover have "?l = 0" if "soft_ok b" using no_pending_escape [OF d(1) that] esc(2) by auto
    ultimately have "\<exists>l. rest_leaking l (forget w W) (stored e sz ?f receipt mx rd (escaped esc sz b), p1) \<and> (soft_ok b \<longrightarrow> l = 0)"
      by blast
    then show ?thesis
      using True c(1,2) Admitted st(1) esc(1) cs soft
      by (auto simp: tryAddWithReceiptLocked_def Event_IsSet_def)
  qed
qed

section \<open>A blocked call\<close>

lemma refused_books: "refused w' sz w W b p \<Longrightarrow> books (handed_after w' sz w W) b p \<and> (w \<noteq> None \<and> w' \<noteq> None \<longrightarrow> w' = w)"
  by (auto simp: refused_def handed_after_def split: option.splits)

lemma cancel_rest:
  assumes rest: "at_rest W (b, p)" and hand: "w = None \<or> W (the w) \<noteq> None"
  shows "\<exists>p'. cancel w p = Some p' \<and> at_rest (forget w W) (b, p') \<and> (p' = None \<longleftrightarrow> p = None)"
proof -
  note r = at_restD [OF rest]
  have own: "own (b_group b) (registered b) (unat (bytes b)) (unat (escapeBytes b)) W p" using r(7) by (simp add: books_def)
  obtain p' where p': "cancel w p = Some p'" "own (b_group b) (registered b) (unat (bytes b)) (unat (escapeBytes b)) (forget w W) p'"
    using cancel_law [OF own hand] by blast
  then have "books (forget w W) b p'" using r(7) budgetp_nil(2) [OF p'(1)] by (auto simp: books_def)
  then show ?thesis using at_rest_books [OF rest] p'(1) budgetp_nil(2) [OF p'(1)] by blast
qed

lemma add_iteration_ok:
  assumes rest: "at_rest W (b, p)" and ok: "add_ok sz w receipt W (b, p)"
  shows "\<exists>r b' p'. add_iteration (Some e) sz w receipt mx (b, p) = Some (r, (b', p')) \<and> (p' = None \<longleftrightarrow> p = None) \<and>
     (case r of
        AddReturns err \<Rightarrow>
          (if isRunning b then err = None \<and> (\<exists>l. rest_leaking l (forget w W) (b', p') \<and> (soft_ok b \<longrightarrow> l = 0)) \<and>
             (mx = 0 \<and> soft_ok b \<longrightarrow> soft_ok b') \<and>
             (\<exists>flag esc rd. b' = stored e sz flag receipt mx rd (escaped esc sz b) \<and> can_store sz receipt esc b)
           else err = Some ErrorClosed \<and> b' = b \<and> p' = p)
      | AddWaits c w' \<Rightarrow> isRunning b \<and> at_rest (handed_after w' sz w W) (b', p') \<and> (w \<noteq> None \<and> w' \<noteq> None \<longrightarrow> w' = w) \<and>
          (\<exists>wc n. b' = b\<lparr>wake := Some c, wakeClosed := wc, next_wake := n\<rparr>) \<and> (ev_v (isAvailable b) \<longrightarrow> held_flag b))"
proof (cases "isRunning b")
  case False
  then show ?thesis by (auto simp: add_iteration_def)
next
  case True
  from tryAdd_ok [OF rest True ok, of e] obtain q w' b1 p1 where
    t: "tryAddWithReceiptLocked e sz w receipt mx (b, p) = Some ((q, w'), (b1, p1))" "p1 = None \<longleftrightarrow> p = None"
      "if q then w' = None \<and> (\<exists>l. rest_leaking l (forget w W) (b1, p1) \<and> (soft_ok b \<longrightarrow> l = 0)) \<and>
         (\<exists>flag esc rd. b1 = stored e sz flag receipt mx rd (escaped esc sz b) \<and> can_store sz receipt esc b) \<and> (mx = 0 \<and> soft_ok b \<longrightarrow> soft_ok b1)
       else b1 = b \<and> refused w' sz w W b p1 \<and> (ev_v (isAvailable b) \<longrightarrow> held_flag b)"
    by blast
  show ?thesis
  proof (cases q)
    case True
    have "cancel None p1 = Some p1" by (simp add: cancel_def split: option.split)
    then show ?thesis using True \<open>isRunning b\<close> t by (auto simp: add_iteration_def)
  next
    case False
    then have b1: "b1 = b" "refused w' sz w W b p1" "ev_v (isAvailable b) \<longrightarrow> held_flag b" using t(3) by auto
    obtain c b2 where e: "ensure_wake b = (c, b2)" by fastforce
    from ensure_wake_ok [OF slots_okD(6) [OF at_restD(5) [OF rest]] e] obtain wc n where
      b2: "b2 = b\<lparr>wake := Some c, wakeClosed := wc, next_wake := n\<rparr>" "c < n" "\<not> wc c" by blast
    have "at_rest (handed_after w' sz w W) (b, p1)" using refused_books [OF b1(2)] at_rest_books [OF rest] by blast
    then have "at_rest (handed_after w' sz w W) (b2, p1)" unfolding b2(1) by (rule wake_frame) (use b2 in simp)
    then show ?thesis using False \<open>isRunning b\<close> t(1,2) b1 e b2(1) refused_books [OF b1(2)] by (auto simp: add_iteration_def)
  qed
qed

end

end
