(* ===== verification/AckReceipts.thy ===== *)
theory AckReceipts
  imports AckAdmit
begin

text \<open>
  What the operations of the buffer do to the receipt cells and to the channel blocked calls
  wait on. These are frame facts about the definitions alone: they hold for every state in
  which the operation returns.
\<close>

section \<open>Frames\<close>

definition calm :: "AckBuffer \<Rightarrow> AckBuffer \<Rightarrow> bool" where
  "calm b b' \<longleftrightarrow> cells b' = cells b \<and> receipts b' = receipts b \<and> (\<forall>c. wakeClosed b c \<longrightarrow> wakeClosed b' c)"

text \<open>Cells only ever become retired, and only cells of tracked admissions.\<close>

definition quiet :: "AckBuffer \<Rightarrow> AckBuffer \<Rightarrow> bool" where
  "quiet b b' \<longleftrightarrow>
     (\<forall>c. cells b' c \<noteq> cells b c \<longrightarrow> cells b' c = ReceiptRetired \<and> c \<in> t_state ` set (receipts b)) \<and>
     t_state ` set (receipts b') \<subseteq> t_state ` set (receipts b) \<and> (\<forall>c. wakeClosed b c \<longrightarrow> wakeClosed b' c)"

definition rouses :: "AckBuffer \<Rightarrow> AckBuffer \<Rightarrow> bool" where
  "rouses b b' \<longleftrightarrow> (\<forall>c. wake b = Some c \<longrightarrow> wakeClosed b' c)"

lemma calm_quiet: "calm b b' \<Longrightarrow> quiet b b'"
  by (simp add: calm_def quiet_def)

lemma calm_trans: "calm a b \<Longrightarrow> calm b c \<Longrightarrow> calm a c"
  by (simp add: calm_def)

lemma quiet_trans: "quiet a b \<Longrightarrow> quiet b c \<Longrightarrow> quiet a c"
  unfolding quiet_def by (metis subset_iff)

lemma quiet_refl [simp]: "quiet b b"
  by (simp add: quiet_def)

lemma rouses_quiet: "rouses a b \<Longrightarrow> quiet b c \<Longrightarrow> rouses a c"
  by (simp add: rouses_def quiet_def)

lemma signalLocked_calm: "signalLocked b = Some b' \<Longrightarrow> calm b b' \<and> rouses b b'"
  by (auto simp: signalLocked_def calm_def rouses_def split: option.splits if_splits)

lemma releasePrefix_calm: "releasePrefix e i (b, p) = Some (b', p') \<Longrightarrow> calm b b' \<and> wake b' = wake b"
  by (auto simp: releasePrefix_def Let_def calm_def split: if_splits bind_splits)

lemma shiftSlots_calm: "shiftSlots i b = Some b' \<Longrightarrow> calm b b' \<and> wake b' = wake b"
  by (auto simp: shiftSlots_def Let_def calm_def split: if_splits)

lemma shrink_calm: "calm b (if q then shrinkBackingLocked b else b) \<and> wake (if q then shrinkBackingLocked b else b) = wake b"
  by (simp add: shrinkBackingLocked_def Let_def calm_def)

lemma removePrefix_calm:
  assumes "removePrefixLocked i (b, p) = Some (b', p')"
  shows "calm b b' \<and> rouses b b'"
proof -
  let ?b0 = "b\<lparr>firstSeqNum := firstSeqNum b + i + 1\<rparr>"
  obtain b1 p1 where b1: "releasePrefix (escapeSeq b - firstSeqNum b) i (?b0, p) = Some (b1, p1)"
    using assms by (auto simp: removePrefixLocked_def Let_def split: bind_splits)
  obtain b2 where b2: "shiftSlots i b1 = Some b2"
    using assms b1 by (auto simp: removePrefixLocked_def Let_def split: bind_splits)
  define b3 where "b3 = (if nextIndexFree b2 \<le> currentCapacity b2 then shrinkBackingLocked b2 else b2)"
  let ?d = "\<lambda>b4. b4\<lparr>nextIndexToDeliver := (if nextIndexToDeliver b4 > i + 1 then nextIndexToDeliver b4 - (i + 1) else 0)\<rparr>"
  obtain av b4 b5 R where b4: "signalLocked (b3\<lparr>isAvailable := av\<rparr>) = Some b4" "b' = b5\<lparr>retired := R\<rparr>"
      "(if nextIndexToDeliver (?d b4) \<ge> nextIndexFree (?d b4) then do {
          empty \<leftarrow> Event_Set (isEmpty (?d b4));
          Some (?d b4\<lparr>isReadyToDeliver := Event_Clear (isReadyToDeliver (?d b4)), isEmpty := empty\<rparr>)
        } else Some (?d b4)) = Some b5"
    using assms unfolding removePrefixLocked_def Let_def prod.case b1 b2
    by (simp only: Option.bind_eq_Some_conv b1 b2 prod.case b3_def [symmetric] option.inject ex_simps simp_thms
        bind.bind_lunit split_paired_Ex prod.inject) blast
  have "calm b4 b5" using b4(3) by (auto simp: calm_def Option.bind_eq_Some_conv split: if_splits)
  then have b5: "calm b4 b'" using b4(2) by (simp add: calm_def)
  have "calm b b3 \<and> wake b3 = wake b"
    using releasePrefix_calm [OF b1] shiftSlots_calm [OF b2] shrink_calm [of b2 "nextIndexFree b2 \<le> currentCapacity b2"]
    by (simp add: b3_def calm_def)
  then show ?thesis using signalLocked_calm [OF b4(1)] b5 by (auto simp: calm_def rouses_def)
qed

section \<open>Retirement\<close>

lemma drop_loop_quiet:
  "drop_loop f i False cur ts cs rm = (ts', cs', rm') \<Longrightarrow> cs' = cs \<and> set ts' \<subseteq> set ts"
  by (induction ts arbitrary: rm) (auto split: if_splits)

lemma dropReceipts_quiet: "quiet b (dropReceiptsLocked f i False b)"
proof -
  obtain ts cs rm where d: "drop_loop f i False (deliverCursor b) (receipts b) (cells b) False = (ts, cs, rm)"
    by (metis prod_cases3)
  show ?thesis using drop_loop_quiet [OF d] by (auto simp: dropReceiptsLocked_def Let_def d quiet_def)
qed

lemma releaseRetiredHead_quiet:
  assumes "releaseRetiredHeadLocked (b, p) = Some (b', p')"
  shows "quiet b b' \<and> (retired_run b \<noteq> 0 \<and> retired b \<noteq> {} \<longrightarrow> rouses b b')"
proof (cases "retired b = {} \<or> retired_run b = 0")
  case True
  then show ?thesis using assms by (auto simp: releaseRetiredHeadLocked_def Let_def split: if_splits)
next
  case False
  then obtain r b1 where "removePrefixLocked (of_nat (retired_run b) - 1) (b\<lparr>releasedRetired := Some r\<rparr>, p) = Some (b1, p')"
      "b' = dropReceiptsLocked (firstSeqNum b) (of_nat (retired_run b) - 1) False b1"
    using assms by (auto simp: releaseRetiredHeadLocked_def Let_def split: bind_splits)
  then have c: "calm b b1" "rouses b b1" "quiet b1 b'"
    using removePrefix_calm [of _ "b\<lparr>releasedRetired := Some r\<rparr>"] dropReceipts_quiet by (auto simp: calm_def rouses_def)
  then show ?thesis using calm_quiet quiet_trans rouses_quiet by blast
qed

lemma releaseSlot_calm: "releaseSlot i q (b, p) = Some (b', p') \<Longrightarrow> calm b b' \<and> wake b' = wake b"
  by (auto simp: releaseSlot_def Let_def calm_def split: if_splits bind_splits)

lemma retireLocked_quiet:
  assumes "retireLocked i t (b, p) = Some (b', p')" and "t \<in> set (receipts b)"
  shows "quiet b b' \<and> receipts b' = receipts b \<and> rouses b b'"
proof -
  let ?b0 = "b\<lparr>cells := (cells b)(t_state t := ReceiptRetired),
      buff := (buff b)[unat i := Some (zeroDataMessage\<lparr>SeqNum := t_seq t\<rparr>)], retired := insert (t_seq t) (retired b)\<rparr>"
  obtain b1 p1 where b1: "releaseSlot i (t_seq t) (?b0, p) = Some (b1, p1)"
    using assms(1) by (auto simp: retireLocked_def Let_def split: bind_splits if_splits)
  have "signalLocked (if lastFlaggedSeq b1 = t_seq t then b1\<lparr>lastFlaggedSeq := 0\<rparr> else b1) = Some b'"
    using assms(1) b1 by (auto simp: retireLocked_def Let_def split: bind_splits if_splits)
  then have s: "calm b1 b' \<and> rouses b1 b'"
    using signalLocked_calm by (fastforce simp: calm_def rouses_def split: if_splits)
  have c: "cells b1 = (cells b)(t_state t := ReceiptRetired)" "receipts b1 = receipts b" "wake b1 = wake b"
      "\<And>c. wakeClosed b c \<Longrightarrow> wakeClosed b1 c"
    using releaseSlot_calm [OF b1] by (auto simp: calm_def)
  show ?thesis using s c assms(2) by (auto simp: calm_def quiet_def rouses_def)
qed

section \<open>Delivery\<close>

text \<open>
  What a blocked \<open>Add\<close> or \<open>drain\<close> waits for: free slots, buffered bytes, the flag that is held, the
  capacity, and whether the buffer still runs. A steady operation leaves all of it alone, or
  wakes the blocked calls.
\<close>

definition vital :: "AckBuffer \<Rightarrow> u64 \<times> u64 \<times> u64 \<times> u64 \<times> u64 \<times> bool \<times> bool" where
  "vital b = (nextIndexFree b, bytes b, currentCapacity b, lastFlaggedSeq b, firstSeqNum b, isRunning b, isClosed b)"

definition steady :: "AckBuffer \<Rightarrow> AckBuffer \<Rightarrow> bool" where
  "steady b b' \<longleftrightarrow> quiet b b' \<and> (rouses b b' \<or> wake b' = wake b \<and> vital b' = vital b)"

lemma steady_trans: "steady a b \<Longrightarrow> steady b c \<Longrightarrow> steady a c"
  unfolding steady_def using quiet_trans rouses_quiet by (metis rouses_def)

lemma steady_refl [simp]: "steady b b"
  by (simp add: steady_def)

lemma steady_rouses: "quiet a b \<Longrightarrow> rouses a b \<Longrightarrow> steady a b"
  by (simp add: steady_def)

lemma rouses_step: "rouses a b \<Longrightarrow> quiet a b \<Longrightarrow> quiet b c \<Longrightarrow> steady a c"
  using quiet_trans rouses_quiet by (simp add: steady_def)

lemma hand_out_steady: "hand_out i b = Some (n, b') \<Longrightarrow> steady b b'"
  by (auto simp: hand_out_def Let_def steady_def quiet_def vital_def split: if_splits bind_splits option.splits)

lemma count_send_steady: "steady b (count_send i b)"
  by (auto simp: steady_def quiet_def vital_def count_send_def image_image)

lemma cursor_entry_mem: "cursor_entry b = Some t \<Longrightarrow> t \<in> set (receipts b)"
  by (auto simp: cursor_entry_def find_entry_def find_Some_iff split: option.splits if_splits bind_splits)

lemma deliver_turn_steady:
  assumes "deliver_turn (b, p) = Some r"
  shows "steady b (case r of Inl (b', p') \<Rightarrow> b' | Inr (n, b', p') \<Rightarrow> b')"
proof -
  let ?b1 = "b\<lparr>deliverCursor := cursor_next b\<rparr>"
  have same: "steady b (advance b)" "steady b ?b1" by (simp_all add: steady_def quiet_def vital_def advance_def)
  show ?thesis
  proof (cases "firstSeqNum b + nextIndexToDeliver b \<in> retired b")
    case True
    then show ?thesis using assms same by (auto simp: deliver_turn_eq)
  next
    case live: False
    show ?thesis
    proof (cases "cursor_entry b")
      case None
      then obtain n b' where "hand_out (nextIndexToDeliver b) ?b1 = Some (n, b')" "r = Inr (n, b', p)"
        using assms live by (auto simp: deliver_turn_eq Let_def)
      then show ?thesis using hand_out_steady steady_trans [OF same(2)] by fastforce
    next
      case (Some t)
      note mem = cursor_entry_mem [OF Some]
      show ?thesis
      proof (cases "t_max t \<noteq> 0 \<and> t_max t \<le> t_sends t")
        case True
        then obtain b2 p2 b3 p3 where "retireLocked (nextIndexToDeliver b) t (?b1, p) = Some (b2, p2)"
            "releaseRetiredHeadLocked (b2\<lparr>nextIndexToDeliver := nextIndexToDeliver b2 + 1\<rparr>, p2) = Some (b3, p3)" "r = Inl (b3, p3)"
          using assms live Some by (auto simp: deliver_turn_eq Let_def split: bind_splits)
        note s = this
        have q: "quiet ?b1 b2" "rouses ?b1 b2" using retireLocked_quiet [OF s(1)] mem by simp_all
        have "quiet b2 b3"
          using releaseRetiredHead_quiet [OF s(2)] by (simp add: quiet_def)
        then have "steady b b3" using steady_trans [OF same(2) rouses_step [OF q(2,1)]] by blast
        then show ?thesis using s(3) by simp
      next
        case False
        let ?b2 = "if t_max t \<noteq> 0 then count_send (t_id t) ?b1 else ?b1"
        obtain n b' where h: "hand_out (nextIndexToDeliver b) ?b2 = Some (n, b')" "r = Inr (n, b', p)"
          using assms live Some False by (auto simp: deliver_turn_eq Let_def split: if_splits)
        have "steady b ?b2" using steady_trans [OF same(2) count_send_steady] same(2) by simp
        then show ?thesis using steady_trans hand_out_steady [OF h(1)] h(2) by fastforce
      qed
    qed
  qed
qed

lemma deliver_loop_steady:
  assumes "deliver_loop s = Some out"
  shows "steady (fst s) (fst (snd out))"
proof (rule deliver_loop.raw_induct [OF _ assms, where P = "\<lambda>s out. steady (fst s) (fst (snd out))"])
  fix dl s out
  assume IH: "\<And>s out. dl s = Some out \<Longrightarrow> steady (fst s) (fst (snd out))"
    and step: "(if nextIndexToDeliver (fst s) < nextIndexFree (fst s) then
        Option.bind (deliver_turn s) (\<lambda>r. case r of Inl s' \<Rightarrow> dl s' | Inr out \<Rightarrow> Some out)
      else
        Option.bind (Event_Set (isEmpty (fst s))) (\<lambda>empty.
          Some (None, ((fst s)\<lparr>isReadyToDeliver := Event_Clear (isReadyToDeliver (fst s)), isEmpty := empty\<rparr>, snd s)))) = Some out"
  show "steady (fst s) (fst (snd out))"
  proof (cases "nextIndexToDeliver (fst s) < nextIndexFree (fst s)")
    case True
    then obtain t where t: "deliver_turn (fst s, snd s) = Some t" "(case t of Inl s' \<Rightarrow> dl s' | Inr out \<Rightarrow> Some out) = Some out"
      using step by (auto split: bind_splits)
    note q = deliver_turn_steady [OF t(1)]
    show ?thesis
    proof (cases t)
      case (Inl u)
      then have "steady (fst u) (fst (snd out))" using t(2) IH [of u] by auto
      then show ?thesis using q Inl steady_trans by (cases u) auto
    next
      case (Inr u)
      then show ?thesis using q t(2) by (cases u) auto
    qed
  next
    case False
    then show ?thesis using step by (auto simp: steady_def quiet_def vital_def split: bind_splits)
  qed
qed

lemma GetNextToDeliver_steady: "GetNextToDeliver signalled s = Some (r, s') \<Longrightarrow> steady (fst s) (fst s')"
  using deliver_loop_steady [of s "(r, s')"] by (auto simp: GetNextToDeliver_def split: if_splits)

lemma reset_loop_steady:
  "reset_loop ts (b, p) = Some (b', p') \<Longrightarrow> set ts \<subseteq> set (receipts b) \<Longrightarrow> steady b b'"
proof (induction ts arbitrary: b p)
  case (Cons t ts)
  show ?case
  proof (cases "(t_max t = 0 \<or> t_sends t < t_max t) \<or> t_seq t \<in> retired b")
    case True
    then show ?thesis using Cons by (auto split: if_splits)
  next
    case False
    then obtain b1 p1 where r: "retireLocked (t_seq t - firstSeqNum b) t (b, p) = Some (b1, p1)" "reset_loop ts (b1, p1) = Some (b', p')"
      using Cons.prems(1) by (auto split: bind_splits if_splits)
    then have "steady b b1" "receipts b1 = receipts b" using retireLocked_quiet [OF r(1)] Cons.prems(2) steady_rouses by auto
    then show ?thesis using Cons.IH [OF r(2)] Cons.prems(2) steady_trans by auto
  qed
qed simp

lemma trim_steady:
  assumes "releaseRetiredHeadLocked (b, p) = Some (b', p')"
  shows "steady b b'"
proof (cases "retired b = {} \<or> retired_run b = 0")
  case True
  then have "b' = b" using assms by (auto simp: releaseRetiredHeadLocked_def Let_def split: if_splits)
  then show ?thesis by simp
next
  case False
  then show ?thesis using releaseRetiredHead_quiet [OF assms] steady_rouses by blast
qed

lemma ResetDelivery_steady:
  assumes "ResetDelivery (b, p) = Some (b', p')"
  shows "steady b b'"
proof -
  let ?b0 = "b\<lparr>nextIndexToDeliver := 0, deliverCursor := (case receipts b of [] \<Rightarrow> None | t # _ \<Rightarrow> Some (t_id t))\<rparr>"
  obtain b1 p1 b2 p2 where s: "reset_loop (receipts b) (?b0, p) = Some (b1, p1)" "releaseRetiredHeadLocked (b1, p1) = Some (b2, p2)"
      "steady b2 b'"
    using assms by (auto simp: ResetDelivery_def Let_def steady_def quiet_def vital_def split: bind_splits if_splits)
  have q: "steady b ?b0" "steady ?b0 b1" "steady b1 b2"
    using reset_loop_steady [OF s(1)] trim_steady [OF s(2)] by (simp_all add: steady_def quiet_def vital_def)
  show ?thesis by (rule steady_trans [OF q(1) steady_trans [OF q(2) steady_trans [OF q(3) s(3)]]])
qed

section \<open>Waking blocked calls\<close>

lemma UpdateCapacity_rouses:
  assumes "UpdateCapacity n b = Some b'" and "n \<noteq> currentCapacity b"
  shows "rouses b b'"
proof -
  define b1 where "b1 = shrinkBackingLocked ((if buffLen b < n then b\<lparr>buff := buff b @ replicate (unat n - length (buff b)) None\<rparr> else b)\<lparr>currentCapacity := n\<rparr>)"
  have w: "wake b1 = wake b" by (simp add: b1_def shrinkBackingLocked_def Let_def)
  obtain av b2 where "signalLocked (b1\<lparr>isAvailable := av\<rparr>) = Some b2" "wakeClosed b' = wakeClosed b2"
    using assms unfolding UpdateCapacity_def Let_def b1_def [symmetric]
    by (auto simp: Option.bind_eq_Some_conv split: if_splits)
  then show ?thesis using signalLocked_calm w by (fastforce simp: rouses_def)
qed

lemma drain_seal_rouses: "drain_seal b = Some b' \<Longrightarrow> rouses b b'"
  using signalLocked_calm by (fastforce simp: drain_seal_def rouses_def)

lemma releaseAll_calm: "releaseAllLocked (b, p) = Some (b', p') \<Longrightarrow> calm b b' \<and> wake b' = wake b"
  by (auto simp: releaseAllLocked_def calm_def split: if_splits bind_splits)

lemma ensure_wake_vital: "ensure_wake b = (c, b') \<Longrightarrow> vital b' = vital b"
  by (auto simp: ensure_wake_def vital_def split: option.splits if_splits)

lemma drain_vital: "drain_iteration ctxErr b = Some (r, b') \<Longrightarrow> vital b' = vital b"
  using ensure_wake_vital by (fastforce simp: drain_iteration_def Let_def split: option.splits if_splits prod.splits bind_splits)

lemma Close_rouses:
  assumes "Close (b, p) = Some (b', p')"
  shows "rouses b b'"
proof -
  obtain b1 p1 where b1: "releaseAllLocked (b\<lparr>isRunning := False, isClosed := True\<rparr>, p) = Some (b1, p1)"
    using assms by (auto simp: Close_def Let_def split: bind_splits)
  then have "signalLocked (if registered b1 then b1\<lparr>registered := False\<rparr> else b1) = Some b'"
    using assms by (auto simp: Close_def Let_def split: bind_splits if_splits)
  then show ?thesis using signalLocked_calm [of "if registered b1 then b1\<lparr>registered := False\<rparr> else b1" b'] releaseAll_calm [OF b1]
    by (simp add: rouses_def split: if_splits)
qed

lemma dropReceipts_wake: "wakeClosed (dropReceiptsLocked f i a b) = wakeClosed b"
  by (simp add: dropReceiptsLocked_def Let_def split: prod.split)

lemma Ack_rouses:
  assumes "win_ok b" and "acceptable sq b" and "Ack sq (b, p) = Some (r, (b', p'))"
  shows "rouses b b'"
proof -
  obtain b1 p1 where b1: "removePrefixLocked (sq - firstSeqNum b) (ack_counted b, p) = Some (b1, p1)"
      "releaseRetiredHeadLocked (dropReceiptsLocked (firstSeqNum b) (sq - firstSeqNum b) True b1, p1) = Some (b', p')"
    using assms(3) unfolding Ack_accept [OF assms(1,2)] by (auto split: bind_splits)
  have "rouses b b1" using removePrefix_calm [OF b1(1)] by (simp add: rouses_def ack_counted_def)
  then show ?thesis using releaseRetiredHead_quiet [OF b1(2)] by (simp add: rouses_def quiet_def dropReceipts_wake)
qed

end
