(* ===== verification/AckSystem.thy ===== *)
theory AckSystem
  imports AckReceipts
begin

text \<open>
  The acknowledgement buffer as a component: its locked sections as operations on the buffer,
  the shared budget and the waiters its blocked calls hold. \<open>op_spec\<close> collects what each
  operation does; \<open>exec_ok\<close> proves it once, for every budget that satisfies the interface.
\<close>

section \<open>Operations\<close>

datatype ack_op =
    AAdd "DataMessage option" u64 "nat option" "nat option" u32
  | ATimeout
  | ACancel "nat option"
  | AAck u64
  | ADeliver bool
  | AReset
  | ACapacity u64
  | ASeal
  | ADrain "go_error option"
  | AClose

datatype ack_out =
    OAdd add_result
  | OAck "go_error option"
  | OMsg "DataMessage option"
  | ODrain drain_result
  | ODone

type_synonym ack_state = "AckBuffer \<times> budgetp \<times> handed"

fun waiters_after :: "add_result \<Rightarrow> u64 \<Rightarrow> nat option \<Rightarrow> handed \<Rightarrow> handed" where
  "waiters_after (AddReturns err) sz w W = (if err = None then forget w W else W)"
| "waiters_after (AddWaits _ w') sz w W = handed_after w' sz w W"

fun ack_exec :: "ack_op \<Rightarrow> ack_state \<Rightarrow> (ack_out \<times> ack_state) option" where
  "ack_exec (AAdd msg sz w receipt mx) (b, p, W) =
     map_option (\<lambda>(r, b, p). (OAdd r, b, p, waiters_after r sz w W)) (add_iteration msg sz w receipt mx (b, p))"
| "ack_exec ATimeout (b, p, W) = Some (OAdd (add_timeout b), b, p, W)"
| "ack_exec (ACancel w) (b, p, W) = map_option (\<lambda>p. (ODone, b, p, forget w W)) (cancel w p)"
| "ack_exec (AAck sq) (b, p, W) = map_option (\<lambda>(r, b, p). (OAck r, b, p, W)) (Ack sq (b, p))"
| "ack_exec (ADeliver signalled) (b, p, W) = map_option (\<lambda>(r, b, p). (OMsg r, b, p, W)) (GetNextToDeliver signalled (b, p))"
| "ack_exec AReset (b, p, W) = map_option (\<lambda>(b, p). (ODone, b, p, W)) (ResetDelivery (b, p))"
| "ack_exec (ACapacity n) (b, p, W) = map_option (\<lambda>b. (ODone, b, p, W)) (UpdateCapacity n b)"
| "ack_exec ASeal (b, p, W) = map_option (\<lambda>b. (ODone, b, p, W)) (drain_seal b)"
| "ack_exec (ADrain ctxErr) (b, p, W) = map_option (\<lambda>(r, b). (ODrain r, b, p, W)) (drain_iteration ctxErr b)"
| "ack_exec AClose (b, p, W) = map_option (\<lambda>(b, p). (ODone, b, p, W)) (Close (b, p))"

text \<open>
  What the caller promises: a waiter belongs to the call that passes it and keeps its size; a
  receipt is not handed in again while its frame is tracked; sequence numbers, the buffered
  bytes and the counters of the budget do not overflow; a size is not zero when bytes are
  accounted; and a new capacity can be allocated.
\<close>

fun ack_pre :: "ack_op \<Rightarrow> ack_state \<Rightarrow> bool" where
  "ack_pre (AAdd msg sz w receipt mx) (b, p, W) \<longleftrightarrow> (if msg = None then w = None else add_ok sz w receipt W (b, p))"
| "ack_pre (ACancel w) (b, p, W) \<longleftrightarrow> w = None \<or> W (the w) \<noteq> None"
| "ack_pre (ACapacity n) s \<longleftrightarrow> make_ok n"
| "ack_pre _ s \<longleftrightarrow> True"

section \<open>What the operations do\<close>

definition sound :: "AckBuffer \<Rightarrow> bool" where
  "sound b \<longleftrightarrow> slots_ok b \<and> rec_ok b \<and> ready_ok b \<and> firstSeqNum b \<notin> retired b"

definition admits :: "DataMessage \<Rightarrow> u64 \<Rightarrow> nat option \<Rightarrow> u32 \<Rightarrow> AckBuffer \<Rightarrow> AckBuffer \<Rightarrow> bool" where
  "admits e sz receipt mx b b' \<longleftrightarrow>
     (\<exists>flag esc rd. b' = stored e sz flag receipt mx rd (escaped esc sz b) \<and> can_store sz receipt esc b) \<and>
     (mx = 0 \<and> soft_ok b \<longrightarrow> soft_ok b')"

definition waits :: "nat \<Rightarrow> AckBuffer \<Rightarrow> AckBuffer \<Rightarrow> bool" where
  "waits c b b' \<longleftrightarrow> (\<exists>wc n. b' = b\<lparr>wake := Some c, wakeClosed := wc, next_wake := n\<rparr>) \<and> (ev_v (isAvailable b) \<longrightarrow> held_flag b)"

definition add_spec :: "DataMessage option \<Rightarrow> u64 \<Rightarrow> nat option \<Rightarrow> u32 \<Rightarrow> add_result \<Rightarrow> AckBuffer \<Rightarrow> AckBuffer \<Rightarrow> bool" where
  "add_spec msg sz receipt mx r b b' \<longleftrightarrow>
     (case msg of None \<Rightarrow> r = AddReturns (Some ErrorBufferFull) \<and> b' = b
      | Some e \<Rightarrow>
          if \<not> isRunning b then r = AddReturns (Some ErrorClosed) \<and> b' = b
          else (case r of AddReturns err \<Rightarrow> err = None \<and> admits e sz receipt mx b b' | AddWaits c w' \<Rightarrow> waits c b b'))"

definition drain_spec :: "go_error option \<Rightarrow> drain_result \<Rightarrow> AckBuffer \<Rightarrow> AckBuffer \<Rightarrow> bool" where
  "drain_spec ctxErr r b b' \<longleftrightarrow>
     (if nfree b = 0 then r = Drained
      else if isClosed b \<or> ctxErr \<noteq> None then
        \<exists>l. r = DrainFailed \<lparr>Unacked = int (length (filter (\<lambda>s. s \<noteq> Gone) (slots b))), FirstSeq = firstSeqNum b,
             LastSeq = firstSeqNum b + of_nat l, Err = (if isClosed b then ErrorClosed else the ctxErr)\<rparr> \<and> last_live l b
      else \<exists>c. r = DrainWaits c \<and> wake b' = Some c)"

text \<open>Operations that leave the window and the receipts alone.\<close>

definition idle :: "AckBuffer \<Rightarrow> AckBuffer \<Rightarrow> bool" where
  "idle b b' \<longleftrightarrow> window_of b' = window_of b \<and> receipts b' = receipts b \<and> cells b' = cells b \<and> (soft_ok b \<longrightarrow> soft_ok b')"

fun op_spec :: "ack_op \<Rightarrow> ack_out \<Rightarrow> AckBuffer \<Rightarrow> AckBuffer \<Rightarrow> bool" where
  "op_spec (AAdd msg sz w receipt mx) out b b' \<longleftrightarrow> (\<exists>r. out = OAdd r \<and> add_spec msg sz receipt mx r b b')"
| "op_spec ATimeout out b b' \<longleftrightarrow> out = OAdd (AddReturns (Some (timeoutErr b))) \<and> b' = b"
| "op_spec (ACancel w) out b b' \<longleftrightarrow> out = ODone \<and> b' = b"
| "op_spec (AAck sq) out b b' \<longleftrightarrow>
     (\<exists>r. out = OAck r \<and> (soft_ok b \<longrightarrow> soft_ok b') \<and>
       (if acceptable sq b then r = None \<and> window_of b' = w_ack (Suc (slot_of b sq)) (window_of b) \<and> isRunning b' = isRunning b \<and>
          nextSeqNum b' = nextSeqNum b \<and> cells b' = acked_cells (Suc (slot_of b sq)) True b \<and> rouses b b'
        else b' = ack_counted b \<and> (r = None \<longleftrightarrow> late_ack sq b)))"
| "op_spec (ADeliver signalled) out b b' \<longleftrightarrow>
     (\<exists>r. out = OMsg r \<and> (soft_ok b \<longrightarrow> soft_ok b') \<and> static b' = static b \<and> steady b b' \<and>
       (if signalled then w_next (\<not> isRunning b) (window_of b) = (r, window_of b') else r = None \<and> b' = b))"
| "op_spec AReset out b b' \<longleftrightarrow> out = ODone \<and> (soft_ok b \<longrightarrow> soft_ok b') \<and> static b' = static b \<and> steady b b' \<and> window_of b' = w_reset (window_of b)"
| "op_spec (ACapacity n) out b b' \<longleftrightarrow> out = ODone \<and> idle b b' \<and> currentCapacity b' = n \<and> isRunning b' = isRunning b \<and>
     (if n = currentCapacity b then b' = b else rouses b b')"
| "op_spec ASeal out b b' \<longleftrightarrow> out = ODone \<and> idle b b' \<and> \<not> isRunning b' \<and> rouses b b'"
| "op_spec (ADrain ctxErr) out b b' \<longleftrightarrow> (\<exists>r. out = ODrain r \<and> idle b b' \<and> vital b' = vital b \<and> drain_spec ctxErr r b b')"
| "op_spec AClose out b b' \<longleftrightarrow> out = ODone \<and> idle b b' \<and> isClosed b' \<and> \<not> isRunning b' \<and> bytes b' = 0 \<and> escapeBytes b' = 0 \<and> \<not> registered b' \<and>
     rouses b b'"

context shared_budget
begin

lemma at_rest_sound: "at_rest W (b, p) \<Longrightarrow> sound b"
  using at_restD by (auto simp: sound_def)

lemma exec_add_ok:
  assumes rest: "at_rest W (b, p)" and pre: "ack_pre (AAdd msg sz w receipt mx) (b, p, W)"
  shows "\<exists>r b' p'. add_iteration msg sz w receipt mx (b, p) = Some (r, b', p') \<and> (p' = None \<longleftrightarrow> p = None) \<and>
     (\<exists>l. rest_leaking l (waiters_after r sz w W) (b', p') \<and> (soft_ok b \<longrightarrow> l = 0)) \<and> add_spec msg sz receipt mx r b b'"
proof (cases msg)
  case None
  then show ?thesis using assms by (auto simp: add_iteration_def add_spec_def forget_def intro!: exI [of _ 0])
next
  case (Some e)
  then have "add_ok sz w receipt W (b, p)" using pre by simp
  from add_iteration_ok [OF rest this, of e] obtain r b' p' where a: "add_iteration (Some e) sz w receipt mx (b, p) = Some (r, b', p')" "p' = None \<longleftrightarrow> p = None"
     "case r of
        AddReturns err \<Rightarrow>
          (if isRunning b then err = None \<and> (\<exists>l. rest_leaking l (forget w W) (b', p') \<and> (soft_ok b \<longrightarrow> l = 0)) \<and>
             (mx = 0 \<and> soft_ok b \<longrightarrow> soft_ok b') \<and>
             (\<exists>flag esc rd. b' = stored e sz flag receipt mx rd (escaped esc sz b) \<and> can_store sz receipt esc b)
           else err = Some ErrorClosed \<and> b' = b \<and> p' = p)
      | AddWaits c w' \<Rightarrow> isRunning b \<and> at_rest (handed_after w' sz w W) (b', p') \<and> (w \<noteq> None \<and> w' \<noteq> None \<longrightarrow> w' = w) \<and>
          (\<exists>wc n. b' = b\<lparr>wake := Some c, wakeClosed := wc, next_wake := n\<rparr>) \<and> (ev_v (isAvailable b) \<longrightarrow> held_flag b)"
    by blast
  have "add_spec msg sz receipt mx r b b'"
    using a(3) Some by (cases r; cases "isRunning b") (simp_all add: add_spec_def admits_def waits_def)
  moreover have "\<exists>l. rest_leaking l (waiters_after r sz w W) (b', p') \<and> (soft_ok b \<longrightarrow> l = 0)"
    using a(3) rest by (cases r; cases "isRunning b") (auto intro!: exI [of _ 0])
  ultimately show ?thesis using a(1,2) Some by blast
qed

definition returns :: "handed \<Rightarrow> AckBuffer \<Rightarrow> budgetp \<Rightarrow> ack_op \<Rightarrow> bool" where
  "returns W b p opr \<longleftrightarrow> (\<exists>out b' p' W' l. ack_exec opr (b, p, W) = Some (out, b', p', W') \<and> rest_leaking l W' (b', p') \<and>
     (soft_ok b \<longrightarrow> l = 0) \<and> (p' = None \<longleftrightarrow> p = None) \<and> op_spec opr out b b')"

lemma returnsI:
  assumes "ack_exec opr (b, p, W) = Some (out, b', p', W')" "at_rest W' (b', p')" "p' = None \<longleftrightarrow> p = None" "op_spec opr out b b'"
  shows "returns W b p opr"
  unfolding returns_def using assms rest_leaking_0 by blast

lemma exec_ack:
  assumes rest: "at_rest W (b, p)"
  shows "returns W b p (AAck sq)"
proof -
  from Ack_ok [OF rest, of sq] obtain r b' p' where a: "Ack sq (b, p) = Some (r, b', p')" "at_rest W (b', p')" "p' = None \<longleftrightarrow> p = None"
      "soft_ok b \<longrightarrow> soft_ok b'"
      "if acceptable sq b then r = None \<and> window_of b' = w_ack (Suc (slot_of b sq)) (window_of b) \<and>
        isRunning b' = isRunning b \<and> nextSeqNum b' = nextSeqNum b \<and> cells b' = acked_cells (Suc (slot_of b sq)) True b
      else b' = ack_counted b \<and> p' = p" by blast
  note w = at_restD(8) [OF rest]
  have "r = None \<longleftrightarrow> late_ack sq b" if "\<not> acceptable sq b"
    by (rule Ack_reject [OF w that, of p]) (use a(1) in simp)
  moreover have "rouses b b'" if "acceptable sq b" by (rule Ack_rouses [OF w that a(1)])
  ultimately have "op_spec (AAck sq) (OAck r) b b'" using a(4,5) by (cases "acceptable sq b") simp_all
  then show ?thesis using a(1) by (intro returnsI [OF _ a(2,3), where out = "OAck r"]) simp_all
qed

lemma exec_deliver:
  assumes rest: "at_rest W (b, p)"
  shows "returns W b p (ADeliver signalled)"
proof -
  from GetNextToDeliver_ok [OF rest, of signalled] obtain r b' p' where
    a: "GetNextToDeliver signalled (b, p) = Some (r, b', p')" "at_rest W (b', p')" "p' = None \<longleftrightarrow> p = None"
      "static b' = static b" "soft_ok b \<longrightarrow> soft_ok b'"
      "if signalled then w_next (\<not> isRunning b) (window_of b) = (r, window_of b') else r = None \<and> b' = b \<and> p' = p" by blast
  then have "op_spec (ADeliver signalled) (OMsg r) b b'" using GetNextToDeliver_steady [OF a(1)] by (auto split: if_splits)
  then show ?thesis using a(1) by (intro returnsI [OF _ a(2,3), where out = "OMsg r"]) simp_all
qed

lemma exec_drain:
  assumes rest: "at_rest W (b, p)"
  shows "returns W b p (ADrain ctxErr)"
proof -
  from drain_iteration_ok [OF rest, of ctxErr] obtain r b' where
    "drain_iteration ctxErr b = Some (r, b')" "at_rest W (b', p)" "window_of b' = window_of b" "soft_ok b' = soft_ok b"
    "receipts b' = receipts b" "cells b' = cells b" "drain_spec ctxErr r b b'"
    unfolding drain_spec_def by blast
  then show ?thesis using drain_vital by (intro returnsI [where out = "ODrain r" and b' = b' and p' = p and W' = W]) (simp_all add: idle_def)
qed

lemma exec_close:
  assumes rest: "at_rest W (b, p)"
  shows "returns W b p AClose"
proof -
  from Close_ok [OF rest] obtain b' p' where a: "Close (b, p) = Some (b', p')" "at_rest W (b', p')" "p' = None \<longleftrightarrow> p = None"
      "idle b b'" "isClosed b'" "\<not> isRunning b'" "bytes b' = 0" "escapeBytes b' = 0" "\<not> registered b'"
    unfolding idle_def by blast
  then show ?thesis using Close_rouses [OF a(1)] by (intro returnsI [where out = ODone and b' = b' and p' = p' and W' = W]) simp_all
qed

lemma exec_returns:
  assumes rest: "at_rest W (b, p)" and pre: "ack_pre opr (b, p, W)"
  shows "returns W b p opr"
proof (cases opr)
  case (AAdd msg sz w receipt mx)
  from exec_add_ok [OF rest pre [unfolded AAdd]] obtain r b' p' l where
    a: "add_iteration msg sz w receipt mx (b, p) = Some (r, b', p')" "p' = None \<longleftrightarrow> p = None"
      "rest_leaking l (waiters_after r sz w W) (b', p')" "soft_ok b \<longrightarrow> l = 0" "add_spec msg sz receipt mx r b b'" by blast
  then have "ack_exec opr (b, p, W) = Some (OAdd r, b', p', waiters_after r sz w W)" "op_spec opr (OAdd r) b b'" using AAdd by simp_all
  then show ?thesis unfolding returns_def using a by blast
next
  case ATimeout
  then show ?thesis
    using rest by (intro returnsI [where out = "OAdd (AddReturns (Some (timeoutErr b)))" and b' = b and p' = p and W' = W]) (simp_all add: add_timeout_def)
next
  case (ACancel w)
  then obtain p' where "cancel w p = Some p'" "at_rest (forget w W) (b, p')" "p' = None \<longleftrightarrow> p = None"
    using cancel_rest [OF rest] pre by auto
  then show ?thesis using ACancel by (intro returnsI [where out = ODone and b' = b and p' = p' and W' = "forget w W"]) simp_all
next
  case (AAck sq)
  then show ?thesis using exec_ack [OF rest] by simp
next
  case (ADeliver signalled)
  then show ?thesis using exec_deliver [OF rest] by simp
next
  case AReset
  from ResetDelivery_ok [OF rest] obtain b' p' where
    a: "ResetDelivery (b, p) = Some (b', p')" "at_rest W (b', p')" "p' = None \<longleftrightarrow> p = None"
      "static b' = static b" "soft_ok b \<longrightarrow> soft_ok b'" "window_of b' = w_reset (window_of b)" by blast
  then show ?thesis using AReset ResetDelivery_steady [OF a(1)] by (intro returnsI [where out = ODone and b' = b' and p' = p' and W' = W]) simp_all
next
  case (ACapacity n)
  from UpdateCapacity_ok [OF rest, of n] pre ACapacity obtain b' where
    a: "UpdateCapacity n b = Some b'" "at_rest W (b', p)" "window_of b' = window_of b" "soft_ok b' = soft_ok b" "currentCapacity b' = n"
      "isRunning b' = isRunning b" "receipts b' = receipts b" "cells b' = cells b" by auto
  moreover have "n = currentCapacity b \<Longrightarrow> b' = b" using a(1) by (simp add: UpdateCapacity_def)
  ultimately show ?thesis
    using ACapacity UpdateCapacity_rouses [OF a(1)] by (intro returnsI [where out = ODone and b' = b' and p' = p and W' = W]) (simp_all add: idle_def)
next
  case ASeal
  from drain_seal_ok [OF rest] obtain b' where a: "drain_seal b = Some b'" "at_rest W (b', p)" "idle b b'" "\<not> isRunning b'"
    by (auto simp: idle_def)
  then show ?thesis using ASeal drain_seal_rouses [OF a(1)] by (intro returnsI [where out = ODone and b' = b' and p' = p and W' = W]) simp_all
next
  case (ADrain ctxErr)
  then show ?thesis using exec_drain [OF rest] by simp
next
  case AClose
  then show ?thesis using exec_close [OF rest] by simp
qed

lemmas exec_ok = exec_returns [unfolded returns_def]

end

end
