(* ===== verification/Fleet.thy ===== *)
theory Fleet
  imports AckSystem
begin

text \<open>
  Several buffers that share one budget, each an \<open>AckBuffer\<close> created by \<open>NewAckBuffer\<close>, in any
  interleaving of their locked sections. What the system relies on of the budget is the
  interface \<open>budget_fleet\<close>: the claims of all buffers against the budget hold together, the
  operations of one buffer leave the claims of the others alone, and a new buffer joins
  with an empty claim. The interface is interpreted on the nil, the legacy and the fair budget.
\<close>

section \<open>Claims\<close>

record claim =
  c_group :: "nat option"
  c_reg :: bool
  c_held :: nat
  c_esc :: nat
  c_handed :: handed

definition holds :: "(nat option \<Rightarrow> bool \<Rightarrow> nat \<Rightarrow> nat \<Rightarrow> handed \<Rightarrow> budgetp \<Rightarrow> bool) \<Rightarrow> claim \<Rightarrow> budgetp \<Rightarrow> bool" where
  "holds own c p \<longleftrightarrow> own (c_group c) (c_reg c) (c_held c) (c_esc c) (c_handed c) p"

text \<open>What a buffer claims of the budget, \<open>l\<close> being the escape bytes it has forgotten.\<close>

definition claim_of :: "nat \<Rightarrow> AckBuffer \<times> handed \<Rightarrow> claim" where
  "claim_of l bW = (let (b, W) = bW in
     \<lparr>c_group = b_group b, c_reg = registered b, c_held = unat (bytes b), c_esc = unat (escapeBytes b) + l, c_handed = W\<rparr>)"

abbreviation claims :: "nat list \<Rightarrow> (AckBuffer \<times> handed) list \<Rightarrow> claim list" where
  "claims \<equiv> map2 claim_of"

lemma claims_update: "claims (ls[i := l]) (cs[i := c]) = (claims ls cs)[i := claim_of l c]"
  by (simp add: zip_update map_update)

definition new_claim :: "nat option \<Rightarrow> claim" where
  "new_claim g = \<lparr>c_group = g, c_reg = (g \<noteq> None), c_held = 0, c_esc = 0, c_handed = Map.empty\<rparr>"

definition join_room :: "nat \<Rightarrow> budgetp \<Rightarrow> bool" where
  "join_room n p \<longleftrightarrow> int n < 2 ^ 62 - 1 \<and> (case p of None \<Rightarrow> True | Some bb \<Rightarrow> int (next_grp bb) < 2 ^ 62 - 1)"

locale budget_fleet =
  fixes ok :: "claim list \<Rightarrow> budgetp \<Rightarrow> bool"
    and own_at :: "claim list \<Rightarrow> nat \<Rightarrow> nat option \<Rightarrow> bool \<Rightarrow> nat \<Rightarrow> nat \<Rightarrow> handed \<Rightarrow> budgetp \<Rightarrow> bool"
  assumes member: "shared_budget (own_at cl i)"
    and get_law: "ok cl p \<Longrightarrow> i < length cl \<Longrightarrow> holds (own_at cl i) (cl ! i) p"
    and put_law: "ok cl p \<Longrightarrow> i < length cl \<Longrightarrow> holds (own_at cl i) c p' \<Longrightarrow> ok (cl[i := c]) p'"
    and join_law: "ok cl p \<Longrightarrow> join_room (length cl) p \<Longrightarrow> register key p = (r, p') \<Longrightarrow>
      (case r of Inl _ \<Rightarrow> ok cl p' | Inr g \<Rightarrow> ok (cl @ [new_claim g]) p')"

section \<open>The system\<close>

datatype fleet_op = FNew AckBufferOptions | FOp nat ack_op

type_synonym fleet = "(AckBuffer \<times> handed) list \<times> budgetp"

fun fleet_step :: "fleet_op \<Rightarrow> fleet \<Rightarrow> fleet option" where
  "fleet_step (FNew opts) (cs, p) =
     map_option (\<lambda>(r, p). (case r of Inl _ \<Rightarrow> cs | Inr b \<Rightarrow> cs @ [(b, Map.empty)], p)) (NewAckBuffer opts p)"
| "fleet_step (FOp i opr) (cs, p) =
     (let (b, W) = cs ! i in map_option (\<lambda>(out, b, p, W). (cs[i := (b, W)], p)) (ack_exec opr (b, p, W)))"

fun fleet_pre :: "fleet_op \<Rightarrow> fleet \<Rightarrow> bool" where
  "fleet_pre (FNew opts) (cs, p) \<longleftrightarrow> join_room (length cs) p"
| "fleet_pre (FOp i opr) (cs, p) \<longleftrightarrow> i < length cs \<and> (let (b, W) = cs ! i in ack_pre opr (b, p, W))"

text \<open>What a buffer's own state promises, without its claim.\<close>

definition lone :: "budgetp \<Rightarrow> AckBuffer \<Rightarrow> bool" where
  "lone p b \<longleftrightarrow> sound b \<and> (\<not> isClosed b \<longrightarrow> registered b \<or> b_group b = None) \<and>
     (registered b \<longrightarrow> b_group b \<noteq> None \<and> \<not> isClosed b) \<and> (p \<noteq> None \<longrightarrow> accounting b)"

lemma lone_cong: "(p' = None \<longleftrightarrow> p = None) \<Longrightarrow> lone p' b = lone p b"
  by (auto simp: lone_def)

lemma at_rest_iff:
  assumes "shared_budget own"
  shows "shared_budget.at_rest (leaky l own) W (b, p) \<longleftrightarrow> lone p b \<and> holds own (claim_of l (b, W)) p"
proof -
  note s = shared_budget.leaky_shared [OF assms, of l]
  show ?thesis
    by (auto simp: shared_budget.at_rest_def [OF s] shared_budget.core_def [OF s] shared_budget.books_def [OF s] leaky_def
        lone_def sound_def holds_def claim_of_def)
qed

lemma register_nil: "register key p = (r, p') \<Longrightarrow> p' = None \<longleftrightarrow> p = None"
  by (auto simp: register_def Let_def split: option.splits if_splits)

lemma NewAckBuffer_ok:
  assumes "register (BudgetGroup opts) p = (r, p')"
  shows "\<exists>res. NewAckBuffer opts p = Some (res, p') \<and>
     (case r of Inl e \<Rightarrow> res = Inl e | Inr g \<Rightarrow> \<exists>b. res = Inr b \<and> lone p' b \<and> soft_ok b \<and> claim_of 0 (b, Map.empty) = new_claim g)"
proof (cases r)
  case (Inl e)
  then show ?thesis using assms by (simp add: NewAckBuffer_def)
next
  case (Inr g)
  obtain e where e: "Event_Set NewEvent = Some e" "event_wf e" "ev_v e" by (rule Event_Set_wf [OF NewEvent_wf(1)])
  then show ?thesis
    using Inr assms
    by (simp add: NewAckBuffer_def lone_def sound_def slots_ok_def win_ok_def ev_ok_def wake_ok_def acct_ok_def ret_ok_def
        flag_ok_def held_flag_def rec_ok_def list_ok_def cursor_of_def ready_ok_def soft_ok_def claim_of_def new_claim_def
        initialCapacity_def) (metis not_None_eq)
qed

context budget_fleet
begin

text \<open>\<open>ls\<close> are the escape bytes each buffer has forgotten.\<close>

definition fleet_books :: "nat list \<Rightarrow> fleet \<Rightarrow> bool" where
  "fleet_books ls s \<longleftrightarrow> length ls = length (fst s) \<and> ok (claims ls (fst s)) (snd s) \<and> (\<forall>c \<in> set (fst s). lone (snd s) (fst c))"

definition fleet_inv :: "fleet \<Rightarrow> bool" where
  "fleet_inv s \<longleftrightarrow> (\<exists>ls. fleet_books ls s)"

lemma fleet_rest:
  assumes "fleet_books ls (cs, p)" and "i < length cs" and "cs ! i = (b, W)"
  shows "shared_budget.at_rest (leaky (ls ! i) (own_at (claims ls cs) i)) W (b, p)"
proof -
  have "holds (own_at (claims ls cs) i) (claim_of (ls ! i) (b, W)) p"
    using get_law [of "claims ls cs" p i] assms by (simp add: fleet_books_def)
  moreover have "lone p b" using assms nth_mem [of i cs] by (auto simp: fleet_books_def)
  ultimately show ?thesis by (simp add: at_rest_iff [OF member])
qed

lemma fleet_op_books:
  assumes inv: "fleet_books ls (cs, p)" and i: "i < length cs" "cs ! i = (b, W)" and pre: "ack_pre opr (b, p, W)"
  shows "\<exists>out b' p' W' l. ack_exec opr (b, p, W) = Some (out, b', p', W') \<and> fleet_books (ls[i := l]) (cs[i := (b', W')], p') \<and>
     (soft_ok b \<longrightarrow> l = ls ! i) \<and> (p' = None \<longleftrightarrow> p = None) \<and> op_spec opr out b b'"
proof -
  let ?own = "own_at (claims ls cs) i"
  note sh = shared_budget.leaky_shared [OF member, where l = "ls ! i"]
  from shared_budget.exec_ok [OF sh fleet_rest [OF inv i] pre] obtain out b' p' W' k where
    x: "ack_exec opr (b, p, W) = Some (out, b', p', W')" "shared_budget.rest_leaking (leaky (ls ! i) ?own) k W' (b', p')"
      "soft_ok b \<longrightarrow> k = 0" "p' = None \<longleftrightarrow> p = None" "op_spec opr out b b'" by blast
  let ?l = "k + ls ! i"
  have "shared_budget.at_rest (leaky ?l ?own) W' (b', p')"
    using x(2) by (simp add: shared_budget.rest_leaking_def [OF sh] leaky_leaky)
  then have l: "lone p' b'" "holds ?own (claim_of ?l (b', W')) p'" by (simp_all add: at_rest_iff [OF member])
  have "ok ((claims ls cs)[i := claim_of ?l (b', W')]) p'"
    using put_law [OF _ _ l(2), of p] inv i(1) by (simp add: fleet_books_def)
  moreover have "lone p' (fst c)" if "c \<in> set (cs[i := (b', W')])" for c
    using set_update_subset_insert [of cs i] that l(1) inv lone_cong [OF x(4)] by (fastforce simp: fleet_books_def)
  ultimately have "fleet_books (ls[i := ?l]) (cs[i := (b', W')], p')" using inv by (simp add: fleet_books_def claims_update)
  then show ?thesis using x by (intro exI [of _ out] exI [of _ b'] exI [of _ p'] exI [of _ W'] exI [of _ ?l]) simp
qed

lemma fleet_op_ok:
  assumes "fleet_inv (cs, p)" and "i < length cs" "cs ! i = (b, W)" and "ack_pre opr (b, p, W)"
  shows "\<exists>out b' p' W'. ack_exec opr (b, p, W) = Some (out, b', p', W') \<and> fleet_inv (cs[i := (b', W')], p') \<and> (p' = None \<longleftrightarrow> p = None) \<and>
     op_spec opr out b b'"
  using fleet_op_books [OF _ assms(2-4)] assms(1) unfolding fleet_inv_def by blast

lemma fleet_new_books:
  assumes inv: "fleet_books ls (cs, p)" and room: "join_room (length cs) p"
  shows "\<exists>cs' p'. fleet_step (FNew opts) (cs, p) = Some (cs', p') \<and>
     (cs' = cs \<and> fleet_books ls (cs', p') \<or> (\<exists>b. cs' = cs @ [(b, Map.empty)] \<and> soft_ok b \<and> fleet_books (ls @ [0]) (cs', p')))"
proof -
  obtain r p' where r: "register (BudgetGroup opts) p = (r, p')" by fastforce
  note j = join_law [OF _ _ r, of "claims ls cs"]
  have o: "ok (claims ls cs) p" "\<And>c. c \<in> set cs \<Longrightarrow> lone p' (fst c)" "length ls = length cs"
    using inv lone_cong [OF register_nil [OF r]] by (auto simp: fleet_books_def)
  from NewAckBuffer_ok [OF r] obtain res where n: "NewAckBuffer opts p = Some (res, p')"
    "case r of Inl e \<Rightarrow> res = Inl e | Inr g \<Rightarrow> \<exists>b. res = Inr b \<and> lone p' b \<and> soft_ok b \<and> claim_of 0 (b, Map.empty) = new_claim g" by blast
  then show ?thesis using j [OF o(1)] room o(2,3) by (cases r) (auto simp: fleet_books_def)
qed

lemma fleet_new_ok:
  assumes "fleet_inv (cs, p)" and "join_room (length cs) p"
  shows "\<exists>s. fleet_step (FNew opts) (cs, p) = Some s \<and> fleet_inv s"
  using fleet_new_books [OF _ assms(2)] assms(1) unfolding fleet_inv_def by blast

lemma fleet_step_ok:
  assumes "fleet_inv s" and "fleet_pre opr s"
  shows "\<exists>s'. fleet_step opr s = Some s' \<and> fleet_inv s'"
proof -
  obtain cs p where s: "s = (cs, p)" by fastforce
  show ?thesis
  proof (cases opr)
    case (FNew opts)
    then show ?thesis using fleet_new_ok [of cs p] assms by (simp add: s)
  next
    case (FOp i a)
    obtain b W where bw: "cs ! i = (b, W)" by fastforce
    then have "i < length cs" "ack_pre a (b, p, W)" using assms(2) by (simp_all add: FOp s)
    from fleet_op_ok [OF assms(1) [unfolded s] this(1) bw this(2)] show ?thesis using bw by (auto simp: FOp s)
  qed
qed

end

section \<open>The nil budget\<close>

definition nil_ok :: "claim list \<Rightarrow> budgetp \<Rightarrow> bool" where
  "nil_ok cl p \<longleftrightarrow> p = None \<and> (\<forall>c \<in> set cl. holds nil_own c None)"

interpretation nil_fleet: budget_fleet nil_ok "\<lambda>cl i. nil_own"
proof unfold_locales
  show "nil_ok (cl[i := c]) p'" if "nil_ok cl p" "holds nil_own c p'" for cl i c p p'
    using that set_update_subset_insert [of cl i c] by (auto simp: nil_ok_def holds_def nil_own_def)
  show "case r of Inl _ \<Rightarrow> nil_ok cl p' | Inr g \<Rightarrow> nil_ok (cl @ [new_claim g]) p'"
    if "nil_ok cl p" "register key p = (r, p')" for cl p key r p'
    using that by (auto simp: nil_ok_def register_def holds_def nil_own_def new_claim_def)
qed (auto simp: nil_ok_def)

section \<open>The legacy budget\<close>

definition other_waiters :: "claim list \<Rightarrow> nat \<Rightarrow> nat set" where
  "other_waiters cl i = (\<Union>j \<in> {..<length cl} - {i}. dom (c_handed (cl ! j)))"

definition legacy_ok :: "claim list \<Rightarrow> budgetp \<Rightarrow> bool" where
  "legacy_ok cl p \<longleftrightarrow> holds (legacy_own {}) (new_claim None) p \<and> (\<forall>c \<in> set cl. holds (legacy_own {}) c p)"

lemma holds_legacy: "holds (legacy_own U) c p \<longleftrightarrow> c_group c = None \<and> c_esc c = 0 \<and>
     (\<exists>bb. p = Some bb \<and> legacy_inv bb \<and> dom (c_handed c) \<subseteq> {..<next_wtr bb} \<and> U \<subseteq> {..<next_wtr bb})"
  by (auto simp: holds_def legacy_own_def split: option.splits)

lemma other_waiters_mem: "j < length cl \<Longrightarrow> j \<noteq> i \<Longrightarrow> dom (c_handed (cl ! j)) \<subseteq> other_waiters cl i"
  by (auto simp: other_waiters_def)

lemma in_update: "d \<in> set (cl[i := c]) \<Longrightarrow> d = c \<or> (\<exists>j < length cl. j \<noteq> i \<and> d = cl ! j)"
  by (metis in_set_conv_nth length_list_update nth_list_update_eq nth_list_update_neq)

interpretation legacy_fleet: budget_fleet legacy_ok "\<lambda>cl i. legacy_own (other_waiters cl i)"
proof unfold_locales
  show "holds (legacy_own (other_waiters cl i)) (cl ! i) p" if "legacy_ok cl p" "i < length cl" for cl p i
    using that nth_mem by (fastforce simp: legacy_ok_def holds_legacy other_waiters_def)
  show "legacy_ok (cl[i := c]) p'" if "legacy_ok cl p" "i < length cl" "holds (legacy_own (other_waiters cl i)) c p'" for cl i c p p'
  proof -
    have "holds (legacy_own {}) (cl ! j) p'" if "j < length cl" "j \<noteq> i" for j
      using that \<open>legacy_ok cl p\<close> \<open>holds _ c p'\<close> other_waiters_mem [OF that] nth_mem [OF that(1)]
      by (auto simp: legacy_ok_def holds_legacy)
    then show ?thesis using that by (auto simp: legacy_ok_def holds_legacy new_claim_def dest!: in_update)
  qed
  show "case r of Inl _ \<Rightarrow> legacy_ok cl p' | Inr g \<Rightarrow> legacy_ok (cl @ [new_claim g]) p'"
    if "legacy_ok cl p" "register key p = (r, p')" for cl p key r p'
    using that by (auto simp: legacy_ok_def register_def holds_legacy new_claim_def legacy_inv_def)
qed

section \<open>The fair budget\<close>

text \<open>The ledger of the budget is the sum of the claims.\<close>

definition ledger_of :: "claim list \<Rightarrow> ledger" where
  "ledger_of cl =
     \<lparr>held = (\<lambda>g. \<Sum>c\<leftarrow>cl. if c_group c = Some g then c_held c else 0),
      hesc = (\<lambda>g. \<Sum>c\<leftarrow>cl. if c_group c = Some g then c_esc c else 0),
      outst = (\<Union>c \<in> set cl. dom (c_handed c)),
      regs = (\<lambda>g. \<Sum>c\<leftarrow>cl. if c_group c = Some g then of_bool (c_reg c) else 0)\<rparr>"

abbreviation void :: claim where "void \<equiv> new_claim None"

lemma ledger_append: "ledger_of (xs @ ys) =
   \<lparr>held = (\<lambda>g. held (ledger_of xs) g + held (ledger_of ys) g), hesc = (\<lambda>g. hesc (ledger_of xs) g + hesc (ledger_of ys) g),
    outst = outst (ledger_of xs) \<union> outst (ledger_of ys), regs = (\<lambda>g. regs (ledger_of xs) g + regs (ledger_of ys) g)\<rparr>"
  by (simp add: ledger_of_def)

lemma ledger_split:
  assumes "i < length cl" and "c_group c = Some g"
  shows "ledger_of (cl[i := c]) = with_client (ledger_of (cl[i := void])) g (c_reg c) (c_held c) (c_esc c) (dom (c_handed c))"
proof -
  have one: "ledger_of (c # cs) = with_client (ledger_of (void # cs)) g (c_reg c) (c_held c) (c_esc c) (dom (c_handed c))" for cs
    using assms(2) by (intro ledger.equality) (auto simp: ledger_of_def with_client_def new_claim_def)
  show ?thesis
    unfolding upd_conv_take_nth_drop [OF assms(1)] ledger_append one
    by (intro ledger.equality) (auto simp: with_client_def)
qed

definition other_demands :: "claim list \<Rightarrow> nat \<Rightarrow> (nat \<times> nat \<times> u64) set" where
  "other_demands cl i = {(x, g, n). \<exists>j < length cl. j \<noteq> i \<and> c_group (cl ! j) = Some g \<and> c_handed (cl ! j) x = Some n}"

definition group_bound :: "claim list \<Rightarrow> nat" where
  "group_bound cl = Max (insert 0 {Suc g | g. Some g \<in> c_group ` set cl})"

definition fair_at :: "claim list \<Rightarrow> nat \<Rightarrow> nat option \<Rightarrow> bool \<Rightarrow> nat \<Rightarrow> nat \<Rightarrow> handed \<Rightarrow> budgetp \<Rightarrow> bool" where
  "fair_at cl i = fair_own (ledger_of (cl[i := void])) (other_demands cl i) (group_bound cl) (the (c_group (cl ! i)))"

definition fair_client :: "ByteBudget \<Rightarrow> claim \<Rightarrow> bool" where
  "fair_client bb c \<longleftrightarrow> (\<exists>g. c_group c = Some g \<and> 0 < g \<and> g < next_grp bb \<and>
     (\<forall>x n. c_handed c x = Some n \<longrightarrow> w_group (wtr bb x) = g \<and> w_n (wtr bb x) = n))"

definition separate :: "claim list \<Rightarrow> bool" where
  "separate cl \<longleftrightarrow> (\<forall>i < length cl. \<forall>j < length cl. i \<noteq> j \<longrightarrow> dom (c_handed (cl ! i)) \<inter> dom (c_handed (cl ! j)) = {})"

definition fair_ok :: "claim list \<Rightarrow> budgetp \<Rightarrow> bool" where
  "fair_ok cl p \<longleftrightarrow> (\<exists>bb. p = Some bb \<and> settled bb (ledger_of cl) \<and> (\<forall>c \<in> set cl. fair_client bb c) \<and> separate cl)"

lemma group_bound_le: "group_bound cl \<le> n \<longleftrightarrow> (\<forall>c \<in> set cl. \<forall>g. c_group c = Some g \<longrightarrow> g < n)"
proof -
  have eq: "{Suc g | g. Some g \<in> c_group ` set cl} = (\<lambda>c. Suc (the (c_group c))) ` {c \<in> set cl. c_group c \<noteq> None}" (is "_ = ?A")
  proof (intro set_eqI iffI)
    show "n \<in> ?A" if "n \<in> {Suc g | g. Some g \<in> c_group ` set cl}" for n using that by (auto intro!: rev_image_eqI dest!: sym [of "Some _"])
  qed (auto intro!: rev_image_eqI)
  show ?thesis unfolding group_bound_def eq by (auto simp: Suc_le_eq)
qed

lemma outst_void: "i < length cl \<Longrightarrow> outst (ledger_of (cl[i := void])) = other_waiters cl i"
proof (intro set_eqI iffI)
  show "x \<in> other_waiters cl i" if "i < length cl" "x \<in> outst (ledger_of (cl[i := void]))" for x
    using that by (fastforce simp: ledger_of_def other_waiters_def new_claim_def dest!: in_update)
  show "x \<in> outst (ledger_of (cl[i := void]))" if "i < length cl" "x \<in> other_waiters cl i" for x
  proof -
    note a = that
    obtain j where j: "j < length cl" "j \<noteq> i" "x \<in> dom (c_handed (cl ! j))" using a by (auto simp: other_waiters_def)
    then have "cl ! j \<in> set (cl[i := void])" by (metis length_list_update nth_list_update_neq nth_mem)
    then show ?thesis using j(3) by (auto simp: ledger_of_def)
  qed
qed

lemma holds_fair:
  assumes "i < length cl"
  shows "holds (fair_at cl i) c (Some bb) \<longleftrightarrow>
     (\<exists>g. g = the (c_group (cl ! i)) \<and> c_group c = Some g) \<and> fair_client bb c \<and> dom (c_handed c) \<inter> other_waiters cl i = {} \<and>
     fst ` other_demands cl i \<subseteq> other_waiters cl i \<and> settled bb (ledger_of (cl[i := c])) \<and> waits_for (other_demands cl i) (group_bound cl) bb"
  using outst_void [OF assms] ledger_split [OF assms]
  by (auto simp: holds_def fair_at_def fair_own_Some fair_client_def)

lemma demands_waiters: "fst ` other_demands cl i \<subseteq> other_waiters cl i"
  by (fastforce simp: other_demands_def other_waiters_def)

lemma demands_wait:
  assumes "\<forall>c \<in> set cl. fair_client bb c"
  shows "waits_for (other_demands cl i) (group_bound cl) bb"
  using assms nth_mem by (fastforce simp: waits_for_def group_bound_le other_demands_def fair_client_def)

lemma fair_put:
  assumes ok: "fair_ok cl p" and i: "i < length cl" and h: "holds (fair_at cl i) c p'"
  shows "fair_ok (cl[i := c]) p'"
proof -
  obtain bb where bb: "\<forall>c \<in> set cl. fair_client bb c" "separate cl" using ok by (auto simp: fair_ok_def)
  obtain bb' where p': "p' = Some bb'" using h by (cases p') (auto simp: holds_def fair_at_def fair_own_def)
  note f = h [unfolded p' holds_fair [OF i]]
  have "fair_client bb' (cl ! j)" if "j < length cl" "j \<noteq> i" for j
  proof -
    have "cl ! j \<in> set cl" using that by simp
    then obtain g where g: "c_group (cl ! j) = Some g" "0 < g"
      using bb(1) by (auto simp: fair_client_def)
    then have "g < next_grp bb'" using f nth_mem [OF that(1)] by (auto simp: waits_for_def group_bound_le)
    moreover have "(x, g, n) \<in> other_demands cl i" if "c_handed (cl ! j) x = Some n" for x n
      using g(1) that \<open>j < length cl\<close> \<open>j \<noteq> i\<close> by (auto simp: other_demands_def)
    then have "w_group (wtr bb' x) = g \<and> w_n (wtr bb' x) = n" if "c_handed (cl ! j) x = Some n" for x n
      using f that by (fastforce simp: waits_for_def)
    ultimately show ?thesis using g unfolding fair_client_def by blast
  qed
  then have "\<forall>d \<in> set (cl[i := c]). fair_client bb' d" using f by (auto dest!: in_update)
  moreover have "separate (cl[i := c])"
    using bb(2) f i by (fastforce simp: separate_def nth_list_update other_waiters_def)
  ultimately show ?thesis using f p' by (auto simp: fair_ok_def)
qed

lemma regs_le: "regs (ledger_of cl) g \<le> length cl"
  by (induction cl) (auto simp: ledger_of_def)

lemma fair_join:
  assumes ok: "fair_ok cl p" and room: "join_room (length cl) p" and r: "register key p = (r, p')"
  shows "case r of Inl _ \<Rightarrow> fair_ok cl p' | Inr g \<Rightarrow> fair_ok (cl @ [new_claim g]) p'"
proof (cases r)
  case (Inl e)
  then show ?thesis using r ok by (auto simp: register_def Let_def split: option.splits if_splits)
next
  case (Inr g)
  obtain bb where bb: "p = Some bb" "settled bb (ledger_of cl)" "\<forall>c \<in> set cl. fair_client bb c" "separate cl"
    using ok by (auto simp: fair_ok_def)
  have sm: "next_grp bb < 2 ^ 62 - 1" "regs (ledger_of cl) x < 2 ^ 62 - 1" for x
    using room regs_le [of cl x] bb(1) by (auto simp: join_room_def)
  have nm: "names_ok bb" "0 < next_grp bb" using bb(2) binvD(2,6) by (auto simp: settled_def fair_inv_def)
  note fair = settled_fair [OF bb(2)]
  let ?L = "\<lambda>x. (ledger_of cl)\<lparr>regs := (regs (ledger_of cl))(x := Suc (regs (ledger_of cl) x))\<rparr>"
  have key: "key \<noteq> []" using r Inr fair by (auto simp: bb(1) register_def)
  obtain x b where x: "g = Some x" "p' = Some b" "0 < x" "x < next_grp b" "next_grp bb \<le> next_grp b" "wtr b = wtr bb" "settled b (?L x)"
  proof (cases "bb_groups bb key")
    case None
    show thesis
      by (rule that [OF _ _ _ _ _ _ register_new [OF bb(2) None sm(1)]])
        (use None r Inr fair key nm in \<open>auto simp: bb(1) register_def Let_def\<close>)
  next
    case (Some y)
    have y: "0 < y" "y < next_grp bb" using nm(1) Some by (auto simp: names_ok_def)
    show thesis
      by (rule that [OF _ _ _ _ _ _ register_known [OF bb(2) Some sm(2)]])
        (use y Some r Inr fair key in \<open>auto simp: bb(1) register_def Let_def set_grp_def\<close>)
  qed
  have "ledger_of (cl @ [new_claim g]) = (ledger_of cl)\<lparr>regs := (regs (ledger_of cl))(x := Suc (regs (ledger_of cl) x))\<rparr>"
    by (intro ledger.equality) (auto simp: ledger_append ledger_of_def new_claim_def x(1))
  moreover have "\<forall>c \<in> set (cl @ [new_claim g]). fair_client b c"
    using bb(3) x by (fastforce simp: fair_client_def new_claim_def)
  moreover have "separate (cl @ [new_claim g])"
    using bb(4) by (auto simp: separate_def nth_append new_claim_def less_Suc_eq)
  ultimately show ?thesis using Inr x by (simp add: fair_ok_def)
qed

interpretation fair_fleet: budget_fleet fair_ok fair_at
proof (rule budget_fleet.intro)
  show "shared_budget (fair_at cl i)" for cl i
    unfolding fair_at_def by (rule fair_shared.shared_budget_axioms)
  show "holds (fair_at cl i) (cl ! i) p" if "fair_ok cl p" "i < length cl" for cl p i
  proof -
    note a = that
    obtain bb where bb: "p = Some bb" "settled bb (ledger_of cl)" "\<forall>c \<in> set cl. fair_client bb c" "separate cl"
      using a by (auto simp: fair_ok_def)
    have "fair_client bb (cl ! i)" using bb(3) that(2) by simp
    moreover from this have "\<exists>g. c_group (cl ! i) = Some g" by (auto simp: fair_client_def)
    moreover have "dom (c_handed (cl ! i)) \<inter> other_waiters cl i = {}"
      using bb(4) that(2) by (fastforce simp: separate_def other_waiters_def)
    ultimately show ?thesis
      using bb that(2) by (auto simp: holds_fair demands_waiters demands_wait)
  qed
qed (fact fair_put, fact fair_join)

section \<open>Every reachable state\<close>

definition fleet_ok :: "fleet \<Rightarrow> bool" where
  "fleet_ok s \<longleftrightarrow> nil_fleet.fleet_inv s \<or> legacy_fleet.fleet_inv s \<or> fair_fleet.fleet_inv s"

interpretation fleets: contract_system fleet_step fleet_pre fleet_ok
  by unfold_locales
    (unfold fleet_ok_def, use nil_fleet.fleet_step_ok legacy_fleet.fleet_step_ok fair_fleet.fleet_step_ok in blast)

definition fresh_budget :: "budgetp \<Rightarrow> bool" where
  "fresh_budget p \<longleftrightarrow> p = None \<or> (\<exists>tot. p = Some (NewByteBudget tot)) \<or> (\<exists>tot opts bb. NewFairByteBudget tot opts = Inr bb \<and> p = Some bb)"

lemma fresh_fair: "NewFairByteBudget tot opts = Inr bb \<Longrightarrow> fair_fleet.fleet_inv ([], Some bb)"
  using NewFairByteBudget_settled by (auto simp: fair_fleet.fleet_inv_def fair_fleet.fleet_books_def fair_ok_def separate_def ledger_of_def ledger0_def)

lemma fresh_ok: "fresh_budget p \<Longrightarrow> fleet_ok ([], p)"
  using fresh_fair NewByteBudget_legacy
  by (auto simp: fresh_budget_def fleet_ok_def nil_fleet.fleet_inv_def nil_fleet.fleet_books_def nil_ok_def
      legacy_fleet.fleet_inv_def legacy_fleet.fleet_books_def legacy_ok_def
      holds_legacy new_claim_def)

definition fleet_reaches :: "budgetp \<Rightarrow> fleet_op list \<Rightarrow> fleet \<Rightarrow> bool" where
  "fleet_reaches p0 ops s \<longleftrightarrow> fresh_budget p0 \<and> admissible fleet_step fleet_pre ops ([], p0) \<and> run fleet_step ops ([], p0) = Some s"

lemma reaches_ok: "fleet_reaches p0 ops s \<Longrightarrow> fleet_ok s"
  unfolding fleet_reaches_def using fleets.run_invar [OF fresh_ok] by blast

lemma fleet_ok_lone: "fleet_ok (cs, p) \<Longrightarrow> \<forall>c \<in> set cs. lone p (fst c)"
  unfolding fleet_ok_def nil_fleet.fleet_inv_def legacy_fleet.fleet_inv_def fair_fleet.fleet_inv_def
    nil_fleet.fleet_books_def legacy_fleet.fleet_books_def fair_fleet.fleet_books_def by auto

lemma fleet_ok_sound: "fleet_ok (cs, p) \<Longrightarrow> (b, W) \<in> set cs \<Longrightarrow> sound b"
  using fleet_ok_lone [of cs p] by (auto simp: lone_def)

lemma fleet_ok_exec:
  assumes "fleet_ok (cs, p)" and "i < length cs" "cs ! i = (b, W)" and "ack_pre opr (b, p, W)"
  shows "\<exists>out b' p' W'. ack_exec opr (b, p, W) = Some (out, b', p', W') \<and> fleet_ok (cs[i := (b', W')], p') \<and> op_spec opr out b b'"
  using assms nil_fleet.fleet_op_ok [OF _ assms(2-4)] legacy_fleet.fleet_op_ok [OF _ assms(2-4)] fair_fleet.fleet_op_ok [OF _ assms(2-4)]
  unfolding fleet_ok_def by blast

end
