(* ===== verification/FleetDemo.thy ===== *)
theory FleetDemo
  imports Fleet
begin

text \<open>
  Concrete runs of a fleet, evaluated by the simplifier: two tenants that share a fair budget,
  and a buffer without a budget. The witnesses of the properties apply to them.
\<close>

section \<open>Two tenants of a fair budget\<close>

definition msg0 :: DataMessage where "msg0 = zeroDataMessage\<lparr>TextPayload := ''x''\<rparr>"

definition opts_for :: "string \<Rightarrow> u64 \<Rightarrow> AckBufferOptions" where
  "opts_for g mb = \<lparr>OnBackPressure = False, OnAck = True, MaxBytes = mb, BudgetGroup = g\<rparr>"

text \<open>The budget has 64 bytes; the second tenant has to wait.\<close>

definition shared_ops :: "fleet_op list" where
  "shared_ops =
     [FNew (opts_for ''a'' 0), FNew (opts_for ''b'' 0), FOp 0 (ACapacity 4), FOp 1 (ACapacity 4),
      FOp 0 (AAdd (Some msg0) 40 None (Some 0) 0), FOp 0 (AAdd (Some msg0) 20 None None 0), FOp 1 (AAdd (Some (msg0\<lparr>AckRequested := True\<rparr>)) 4 None None 0),
      FOp 1 (AAdd (Some msg0) 10 None None 0), FOp 0 (ADeliver True)]"

lemma shared_admissible: "admissible fleet_step fleet_pre shared_ops ([], Some demo_budget)"
  by code_simp

lemma shared_values:
  "map_option (\<lambda>(cs, p). (map (\<lambda>(b, W). (bytes b, nextIndexFree b, nextIndexToDeliver b)) cs, Used p, snd (cs ! 1) 0))
     (run fleet_step shared_ops ([], Some demo_budget)) = Some ([(60, 2, 1), (4, 1, 0)], 64, Some 10)"
  by code_simp

lemma demo_fresh: "fresh_budget (Some demo_budget)"
  using demo_new by (auto simp: fresh_budget_def)

lemma shared_reaches:
  obtains cs p where "fleet_reaches (Some demo_budget) shared_ops (cs, p)" "run fleet_step shared_ops ([], Some demo_budget) = Some (cs, p)"
  using fleets.run_ok [OF fresh_ok [OF demo_fresh] shared_admissible] demo_fresh shared_admissible by (auto simp: fleet_reaches_def)

text \<open>
  The first frame of the first tenant may be sent once, and was. A reset retires it, and the bytes
  it releases go to the second tenant's blocked admission.
\<close>

definition retire_ops :: "fleet_op list" where
  "retire_ops =
     [FNew (opts_for ''a'' 0), FNew (opts_for ''b'' 0), FOp 0 (ACapacity 4), FOp 1 (ACapacity 4),
      FOp 0 (AAdd (Some msg0) 30 None (Some 0) 1), FOp 0 (AAdd (Some msg0) 20 None None 0), FOp 0 (ADeliver True)]"

definition served_ops :: "fleet_op list" where
  "served_ops = retire_ops @
     [FOp 1 (AAdd (Some (msg0\<lparr>AckRequested := True\<rparr>)) 4 None None 0), FOp 1 (AAdd (Some msg0) 20 None None 0), FOp 0 AReset]"

lemma served_admissible: "admissible fleet_step fleet_pre served_ops ([], Some demo_budget)"
  by code_simp

lemma served_values:
  "map_option (\<lambda>(cs, p). (map (\<lambda>(b, W). (bytes b, nextIndexFree b)) cs, Used p, snd (cs ! 1) 0))
     (run fleet_step served_ops ([], Some demo_budget)) = Some ([(20, 1), (4, 1)], 44, Some 20)"
  by code_simp

lemma demo_run:
  assumes "admissible fleet_step fleet_pre ops ([], Some demo_budget)"
  obtains cs p where "fleet_reaches (Some demo_budget) ops (cs, p)" "run fleet_step ops ([], Some demo_budget) = Some (cs, p)"
  using fleets.run_ok [OF fresh_ok [OF demo_fresh] assms] demo_fresh assms by (auto simp: fleet_reaches_def)

section \<open>A buffer on its own\<close>

text \<open>No budget; the first frame may be sent once.\<close>

definition solo_ops :: "fleet_op list" where
  "solo_ops = [FNew (opts_for [] 0), FOp 0 (ACapacity 4), FOp 0 (AAdd (Some msg0) 0 None (Some 0) 1), FOp 0 (AAdd (Some msg0) 0 None (Some 1) 0)]"

lemma solo_admissible: "admissible fleet_step fleet_pre solo_ops ([], None)"
  by code_simp

lemma solo_values:
  "map_option (\<lambda>(cs, p). map (\<lambda>(b, W). (bytes b, nextIndexFree b, nextIndexToDeliver b)) cs) (run fleet_step solo_ops ([], None)) =
     Some [(0, 2, 0)]"
  by code_simp

lemma solo_reaches:
  obtains cs p where "fleet_reaches None solo_ops (cs, p)" "run fleet_step solo_ops ([], None) = Some (cs, p)"
proof -
  have "fresh_budget None" by (simp add: fresh_budget_def)
  then show thesis using that fleets.run_ok [OF fresh_ok solo_admissible] solo_admissible by (auto simp: fleet_reaches_def)
qed

end
