(* ===== verification/FleetProps.thy ===== *)
theory FleetProps
  imports FleetDemo
begin

text \<open>
  What holds of every reachable fleet: no operation panics, the representation of each buffer
  is well formed, the shared budget accounts for exactly the buffered bytes, a blocked
  admission has an acknowledgement to wait for, and the byte limit is exceeded by at most one
  message.
\<close>

section \<open>No operation panics\<close>

text \<open>
  C1: any number of buffers over a nil, legacy or fair budget, in any interleaving of their
  operations in which each caller follows its contract: every operation returns and every
  buffer keeps its invariant.
\<close>

theorem fleet_no_panic:
  assumes "fresh_budget p0" and "admissible fleet_step fleet_pre ops ([], p0)"
  shows "\<exists>cs p. run fleet_step ops ([], p0) = Some (cs, p) \<and> (\<forall>(b, W) \<in> set cs. sound b)"
  using fleets.run_ok [OF fresh_ok [OF assms(1)] assms(2)] fleet_ok_sound by fastforce

theorem fleet_no_panic_witness:
  "\<exists>cs p. run fleet_step shared_ops ([], Some demo_budget) = Some (cs, p) \<and> (\<forall>(b, W) \<in> set cs. sound b)"
  by (rule fleet_no_panic [OF demo_fresh shared_admissible])

text \<open>
  C15: the representation of a reachable buffer is well formed: the slots below \<open>nextIndexFree\<close>
  hold the messages of consecutive sequence numbers from \<open>firstSeqNum\<close>, the others are nil,
  there is one recorded size per slot, and the three events say exactly whether there is
  room and whether there is something to deliver.
\<close>

theorem buffer_well_formed:
  assumes "fleet_reaches p0 ops (cs, p)" and "(b, W) \<in> set cs"
  shows "unat (nextSeqNum b) = unat (firstSeqNum b) + nfree b \<and> nfree b \<le> length (buff b) \<and> ndel b \<le> nfree b \<and>
    (\<forall>i < length (buff b). if i < nfree b then \<exists>m. buff b ! i = Some m \<and> SeqNum m = firstSeqNum b + of_nat i else buff b ! i = None) \<and>
    length (sizes b) = (if accounting b then nfree b else 0) \<and>
    (Event_IsSet (isAvailable b) \<longleftrightarrow> nextIndexFree b < currentCapacity b) \<and>
    (Event_IsSet (isReadyToDeliver b) \<longleftrightarrow> nextIndexToDeliver b < nextIndexFree b) \<and>
    (Event_IsSet (isEmpty b) \<longleftrightarrow> \<not> Event_IsSet (isReadyToDeliver b))"
proof -
  have s: "slots_ok b" "ready_ok b" using fleet_ok_sound [OF reaches_ok [OF assms(1)] assms(2)] by (simp_all add: sound_def)
  show ?thesis
    using slots_okD(1-3) [OF s(1)] s(2)
    by (simp add: win_ok_def ev_ok_def acct_ok_def ready_ok_def Event_IsSet_def word_less_nat_alt split: if_splits)
qed

theorem buffer_well_formed_witness:
  "\<exists>b b' W W' p. run fleet_step shared_ops ([], Some demo_budget) = Some ([(b, W), (b', W')], p) \<and> nextIndexFree b = 2 \<and>
     (\<forall>i < 2. \<exists>m. buff b ! i = Some m \<and> SeqNum m = firstSeqNum b + of_nat i) \<and> length (sizes b) = (if accounting b then 2 else 0)"
proof -
  obtain cs p where r: "fleet_reaches (Some demo_budget) shared_ops (cs, p)" "run fleet_step shared_ops ([], Some demo_budget) = Some (cs, p)"
    by (rule shared_reaches)
  then obtain b W b' W' where cs: "cs = [(b, W), (b', W')]" "nextIndexFree b = 2" using shared_values by auto
  from buffer_well_formed [OF r(1), of b W] show ?thesis using r(2) cs by (auto dest!: order_less_le_trans)
qed

section \<open>The books of the shared budget\<close>

lemma sum_groups:
  assumes "\<forall>c \<in> set cl. \<exists>g. c_group c = Some g \<and> g < (n :: nat)"
  shows "(\<Sum>g < n. \<Sum>c\<leftarrow>cl. if c_group c = Some g then f c else (0 :: nat)) = (\<Sum>c\<leftarrow>cl. f c)"
  using assms
proof (induction cl)
  case (Cons c cl)
  then obtain g where g: "c_group c = Some g" "g < n" by auto
  then have "(\<Sum>x < n. if c_group c = Some x then f c else 0) = f c" by (simp add: sum.delta)
  then show ?case using Cons by (simp add: sum.distrib)
qed simp

interpretation fair_system: contract_system fleet_step fleet_pre fair_fleet.fleet_inv
  by unfold_locales (rule fair_fleet.fleet_step_ok)

lemma fair_reaches:
  assumes new: "NewFairByteBudget tot opts = Inr bb0" and r: "fleet_reaches (Some bb0) ops (cs, p)"
  obtains bb ls where "p = Some bb" "settled bb (ledger_of (claims ls cs))" "\<forall>c \<in> set (claims ls cs). fair_client bb c" "length ls = length cs"
proof -
  have "fair_fleet.fleet_inv (cs, p)"
    using fair_system.run_invar [OF fresh_fair [OF new]] r unfolding fleet_reaches_def by blast
  then show thesis using that by (auto simp: fair_fleet.fleet_inv_def fair_fleet.fleet_books_def fair_ok_def)
qed

lemma map_claims:
  assumes "length ls = length cs"
  shows "map c_held (claims ls cs) = map (\<lambda>(b, W). unat (bytes b)) cs"
    "(\<Union>c \<in> set (claims ls cs). dom (c_handed c)) = (\<Union>(b, W) \<in> set cs. dom W)"
  using assms by (induction ls cs rule: list_induct2) (auto simp: claim_of_def)

text \<open>
  C4: buffers and fair budget agree on the bytes: \<open>Used\<close> is the sum of \<open>BufferedBytes\<close> over all
  buffers, plus the credit set aside for the admissions that are blocked.
\<close>

theorem fleet_conservation:
  assumes "NewFairByteBudget tot opts = Inr bb0" and "fleet_reaches (Some bb0) ops (cs, p)"
  shows "\<exists>bb. p = Some bb \<and>
    unat (Used p) = (\<Sum>(b, W)\<leftarrow>cs. unat (BufferedBytes b)) + (\<Sum>w \<in> (\<Union>(b, W) \<in> set cs. dom W). unat (w_credit (wtr bb w)))"
proof -
  obtain bb ls where bb: "p = Some bb" "settled bb (ledger_of (claims ls cs))" "\<forall>c \<in> set (claims ls cs). fair_client bb c" "length ls = length cs"
    by (rule fair_reaches [OF assms])
  let ?L = "ledger_of (claims ls cs)"
  have "binv bb ?L" using bb(2) by (simp add: settled_def fair_inv_def)
  moreover have "(\<Sum>g < next_grp bb. held ?L g) = (\<Sum>c\<leftarrow>claims ls cs. c_held c)"
    unfolding ledger_of_def ledger.simps by (rule sum_groups) (use bb(3) in \<open>auto simp: fair_client_def\<close>)
  moreover have "outst ?L = (\<Union>(b, W) \<in> set cs. dom W)" using map_claims(2) [OF bb(4)] by (simp add: ledger_of_def del: set_map)
  ultimately show ?thesis using used_ledger(1) bb(1) by (simp add: Used_def BufferedBytes_def map_claims(1) [OF bb(4)] del: map_map)
qed

theorem fleet_conservation_witness:
  "\<exists>cs bb. run fleet_step served_ops ([], Some demo_budget) = Some (cs, Some bb) \<and> Used (Some bb) = 44 \<and>
     44 = (\<Sum>(b, W)\<leftarrow>cs. unat (BufferedBytes b)) + (\<Sum>w \<in> (\<Union>(b, W) \<in> set cs. dom W). unat (w_credit (wtr bb w)))"
proof -
  obtain cs p where r: "fleet_reaches (Some demo_budget) served_ops (cs, p)" "run fleet_step served_ops ([], Some demo_budget) = Some (cs, p)"
    by (rule demo_run [OF served_admissible])
  then have "Used p = 44" using served_values by auto
  then show ?thesis using fleet_conservation [OF demo_new r(1)] r(2) by auto
qed

text \<open>
  Runs in which every frame may be sent any number of times. There a buffer never forgets an
  escape: nothing is retired, so a flagged frame stays held until it is acknowledged.
\<close>

fun unlimited :: "fleet_op \<Rightarrow> bool" where
  "unlimited (FOp i (AAdd msg sz w receipt mx)) \<longleftrightarrow> mx = 0"
| "unlimited _ \<longleftrightarrow> True"

definition soft_fleet :: "fleet \<Rightarrow> bool" where
  "soft_fleet s \<longleftrightarrow> fair_fleet.fleet_books (replicate (length (fst s)) 0) s \<and> (\<forall>c \<in> set (fst s). soft_ok (fst c))"

lemma soft_wait: "soft_ok (b\<lparr>wake := w, wakeClosed := wc, next_wake := n\<rparr>) = soft_ok b"
  by (simp add: soft_ok_def)

lemma op_spec_soft:
  assumes "op_spec opr out b b'" and "soft_ok b" and "\<forall>msg sz w receipt mx. opr = AAdd msg sz w receipt mx \<longrightarrow> mx = 0"
  shows "soft_ok b'"
proof (cases opr)
  case (AAdd msg sz w receipt mx)
  then obtain r where "add_spec msg sz receipt 0 r b b'" using assms by auto
  then show ?thesis using assms(2)
    by (cases r) (auto simp: add_spec_def admits_def waits_def soft_wait split: option.splits if_splits)
next
  case (AAck sq)
  then show ?thesis using assms by auto
qed (use assms in \<open>auto simp: idle_def split: if_splits\<close>)

lemma soft_step_ok:
  assumes "soft_fleet s" and "fleet_pre opr s \<and> unlimited opr"
  shows "\<exists>s'. fleet_step opr s = Some s' \<and> soft_fleet s'"
proof -
  obtain cs p where s: "s = (cs, p)" by fastforce
  have ok: "fair_fleet.fleet_books (replicate (length cs) 0) (cs, p)" using assms(1) s by (simp add: soft_fleet_def)
  show ?thesis
  proof (cases opr)
    case (FNew opts)
    then have "join_room (length cs) p" using assms(2) s by simp
    from fair_fleet.fleet_new_books [OF ok this, of opts] show ?thesis
      using assms(1) FNew by (auto simp: s soft_fleet_def replicate_append_same)
  next
    case (FOp i a)
    obtain b W where bw: "cs ! i = (b, W)" by fastforce
    then have i: "i < length cs" "ack_pre a (b, p, W)" "soft_ok b" using assms nth_mem [of i cs] by (auto simp: FOp s soft_fleet_def)
    have same: "(replicate (length cs) 0)[i := 0] = replicate (length cs) (0 :: nat)" using i(1) by (simp add: list_update_same_conv)
    from fair_fleet.fleet_op_books [OF ok i(1) bw i(2)] obtain out b' p' W' where
      x: "ack_exec a (b, p, W) = Some (out, b', p', W')" "op_spec a out b b'"
        "fair_fleet.fleet_books (replicate (length cs) 0) (cs[i := (b', W')], p')"
      using i(1,3) by (auto simp: same)
    have "soft_ok b'" by (rule op_spec_soft [OF x(2) i(3)]) (use assms(2) FOp in auto)
    then have "soft_fleet (cs[i := (b', W')], p')"
      using assms(1) x(3) set_update_subset_insert [of cs i "(b', W')"] by (auto simp: s soft_fleet_def)
    then show ?thesis using bw x(1) by (simp add: FOp s)
  qed
qed

interpretation soft_fleets: contract_system fleet_step "\<lambda>opr s. fleet_pre opr s \<and> unlimited opr" soft_fleet
  by unfold_locales (rule soft_step_ok)

lemma admissible_conj:
  "admissible step pre ops s \<Longrightarrow> list_all q ops \<Longrightarrow> admissible step (\<lambda>opr s. pre opr s \<and> q opr) ops s"
  by (induction ops arbitrary: s) (auto split: option.splits)

lemma fresh_soft: "NewFairByteBudget tot opts = Inr bb \<Longrightarrow> soft_fleet ([], Some bb)"
  using fresh_fair [of tot opts bb] by (simp add: soft_fleet_def fair_fleet.fleet_inv_def fair_fleet.fleet_books_def)

lemma reaches_soft:
  assumes "NewFairByteBudget tot opts = Inr bb0" and "fleet_reaches (Some bb0) ops (cs, p)" and "list_all unlimited ops"
  shows "soft_fleet (cs, p)"
  using soft_fleets.run_invar [OF fresh_soft [OF assms(1)] admissible_conj [OF _ assms(3)]] assms(2) by (simp add: fleet_reaches_def)

lemma closed_claim:
  assumes "lone p b" and "isClosed b"
  shows "c_held (claim_of l (b, Map.empty)) = 0 \<and> \<not> c_reg (claim_of l (b, Map.empty)) \<and> c_esc (claim_of l (b, Map.empty)) = l"
  using assms slots_okD(3) [of b] by (auto simp: lone_def sound_def acct_ok_def claim_of_def)

lemma idle_ledger:
  "\<forall>c \<in> set cl. c_held c = 0 \<and> \<not> c_reg c \<and> c_handed c = Map.empty \<Longrightarrow>
     held (ledger_of cl) g = 0 \<and> regs (ledger_of cl) g = 0 \<and> outst (ledger_of cl) = {}"
  "\<forall>c \<in> set cl. c_esc c = 0 \<Longrightarrow> hesc (ledger_of cl) g = 0"
  by (auto simp: ledger_of_def sum_list_eq_0_iff)

lemma closed_ledger:
  assumes "\<forall>(b, W) \<in> set cs. lone p b \<and> isClosed b \<and> W = Map.empty" and "length ls = length cs"
  shows "held (ledger_of (claims ls cs)) g = 0" "regs (ledger_of (claims ls cs)) g = 0" "outst (ledger_of (claims ls cs)) = {}"
    "(\<forall>l \<in> set ls. l = 0) \<Longrightarrow> hesc (ledger_of (claims ls cs)) g = 0"
proof -
  have "c_held c = 0 \<and> \<not> c_reg c \<and> c_handed c = Map.empty \<and> ((\<forall>l \<in> set ls. l = 0) \<longrightarrow> c_esc c = 0)" if c: "c \<in> set (claims ls cs)" for c
  proof -
    obtain l b W where z: "c = claim_of l (b, W)" "l \<in> set ls" "(b, W) \<in> set cs" using c by (auto dest: in_set_zipE)
    then have "lone p b" "isClosed b" "W = Map.empty" using assms(1) by auto
    then show ?thesis using closed_claim z(1,2) by (auto simp: claim_of_def)
  qed
  then show "held (ledger_of (claims ls cs)) g = 0" "regs (ledger_of (claims ls cs)) g = 0" "outst (ledger_of (claims ls cs)) = {}"
    "(\<forall>l \<in> set ls. l = 0) \<Longrightarrow> hesc (ledger_of (claims ls cs)) g = 0"
    using idle_ledger [of "claims ls cs"] by blast+
qed

text \<open>
  C10: the charges do not leak when clients close. Once every buffer is closed and no admission
  is blocked any more, nothing of the fair budget is in use, no group is active or queued, and its
  map of groups is empty. If no frame had a transmission limit, no escape bytes are left either
  (the run of \<open>second_escape_leaks\<close> shows that the condition is needed).
\<close>

theorem fleet_close_no_leak:
  assumes new: "NewFairByteBudget tot opts = Inr bb0" and r: "fleet_reaches (Some bb0) ops (cs, p)"
    and closed: "\<forall>(b, W) \<in> set cs. isClosed b \<and> W = Map.empty"
  shows "\<exists>bb. p = Some bb \<and> Used p = 0 \<and> bb_active bb = 0 \<and> bb_waiting bb = [] \<and> bb_reserveReady bb = [] \<and> bb_blocked bb = [] \<and>
    bb_groups bb = Map.empty \<and> (list_all unlimited ops \<longrightarrow> bb_escape bb = 0)"
proof -
  obtain bb ls where bb: "p = Some bb" "settled bb (ledger_of (claims ls cs))" "length ls = length cs" by (rule fair_reaches [OF new r])
  have cl: "\<forall>(b, W) \<in> set cs. lone p b \<and> isClosed b \<and> W = Map.empty"
    using fleet_ok_lone [OF reaches_ok [OF r]] closed by fastforce
  note z = closed_ledger [OF cl]
  have "bb_escape bb = 0" if u: "list_all unlimited ops"
  proof -
    let ?o = "replicate (length cs) 0"
    have "settled bb (ledger_of (claims ?o cs))"
      using reaches_soft [OF new r u] bb(1) by (auto simp: soft_fleet_def fair_fleet.fleet_books_def fair_ok_def)
    from settled_no_leak [OF this z(1,3)] show ?thesis using z(4) [of ?o] by (simp add: unat_eq_0)
  qed
  then show ?thesis using settled_no_leak [OF bb(2) z(1,3) [OF bb(3)]] z(2) [OF bb(3)] bb(1) by simp
qed

definition close_ops :: "fleet_op list" where
  "close_ops = shared_ops @ [FOp 1 ATimeout, FOp 1 (ACancel (Some 0)), FOp 0 AClose, FOp 1 AClose]"

lemma close_admissible: "admissible fleet_step fleet_pre close_ops ([], Some demo_budget)"
  by code_simp

lemma close_values:
  "map_option (\<lambda>(cs, p). (map (\<lambda>(b, W). (isClosed b, W 0)) cs, map_option next_wtr p)) (run fleet_step close_ops ([], Some demo_budget)) =
     Some ([(True, None), (True, None)], Some 1)"
  by code_simp

lemma handed_below:
  assumes "NewFairByteBudget tot opts = Inr bb0" and "fleet_reaches (Some bb0) ops (cs, Some bb)" and "(b, W) \<in> set cs" and "W x \<noteq> None"
  shows "x < next_wtr bb"
proof -
  obtain bb' ls where bb: "Some bb = Some bb'" "settled bb' (ledger_of (claims ls cs))" "length ls = length cs"
    by (rule fair_reaches [OF assms(1,2)])
  have "x \<in> outst (ledger_of (claims ls cs))" using assms(3,4) by (auto simp: ledger_of_def map_claims(2) [OF bb(3)] simp del: set_map)
  then show ?thesis using bb binvD(10) by (auto simp: settled_def fair_inv_def wtr_ok_def Let_def)
qed

theorem fleet_close_no_leak_witness:
  "\<exists>cs bb. run fleet_step close_ops ([], Some demo_budget) = Some (cs, Some bb) \<and> Used (Some bb) = 0 \<and> bb_groups bb = Map.empty \<and> bb_escape bb = 0"
proof -
  obtain cs p where run: "run fleet_step close_ops ([], Some demo_budget) = Some (cs, p)"
    using fleets.run_ok [OF fresh_ok [OF demo_fresh] close_admissible] by auto
  then have r: "fleet_reaches (Some demo_budget) close_ops (cs, p)" using demo_fresh close_admissible by (simp add: fleet_reaches_def)
  obtain b W b' W' bb where v: "cs = [(b, W), (b', W')]" "p = Some bb" "isClosed b" "isClosed b'" "W 0 = None" "W' 0 = None" "next_wtr bb = 1"
    using run close_values by auto
  have "x < 1" if "W x \<noteq> None \<or> W' x \<noteq> None" for x
    using handed_below [OF demo_new r [unfolded v(2)], of _ _ x] that v(1,7) by auto
  then have "W = Map.empty" "W' = Map.empty" using v(5,6) by (metis ext less_one)+
  moreover have "list_all unlimited close_ops" by code_simp
  ultimately show ?thesis using fleet_close_no_leak [OF demo_new r] run v by auto
qed

section \<open>Backpressure\<close>

lemma fleet_exec:
  assumes "fleet_reaches p0 ops (cs, p)" and "i < length cs" and "cs ! i = (b, W)" and "ack_pre opr (b, p, W)"
  shows "\<exists>out b' p' W'. ack_exec opr (b, p, W) = Some (out, b', p', W') \<and> sound b' \<and> op_spec opr out b b'"
proof -
  from fleet_ok_exec [OF reaches_ok [OF assms(1)] assms(2-4)] obtain out b' p' W' where
    x: "ack_exec opr (b, p, W) = Some (out, b', p', W')" "fleet_ok (cs[i := (b', W')], p')" "op_spec opr out b b'" by blast
  moreover have "(b', W') \<in> set (cs[i := (b', W')])" using assms(2) by (rule set_update_memI)
  ultimately show ?thesis using fleet_ok_sound by blast
qed

lemma reaches_sound: "fleet_reaches p0 ops (cs, p) \<Longrightarrow> i < length cs \<Longrightarrow> cs ! i = (b, W) \<Longrightarrow> sound b"
  using fleet_ok_sound [OF reaches_ok] nth_mem by metis

text \<open>
  C7: no deadlock by backpressure. An admission blocks only when the window is full, or while
  the buffer holds a message that is not retired and for which it has asked the peer to send
  an acknowledgement.
\<close>

theorem blocked_add_has_ack_pending:
  assumes "fleet_reaches p0 ops (cs, p)" and "i < length cs" and "cs ! i = (b, W)"
    and "ack_pre (AAdd (Some e) sz w receipt mx) (b, p, W)"
    and "add_iteration (Some e) sz w receipt mx (b, p) = Some (AddWaits c w', b', p')"
  shows "currentCapacity b \<le> nextIndexFree b \<or>
    (\<exists>j < nfree b. firstSeqNum b + of_nat j \<notin> retired b \<and> (\<exists>m. buff b ! j = Some m \<and> AckRequested m))"
proof -
  from fleet_exec [OF assms(1-4)] assms(5) have "add_spec (Some e) sz receipt mx (AddWaits c w') b b'" by auto
  then have w: "ev_v (isAvailable b) \<longrightarrow> held_flag b" by (auto simp: add_spec_def waits_def split: if_splits)
  have s: "slots_ok b" using reaches_sound [OF assms(1-3)] by (simp add: sound_def)
  show ?thesis
  proof (cases "ev_v (isAvailable b)")
    case True
    then have "slot_of b (lastFlaggedSeq b) < nfree b \<and> firstSeqNum b + of_nat (slot_of b (lastFlaggedSeq b)) \<notin> retired b \<and>
        (\<exists>m. buff b ! slot_of b (lastFlaggedSeq b) = Some m \<and> AckRequested m)"
      using w slots_okD(5) [OF s] by (simp add: flag_ok_def)
    then show ?thesis by blast
  next
    case False
    then show ?thesis using slots_okD(2) [OF s] by (simp add: ev_ok_def not_less)
  qed
qed

definition wait_ops :: "fleet_op list" where
  "wait_ops = take 7 shared_ops"

lemma wait_admissible: "admissible fleet_step fleet_pre wait_ops ([], Some demo_budget)"
  by code_simp

lemma wait_values:
  "map_option (\<lambda>(cs, p). let (b, W) = cs ! 1 in
       (length cs, ack_pre (AAdd (Some msg0) 10 None None 0) (b, p, W), nextIndexFree b, currentCapacity b,
        map_option fst (add_iteration (Some msg0) 10 None None 0 (b, p))))
     (run fleet_step wait_ops ([], Some demo_budget)) = Some (2, True, 1, 4, Some (AddWaits 0 (Some 0)))"
  by code_simp

theorem blocked_add_has_ack_pending_witness:
  "\<exists>cs p b W. run fleet_step wait_ops ([], Some demo_budget) = Some (cs, p) \<and> cs ! 1 = (b, W) \<and> nextIndexFree b < currentCapacity b \<and>
     (\<exists>j < nfree b. firstSeqNum b + of_nat j \<notin> retired b \<and> (\<exists>m. buff b ! j = Some m \<and> AckRequested m))"
proof -
  obtain cs p where r: "fleet_reaches (Some demo_budget) wait_ops (cs, p)" "run fleet_step wait_ops ([], Some demo_budget) = Some (cs, p)"
    by (rule demo_run [OF wait_admissible])
  obtain b W where b: "cs ! 1 = (b, W)" by fastforce
  have v: "length cs = 2" "ack_pre (AAdd (Some msg0) 10 None None 0) (b, p, W)" "nextIndexFree b = 1" "currentCapacity b = 4"
      "map_option fst (add_iteration (Some msg0) 10 None None 0 (b, p)) = Some (AddWaits 0 (Some 0))"
    using wait_values r(2) b by (simp_all del: ack_pre.simps)
  then obtain b' p' where "add_iteration (Some msg0) 10 None None 0 (b, p) = Some (AddWaits 0 (Some 0), b', p')" by auto
  note h = blocked_add_has_ack_pending [OF r(1) _ b v(2) this]
  have "\<not> (4 :: u64) \<le> 1" by (simp add: word_le_nat_alt)
  then show ?thesis using h r(2) b v(1,3,4) by auto
qed

section \<open>The byte limit\<close>

text \<open>
  C12: \<open>MaxBytes\<close> is a soft limit with a bounded overshoot: a buffer exceeds it by at most the size
  of one message it still holds, the last one for which it has asked for an acknowledgement.
\<close>

theorem buffer_byte_limit:
  assumes "fleet_reaches p0 ops (cs, p)" and "(b, W) \<in> set cs" and "maxBytes b \<noteq> 0"
  shows "BufferedBytes b \<le> maxBytes b \<or>
    (\<exists>i < nfree b. unat (BufferedBytes b) \<le> unat (maxBytes b) + unat (sizes b ! i) \<and> firstSeqNum b + of_nat i = lastFlaggedSeq b \<and>
       lastFlaggedSeq b \<notin> retired b \<and> (\<exists>m. buff b ! i = Some m \<and> AckRequested m))"
proof (cases "bytes b \<le> maxBytes b")
  case False
  have "slots_ok b" using fleet_ok_sound [OF reaches_ok [OF assms(1)] assms(2)] by (simp add: sound_def)
  note f = slots_okD(5) [OF this, unfolded flag_ok_def]
  have "held_flag b" "unat (bytes b) \<le> unat (maxBytes b) + unat (sizes b ! slot_of b (lastFlaggedSeq b))"
    using f False assms(3) by (simp_all add: not_le)
  then show ?thesis using f by (intro disjI2 exI [of _ "slot_of b (lastFlaggedSeq b)"]) (simp add: BufferedBytes_def)
qed (simp add: BufferedBytes_def)

definition limit_ops :: "fleet_op list" where
  "limit_ops = [FNew (opts_for [] 100), FOp 0 (ACapacity 8), FOp 0 (AAdd (Some msg0) 20 None None 0), FOp 0 (AAdd (Some msg0) 90 None None 0)]"

lemma limit_admissible: "admissible fleet_step fleet_pre limit_ops ([], None)"
  by code_simp

lemma limit_values:
  "map_option (\<lambda>(cs, p). map (\<lambda>(b, W). (maxBytes b, bytes b, sizes b)) cs) (run fleet_step limit_ops ([], None)) = Some [(100, 110, [20, 90])]"
  by code_simp

theorem buffer_byte_limit_witness:
  "\<exists>b W p. run fleet_step limit_ops ([], None) = Some ([(b, W)], p) \<and> BufferedBytes b = 110 \<and>
     (\<exists>i < nfree b. 110 \<le> 100 + unat (sizes b ! i) \<and> (\<exists>m. buff b ! i = Some m \<and> AckRequested m))"
proof -
  have f: "fresh_budget None" by (simp add: fresh_budget_def)
  then obtain cs p where run: "run fleet_step limit_ops ([], None) = Some (cs, p)"
    using fleets.run_ok [OF fresh_ok limit_admissible] by auto
  then have r: "fleet_reaches None limit_ops (cs, p)" using f limit_admissible by (simp add: fleet_reaches_def)
  obtain b W where v: "cs = [(b, W)]" "maxBytes b = 100" "bytes b = 110" using run limit_values by auto
  then show ?thesis using buffer_byte_limit [OF r, of b W] run by (auto simp: BufferedBytes_def)
qed

end
