(* ===== verification/WindowProps.thy ===== *)
theory WindowProps
  imports FleetProps
begin

text \<open>
  The buffer against its specification: every operation of a reachable buffer is a step of the
  window specification, \<open>Ack\<close> decides exactly as the window says, the unacknowledged messages
  are those of the window, and a reset makes the sender hand out all of them again, in order.
\<close>

section \<open>The specification as a step relation\<close>

text \<open>The state of the specification: whether admission is sealed, and the window.\<close>

inductive spec_step :: "ack_op \<Rightarrow> ack_out \<Rightarrow> bool \<times> window \<Rightarrow> bool \<times> window \<Rightarrow> bool" where
  Spec_admit: "m = e\<lparr>SeqNum := a_first v + of_nat (length (a_slots v)), AckRequested := f\<rparr> \<Longrightarrow>
     spec_step (AAdd (Some e) sz w receipt mx) (OAdd (AddReturns None)) (False, v) (False, w_add m (new_limit receipt mx) v)"
| Spec_wait: "spec_step (AAdd (Some e) sz w receipt mx) (OAdd (AddWaits c w')) (False, v) (False, v)"
| Spec_sealed: "spec_step (AAdd (Some e) sz w receipt mx) (OAdd (AddReturns (Some ErrorClosed))) (True, v) (True, v)"
| Spec_nil: "spec_step (AAdd None sz w receipt mx) (OAdd (AddReturns (Some ErrorBufferFull))) (sealed, v) (sealed, v)"
| Spec_timeout: "spec_step ATimeout (OAdd (AddReturns (Some (if sealed then ErrorClosed else ErrorBufferFull)))) (sealed, v) (sealed, v)"
| Spec_cancel: "spec_step (ACancel w) ODone (sealed, v) (sealed, v)"
| Spec_ack: "k = unat (sq - a_first v) \<Longrightarrow> k < length (a_slots v) \<Longrightarrow> k < a_sent v \<or> k = 0 \<and> a_sent v = 0 \<Longrightarrow>
     spec_step (AAck sq) (OAck None) (sealed, v) (sealed, w_ack (Suc k) v)"
| Spec_ack_no: "k = unat (sq - a_first v) \<Longrightarrow> \<not> (k < length (a_slots v) \<and> (k < a_sent v \<or> k = 0 \<and> a_sent v = 0)) \<Longrightarrow>
     spec_step (AAck sq) (OAck r) (sealed, v) (sealed, v)"
| Spec_deliver: "w_next sealed v = (r, v') \<Longrightarrow> spec_step (ADeliver True) (OMsg r) (sealed, v) (sealed, v')"
| Spec_idle: "spec_step (ADeliver False) (OMsg None) (sealed, v) (sealed, v)"
| Spec_reset: "spec_step AReset ODone (sealed, v) (sealed, w_reset v)"
| Spec_capacity: "spec_step (ACapacity n) ODone (sealed, v) (sealed, v)"
| Spec_seal: "spec_step ASeal ODone (sealed, v) (True, v)"
| Spec_drain: "(r = Drained \<longleftrightarrow> a_slots v = []) \<Longrightarrow> spec_step (ADrain e) (ODrain r) (sealed, v) (sealed, v)"
| Spec_close: "spec_step AClose ODone (sealed, v) (True, v)"

inductive_cases spec_ackE: "spec_step (AAck sq) out s t"
inductive_cases spec_deliverE: "spec_step (ADeliver True) out s t"

definition spec_of :: "AckBuffer \<Rightarrow> bool \<times> window" where
  "spec_of b = (\<not> isRunning b, window_of b)"

lemma wait_window: "window_of (b\<lparr>wake := w, wakeClosed := wc, next_wake := n\<rparr>) = window_of b"
  by (rule window_cong) simp_all

lemma idle_spec: "idle b b' \<Longrightarrow> window_of b' = window_of b"
  by (simp add: idle_def)

lemma static_running: "static b' = static b \<Longrightarrow> isRunning b' = isRunning b"
  by (simp add: static_def)

lemma add_spec_step:
  assumes a: "add_spec msg sz receipt mx r b b'"
  shows "spec_step (AAdd msg sz w receipt mx) (OAdd r) (spec_of b) (spec_of b')"
proof (cases msg)
  case None
  then show ?thesis using a by (simp add: add_spec_def spec_of_def Spec_nil)
next
  case (Some e)
  show ?thesis
  proof (cases "isRunning b")
    case False
    then show ?thesis using a Some Spec_sealed by (simp add: add_spec_def spec_of_def)
  next
    case run: True
    show ?thesis
    proof (cases r)
      case (AddReturns err)
      then obtain flag esc rd where s: "err = None" "b' = stored e sz flag receipt mx rd (escaped esc sz b)" "can_store sz receipt esc b"
        using a Some run by (auto simp: add_spec_def admits_def)
      have "nextSeqNum b = a_first (window_of b) + of_nat (length (a_slots (window_of b)))" using can_storeD(11) [OF s(3)] by simp
      then have "spec_step (AAdd (Some e) sz w receipt mx) (OAdd (AddReturns None)) (False, window_of b)
          (False, w_add (stored_msg e flag b) (new_limit receipt mx) (window_of b))"
        by (intro Spec_admit) (simp add: stored_msg_def)
      then show ?thesis using run Some AddReturns s store_window [OF s(3)] by (simp add: spec_of_def stored_sel)
    next
      case (AddWaits c w')
      then show ?thesis
        using a Some run Spec_wait by (auto simp: add_spec_def waits_def spec_of_def wait_window)
    qed
  qed
qed

lemma op_spec_step:
  assumes "op_spec opr out b b'"
  shows "spec_step opr out (spec_of b) (spec_of b')"
proof (cases opr)
  case (AAdd msg sz w receipt mx)
  then show ?thesis using assms add_spec_step by auto
next
  case ATimeout
  then show ?thesis using assms Spec_timeout [of "\<not> isRunning b"] by (simp add: spec_of_def timeoutErr_def)
next
  case (AAck sq)
  then obtain r where r: "out = OAck r" using assms by auto
  show ?thesis
  proof (cases "acceptable sq b")
    case True
    then show ?thesis using assms AAck r Spec_ack [OF refl, of sq "window_of b"] by (auto simp: spec_of_def acceptable_def)
  next
    case False
    then have "spec_of b' = spec_of b" using assms AAck by (auto simp: spec_of_def ack_counted_def)
    then show ?thesis using False AAck r Spec_ack_no [OF refl, of sq "window_of b"] by (auto simp: spec_of_def acceptable_def)
  qed
next
  case (ADeliver signalled)
  then show ?thesis using assms static_running [of b' b] Spec_deliver Spec_idle by (cases signalled) (auto simp: spec_of_def)
next
  case AReset
  then show ?thesis using assms static_running [of b' b] Spec_reset by (auto simp: spec_of_def)
next
  case (ADrain e)
  then obtain r where "out = ODrain r" "spec_of b' = spec_of b" "r = Drained \<longleftrightarrow> slots b = []"
    using assms by (auto simp: spec_of_def drain_spec_def idle_def vital_def slots_def split: if_splits)
  then show ?thesis using ADrain Spec_drain [of r "window_of b"] by (simp add: spec_of_def)
qed (use assms Spec_cancel Spec_capacity Spec_seal Spec_close in \<open>auto simp: spec_of_def idle_def\<close>)

text \<open>
  C2: refinement. Every operation on a buffer of a reachable fleet, called as its contract
  says, returns, and what it returns and does to the buffer is a step of the window
  specification: backing array, linked receipts, cursor, retired map, byte accounting and
  events are invisible.
\<close>

theorem buffer_refines_window:
  assumes "fleet_reaches p0 ops (cs, p)" and "i < length cs" and "cs ! i = (b, W)" and "ack_pre opr (b, p, W)"
  shows "\<exists>out b' p' W'. ack_exec opr (b, p, W) = Some (out, b', p', W') \<and> spec_step opr out (spec_of b) (spec_of b')"
  using fleet_exec [OF assms] op_spec_step by blast

lemma shared_state:
  obtains cs p b W where "fleet_reaches (Some demo_budget) shared_ops (cs, p)" "run fleet_step shared_ops ([], Some demo_budget) = Some (cs, p)"
    "0 < length cs" "cs ! 0 = (b, W)" "nextIndexFree b = 2" "nextIndexToDeliver b = 1"
proof -
  obtain cs p where r: "fleet_reaches (Some demo_budget) shared_ops (cs, p)" "run fleet_step shared_ops ([], Some demo_budget) = Some (cs, p)"
    by (rule shared_reaches)
  then show thesis using that shared_values by auto
qed

theorem buffer_refines_window_witness:
  "\<exists>cs p b W out b' p' W'. run fleet_step shared_ops ([], Some demo_budget) = Some (cs, p) \<and> cs ! 0 = (b, W) \<and>
     ack_exec (AAck 1) (b, p, W) = Some (out, b', p', W') \<and> spec_step (AAck 1) out (spec_of b) (spec_of b')"
proof -
  obtain cs p b W where s: "fleet_reaches (Some demo_budget) shared_ops (cs, p)" "run fleet_step shared_ops ([], Some demo_budget) = Some (cs, p)"
    "0 < length cs" "cs ! 0 = (b, W)" by (rule shared_state)
  have "ack_pre (AAck 1) (b, p, W)" by simp
  from buffer_refines_window [OF s(1,3,4) this] show ?thesis using s(2,4) by blast
qed

section \<open>Acknowledgements\<close>

text \<open>
  C6: \<open>Ack\<close> decides exactly. A sequence number of the window that was delivered (or the very
  first one before any delivery) is accepted and removes the prefix up to it. Any other one
  leaves window, bytes and receipts alone: a number of the window is reported as not
  delivered, one that was retired and released earlier is ignored, and the rest is an error.
\<close>

theorem Ack_exact:
  fixes sq :: u64
  assumes "fleet_reaches p0 ops (cs, p)" and "i < length cs" and "cs ! i = (b, W)"
  defines "k \<equiv> unat (sq - firstSeqNum b)"
  shows "\<exists>r b' p'. Ack sq (b, p) = Some (r, b', p') \<and>
    (if k < nfree b \<and> (k < ndel b \<or> k = 0 \<and> ndel b = 0)
     then r = None \<and> window_of b' = w_ack (Suc k) (window_of b)
     else window_of b' = window_of b \<and> bytes b' = bytes b \<and> cells b' = cells b \<and> p' = p \<and>
       (if k < nfree b then r = Some (ErrAckNotDelivered sq (sq - firstSeqNum b) (firstSeqNum b + nextIndexToDeliver b) (nextIndexToDeliver b))
        else if \<exists>ring. releasedRetired b = Some ring \<and> ring_has sq ring then r = None
        else r \<in> {Some (ErrAckUnexpected sq), Some (ErrAckNotInBuffer sq)}))"
proof (cases "acceptable sq b")
  case True
  have "ack_pre (AAck sq) (b, p, W)" by simp
  from fleet_exec [OF assms(1-3) this] show ?thesis using True by (auto simp: acceptable_def k_def)
next
  case False
  have w: "win_ok b" using reaches_sound [OF assms(1-3)] slots_okD(1) by (simp add: sound_def)
  obtain r where "Ack sq (b, p) = Some (r, (ack_counted b, p))" "r = None \<longleftrightarrow> late_ack sq b"
    "nfree b \<le> slot_of b sq \<Longrightarrow> \<not> late_ack sq b \<Longrightarrow> r \<in> {Some (ErrAckUnexpected sq), Some (ErrAckNotInBuffer sq)}"
    "slot_of b sq < nfree b \<Longrightarrow> r = Some (ErrAckNotDelivered sq (sq - firstSeqNum b) (firstSeqNum b + nextIndexToDeliver b) (nextIndexToDeliver b))"
    by (rule Ack_reject [OF w False, where p = p]) blast
  then show ?thesis using False by (auto simp: acceptable_def k_def late_ack_def ack_counted_def)
qed

lemma shared_acks:
  "map_option (\<lambda>(cs, p). let (b, W) = cs ! 0 in (firstSeqNum b, map_option fst (Ack 1 (b, p)), map_option fst (Ack 2 (b, p)), map_option fst (Ack 9 (b, p))))
     (run fleet_step shared_ops ([], Some demo_budget)) =
   Some (1, Some None, Some (Some (ErrAckNotDelivered 2 1 2 1)), Some (Some (ErrAckUnexpected 9)))"
  by code_simp

theorem Ack_exact_witness:
  "\<exists>cs p b W b' p'. run fleet_step shared_ops ([], Some demo_budget) = Some (cs, p) \<and> cs ! 0 = (b, W) \<and>
     Ack 1 (b, p) = Some (None, b', p') \<and> window_of b' = w_ack 1 (window_of b) \<and> map_option fst (Ack 2 (b, p)) = Some (Some (ErrAckNotDelivered 2 1 2 1))"
proof -
  obtain cs p b W where s: "fleet_reaches (Some demo_budget) shared_ops (cs, p)" "run fleet_step shared_ops ([], Some demo_budget) = Some (cs, p)"
    "0 < length cs" "cs ! 0 = (b, W)" "nextIndexFree b = 2" "nextIndexToDeliver b = 1" by (rule shared_state)
  have v: "firstSeqNum b = 1" "map_option fst (Ack 2 (b, p)) = Some (Some (ErrAckNotDelivered 2 1 2 1))"
    using shared_acks s(2,4) by simp_all
  from Ack_exact [OF s(1,3,4), where sq = 1] show ?thesis using s(2,4-6) v by auto
qed

section \<open>What is unacknowledged, and sending it again\<close>

definition live_messages :: "window \<Rightarrow> DataMessage list" where
  "live_messages v = concat (map (\<lambda>s. case s of Live m lim \<Rightarrow> [m] | Gone \<Rightarrow> []) (a_slots v))"

lemma live_length: "length (live_messages v) \<le> length (a_slots v)"
proof -
  have "length (concat (map (\<lambda>s. case s of Live m lim \<Rightarrow> [m] | Gone \<Rightarrow> []) ss)) \<le> length ss" for ss
    by (induction ss) (auto split: slot.splits)
  then show ?thesis by (simp add: live_messages_def)
qed

lemma live_at:
  assumes "\<forall>i \<in> set is. buff b ! i \<noteq> None"
  shows "map Some (concat (map (\<lambda>i. case slot_at b i of Live m lim \<Rightarrow> [m] | Gone \<Rightarrow> []) is)) =
     map (\<lambda>i. buff b ! i) (filter (\<lambda>i. firstSeqNum b + of_nat i \<notin> retired b) is)"
  using assms by (induction "is") (auto simp: slot_at_def Let_def)

lemma GetUnAcked_live:
  assumes "slots_ok b"
  shows "GetUnAcked b = Some (map Some (live_messages (window_of b)))"
proof -
  note w = slots_okD(1) [OF assms, unfolded win_ok_def]
  have "card (retired b) \<le> length (slots b)" unfolding retired_slots [OF slots_okD(4) [OF assms]] by (rule length_filter_le)
  moreover have "map Some (live_messages (window_of b)) = map (\<lambda>i. buff b ! i) (filter (\<lambda>i. firstSeqNum b + of_nat i \<notin> retired b) [0..<nfree b])"
    unfolding live_messages_def window_of_simps slots_def map_map comp_def by (rule live_at) (use w in force)
  moreover have "take (nfree b) (buff b) = map (\<lambda>i. buff b ! i) [0..<nfree b]" using w by (intro nth_equalityI) simp_all
  ultimately show ?thesis using w by (simp add: GetUnAcked_def)
qed

lemma sorted_numbered:
  assumes "\<And>i. i < n \<Longrightarrow> length (f i) \<le> 1 \<and> (\<forall>m \<in> set (f i). unat (SeqNum m) = a + i)"
  shows "sorted_wrt (\<lambda>m n. SeqNum m < SeqNum n) (concat (map f [0..<n]))"
  using assms
proof (induction n)
  case (Suc n)
  have one: "sorted_wrt (\<lambda>m n. SeqNum m < SeqNum n) (f n)" using Suc.prems [of n] by (cases "f n") auto
  have "SeqNum m < SeqNum k" if "m \<in> set (f i)" "i < n" "k \<in> set (f n)" for m i k
    using Suc.prems [of i] Suc.prems [of n] that by (simp add: word_less_nat_alt)
  then show ?case using Suc one by (auto simp: sorted_wrt_append)
qed simp

text \<open>
  C13: \<open>GetUnAcked\<close>, which \<open>Close\<close> returns to the caller, is exactly the messages of the window
  that are neither acknowledged nor retired, in the order of their sequence numbers.
\<close>

theorem GetUnAcked_exact:
  assumes "fleet_reaches p0 ops (cs, p)" and "(b, W) \<in> set cs"
  shows "GetUnAcked b = Some (map Some (live_messages (window_of b))) \<and>
    sorted_wrt (\<lambda>m n. SeqNum m < SeqNum n) (live_messages (window_of b))"
proof -
  have s: "slots_ok b" using fleet_ok_sound [OF reaches_ok [OF assms(1)] assms(2)] by (simp add: sound_def)
  note w = slots_okD(1) [OF s, unfolded win_ok_def]
  have "unat (SeqNum (the (buff b ! i))) = unat (firstSeqNum b) + i" if i: "i < nfree b" for i
  proof -
    obtain m where "buff b ! i = Some m" "SeqNum m = firstSeqNum b + of_nat i" using w i by blast
    moreover have "unat (firstSeqNum b) + i < 2 ^ 64" using w i unat_less_2_64 [of "nextSeqNum b"] by (simp del: unat_less_2_64)
    ultimately show ?thesis using i unat_less_2_64 [of "nextIndexFree b"]
      by (simp add: unat_add_exact unat_of_nat_exact del: unat_less_2_64)
  qed
  then have "sorted_wrt (\<lambda>m n. SeqNum m < SeqNum n) (live_messages (window_of b))"
    unfolding live_messages_def window_of_simps slots_def map_map comp_def
    by (intro sorted_numbered [where a = "unat (firstSeqNum b)"]) (auto simp: slot_at_def Let_def split: slot.splits if_splits)
  then show ?thesis using GetUnAcked_live [OF s] by simp
qed

theorem GetUnAcked_exact_witness:
  "\<exists>cs p b W. run fleet_step shared_ops ([], Some demo_budget) = Some (cs, p) \<and> cs ! 0 = (b, W) \<and>
     GetUnAcked b = Some (map Some (live_messages (window_of b)))"
proof -
  obtain cs p b W where s: "fleet_reaches (Some demo_budget) shared_ops (cs, p)" "run fleet_step shared_ops ([], Some demo_budget) = Some (cs, p)"
    "0 < length cs" "cs ! 0 = (b, W)" by (rule shared_state)
  then have "(b, W) \<in> set cs" by (metis nth_mem)
  from GetUnAcked_exact [OF s(1) this] show ?thesis using s(2,4) by blast
qed

fun deliver_times :: "nat \<Rightarrow> buffer_state \<Rightarrow> (DataMessage option list \<times> buffer_state) option" where
  "deliver_times 0 s = Some ([], s)"
| "deliver_times (Suc n) s = do {
     (r, s) \<leftarrow> GetNextToDeliver True s;
     (rs, s) \<leftarrow> deliver_times n s;
     Some (r # rs, s)
   }"

lemma window_eqD: "window_of b = v \<Longrightarrow> ndel b = a_sent v \<and> nfree b = length (a_slots v) \<and> slots b = a_slots v"
  by auto

text \<open>The messages still to be handed out, in a window where no frame is exhausted.\<close>

definition pending :: "window \<Rightarrow> DataMessage list" where
  "pending v = live_messages (v\<lparr>a_slots := drop (a_sent v) (a_slots v)\<rparr>)"

definition unspent :: "window \<Rightarrow> bool" where
  "unspent v \<longleftrightarrow> (\<forall>m. Live m (Some 0) \<notin> set (drop (a_sent v) (a_slots v)))"

lemma live_Cons: "live_messages (v\<lparr>a_slots := s # ss\<rparr>) =
   (case s of Live m lim \<Rightarrow> [m] | Gone \<Rightarrow> []) @ live_messages (v\<lparr>a_slots := ss\<rparr>)"
  by (simp add: live_messages_def)

lemma live_Nil: "live_messages v = [] \<longleftrightarrow> (\<forall>s \<in> set (a_slots v). s = Gone)"
  by (simp add: live_messages_def split: slot.splits) (metis slot.exhaust slot.distinct(1))

lemma w_next_pending:
  assumes "unspent v"
  shows "case pending v of [] \<Rightarrow> fst (w_next sealed v) = None
    | m # rest \<Rightarrow> \<exists>v'. w_next sealed v = (Some (if sealed \<and> rest = [] then m\<lparr>AckRequested := True\<rparr> else m), v') \<and> pending v' = rest \<and> unspent v'"
  using assms
proof (induction sealed v rule: w_next.induct)
  case (1 sealed v)
  show ?case
  proof (cases "a_sent v < length (a_slots v)")
    case False
    then show ?thesis by (subst (1 2) w_next.simps) (simp add: pending_def live_messages_def)
  next
    case lt: True
    then have d: "drop (a_sent v) (a_slots v) = a_slots v ! a_sent v # drop (Suc (a_sent v)) (a_slots v)" by (simp add: Cons_nth_drop_Suc)
    show ?thesis
    proof (cases "a_slots v ! a_sent v")
      case Gone
      let ?v = "v\<lparr>a_sent := Suc (a_sent v)\<rparr>"
      have p: "pending ?v = pending v" unfolding pending_def d Gone live_Cons by (simp add: live_messages_def)
      have u: "unspent ?v" using "1.prems" by (simp add: unspent_def d)
      have n: "w_next sealed v = w_next sealed ?v" using lt Gone by (subst w_next.simps) simp
      show ?thesis using "1.IH"(2) [OF lt Gone u] unfolding p n .
    next
      case (Live m lim)
      let ?v = "w_send (a_sent v) v" and ?rest = "live_messages (v\<lparr>a_slots := drop (Suc (a_sent v)) (a_slots v)\<rparr>)"
      have lim: "lim \<noteq> Some 0" using "1.prems" by (auto simp: unspent_def d Live)
      have "pending v = m # ?rest" unfolding pending_def d Live live_Cons by simp
      moreover have "?rest = [] \<longleftrightarrow> (\<forall>s \<in> set (drop (Suc (a_sent v)) (a_slots v)). s = Gone)" by (simp add: live_Nil)
      moreover have "pending ?v = ?rest" "unspent ?v"
        using "1.prems" by (simp_all add: pending_def unspent_def w_send_def live_messages_def d)
      moreover have "w_next sealed v =
          (Some (if sealed \<and> (\<forall>s \<in> set (drop (Suc (a_sent v)) (a_slots v)). s = Gone) then m\<lparr>AckRequested := True\<rparr> else m), ?v)"
        using lt Live lim by (subst w_next.simps) simp
      ultimately show ?thesis by simp
    qed
  qed
qed

text \<open>A sealed buffer asks for an acknowledgement of the last message it hands out.\<close>

fun marked :: "bool \<Rightarrow> DataMessage list \<Rightarrow> DataMessage list" where
  "marked sealed [] = []"
| "marked sealed (m # ms) = (if sealed \<and> ms = [] then m\<lparr>AckRequested := True\<rparr> else m) # marked sealed ms"

lemma deliver_pending:
  assumes "fleet_ok (cs, p)" and "i < length cs" and "cs ! i = (b, W)" and "unspent (window_of b)" and "pending (window_of b) = ms"
  shows "\<exists>s. deliver_times (Suc (length ms)) (b, p) = Some (map Some (marked (\<not> isRunning b) ms) @ [None], s)"
  using assms
proof (induction ms arbitrary: cs p b W)
  case Nil
  have "ack_pre (ADeliver True) (b, p, W)" by simp
  from fleet_ok_exec [OF Nil(1-3) this] obtain r b' p' where
    "GetNextToDeliver True (b, p) = Some (r, b', p')" "w_next (\<not> isRunning b) (window_of b) = (r, window_of b')" by auto
  then show ?case using w_next_pending [OF Nil(4), of "\<not> isRunning b"] Nil(5) by simp
next
  case (Cons m ms)
  have "ack_pre (ADeliver True) (b, p, W)" by simp
  from fleet_ok_exec [OF Cons.prems(1-3) this] obtain r b' p' where
    x: "GetNextToDeliver True (b, p) = Some (r, b', p')" "fleet_ok (cs[i := (b', W)], p')" "static b' = static b"
      "w_next (\<not> isRunning b) (window_of b) = (r, window_of b')" by auto
  have v: "r = Some (if \<not> isRunning b \<and> ms = [] then m\<lparr>AckRequested := True\<rparr> else m)" "pending (window_of b') = ms" "unspent (window_of b')"
    using w_next_pending [OF Cons.prems(4), of "\<not> isRunning b"] Cons.prems(5) x(4) by auto
  have "\<exists>s. deliver_times (Suc (length ms)) (b', p') = Some (map Some (marked (\<not> isRunning b') ms) @ [None], s)"
    by (rule Cons.IH [OF x(2)]) (use Cons.prems(2) v in auto)
  then show ?case using x(1) v(1) static_running [OF x(3)] by (auto simp del: deliver_times.simps(2) simp: deliver_times.simps(2) [of "Suc _"])
qed

definition resendable :: "window \<Rightarrow> DataMessage list" where
  "resendable v = concat (map (\<lambda>s. case s of Live m lim \<Rightarrow> if lim = Some 0 then [] else [m] | Gone \<Rightarrow> []) (a_slots v))"

lemma live_exhausted: "live_messages (v\<lparr>a_slots := map exhausted (a_slots v), a_sent := k\<rparr>) = resendable v"
  unfolding live_messages_def resendable_def
  by (simp add: comp_def, rule arg_cong [where f = concat], rule map_cong)
    (auto simp: exhausted_def split: slot.splits option.splits nat.splits)

lemma live_trim: "live_messages (w_trim v) = live_messages v"
proof -
  have "concat (map (\<lambda>s. case s of Live m lim \<Rightarrow> [m] | Gone \<Rightarrow> []) (drop (length (takeWhile (\<lambda>s. s = Gone) ss)) ss)) =
      concat (map (\<lambda>s. case s of Live m lim \<Rightarrow> [m] | Gone \<Rightarrow> []) ss)" for ss
    by (induction ss) auto
  then show ?thesis by (simp add: live_messages_def w_trim_def w_drop_def gap_def)
qed

lemma reset_live: "live_messages (w_reset v) = resendable v"
  by (simp add: w_reset_def live_trim live_exhausted)

lemma reset_pending: "pending (w_reset v) = resendable v" "unspent (w_reset v)"
proof -
  have 0: "a_sent (w_reset v) = 0" by (simp add: w_reset_def w_trim_def w_drop_def)
  then have "pending (w_reset v) = live_messages (w_reset v)" by (simp add: pending_def)
  then show "pending (w_reset v) = resendable v" by (simp add: reset_live)
  have "Live m (Some 0) \<notin> exhausted ` A" for m A by (auto simp: exhausted_def split: slot.splits option.splits nat.splits)
  then show "unspent (w_reset v)"
    using 0 set_drop_subset by (fastforce simp: unspent_def w_reset_def w_trim_def w_drop_def)
qed

text \<open>
  C8: nothing is lost by a reconnect. \<open>ResetDelivery\<close> retires the frames whose transmissions are
  used up; every other frame that is neither acknowledged nor retired stays, and the sender is handed
  exactly these again, each once and in order, and then nothing. A sealed buffer asks for an
  acknowledgement of the last one.
\<close>

theorem reset_resends_all:
  assumes "fleet_reaches p0 ops (cs, p)" and "i < length cs" and "cs ! i = (b, W)"
  defines "ms \<equiv> resendable (window_of b)"
  shows "\<exists>b' p' s. ResetDelivery (b, p) = Some (b', p') \<and> GetUnAcked b' = Some (map Some ms) \<and>
    deliver_times (Suc (length ms)) (b', p') = Some (map Some (marked (\<not> isRunning b) ms) @ [None], s)"
proof -
  have "ack_pre AReset (b, p, W)" by simp
  from fleet_ok_exec [OF reaches_ok [OF assms(1)] assms(2,3) this] obtain b' p' where
    x: "ResetDelivery (b, p) = Some (b', p')" "fleet_ok (cs[i := (b', W)], p')" "static b' = static b" "window_of b' = w_reset (window_of b)"
    by auto
  have "(b', W) \<in> set (cs[i := (b', W)])" using assms(2) by (rule set_update_memI)
  then have "slots_ok b'" using fleet_ok_sound [OF x(2)] by (auto simp: sound_def)
  then have "GetUnAcked b' = Some (map Some ms)" using GetUnAcked_live x(4) by (simp add: ms_def reset_live)
  moreover have "\<exists>s. deliver_times (Suc (length ms)) (b', p') = Some (map Some (marked (\<not> isRunning b') ms) @ [None], s)"
    by (rule deliver_pending [OF x(2), where W = W and i = i]) (use assms(2) x(4) reset_pending in \<open>simp_all add: ms_def\<close>)
  ultimately show ?thesis using x(1) static_running [OF x(3)] by auto
qed

text \<open>A sealed client with a frame that may be sent once, and was: the other two are sent again.\<close>

definition resend_ops :: "fleet_op list" where
  "resend_ops = retire_ops @ [FOp 0 (AAdd (Some msg0) 5 None None 0), FOp 0 (ADeliver True), FOp 0 ASeal]"

lemma resend_admissible: "admissible fleet_step fleet_pre resend_ops ([], Some demo_budget)"
  by code_simp

lemma resend_values:
  "map_option (\<lambda>(cs, p). let (b, W) = cs ! 0 in (length cs, isRunning b, length (live_messages (window_of b)), length (resendable (window_of b))))
     (run fleet_step resend_ops ([], Some demo_budget)) = Some (2, False, 3, 2)"
  by code_simp

theorem reset_resends_all_witness:
  "\<exists>cs p b W b' p' m n s. run fleet_step resend_ops ([], Some demo_budget) = Some (cs, p) \<and> cs ! 0 = (b, W) \<and>
     ResetDelivery (b, p) = Some (b', p') \<and> GetUnAcked b' = Some [Some m, Some n] \<and>
     deliver_times 3 (b', p') = Some ([Some m, Some (n\<lparr>AckRequested := True\<rparr>), None], s)"
proof -
  obtain cs p where r: "fleet_reaches (Some demo_budget) resend_ops (cs, p)" "run fleet_step resend_ops ([], Some demo_budget) = Some (cs, p)"
    by (rule demo_run [OF resend_admissible])
  obtain b W where b: "cs ! 0 = (b, W)" by fastforce
  have v: "length cs = 2" "\<not> isRunning b" "length (resendable (window_of b)) = 2" using resend_values r(2) b by simp_all
  then obtain m n where "resendable (window_of b) = [m, n]" by (auto simp: length_Suc_conv numeral_2_eq_2)
  then show ?thesis using reset_resends_all [OF r(1) _ b] v(1,2) r(2) b by (auto simp: numeral_3_eq_3)
qed

end
