(* ===== verification/LimitProps.thy ===== *)
theory LimitProps
  imports WindowProps
begin

text \<open>
  The transmission limit of a frame, proved on the window specification and carried over to
  the buffers by the refinement; and the ring that remembers the retired sequence numbers
  released last.
\<close>

section \<open>Limits in the window\<close>

definition numbered :: "window \<Rightarrow> bool" where
  "numbered v \<longleftrightarrow> length (a_slots v) \<le> 35184372088832 \<and> unat (a_first v) + length (a_slots v) < 2 ^ 64 \<and>
     (\<forall>i < length (a_slots v). \<forall>m lim. a_slots v ! i = Live m lim \<longrightarrow> SeqNum m = a_first v + of_nat i)"

abbreviation index_in :: "u64 \<Rightarrow> window \<Rightarrow> nat" where
  "index_in q v \<equiv> unat (q - a_first v)"

text \<open>The frame \<open>q\<close> was admitted, and may be handed out at most \<open>k\<close> more times.\<close>

definition capped :: "u64 \<Rightarrow> nat \<Rightarrow> window \<Rightarrow> bool" where
  "capped q k v \<longleftrightarrow> unat q < unat (a_first v) + length (a_slots v) \<and>
     (index_in q v < length (a_slots v) \<longrightarrow>
        (\<forall>m lim. a_slots v ! index_in q v = Live m lim \<longrightarrow> (\<exists>n. lim = Some n \<and> n \<le> k)))"

lemma numbered_window: "slots_ok b \<Longrightarrow> numbered (window_of b)"
proof -
  assume s: "slots_ok b"
  note w = slots_okD(1) [OF s, unfolded win_ok_def]
  have "unat (firstSeqNum b) + nfree b < 2 ^ 64" using w unat_less_2_64 [of "nextSeqNum b"] by (simp del: unat_less_2_64)
  moreover have "SeqNum m = firstSeqNum b + of_nat i" if "i < nfree b" "slot_at b i = Live m lim" for i m lim
  proof -
    obtain n where "buff b ! i = Some n" "SeqNum n = firstSeqNum b + of_nat i" using w \<open>i < _\<close> by blast
    then show ?thesis using that(2) by (auto simp: slot_at_def Let_def split: if_splits)
  qed
  ultimately show ?thesis using w by (simp add: numbered_def)
qed

lemma index_below:
  assumes "unat ((q :: u64) - a) < k" and "k \<le> 35184372088832"
  shows "35184372088832 \<le> unat (q - (a + of_nat k))"
proof -
  have k: "unat (of_nat k :: u64) = k" using assms(2) by (intro unat_of_nat_exact) simp
  then have "\<not> (of_nat k :: u64) \<le> q - a" using assms(1) by (simp add: word_le_nat_alt)
  then have "unat (q - a - of_nat k) = 2 ^ 64 + unat (q - a) - k"
    using k by (simp add: unat_sub_if_size word_le_nat_alt word_size)
  then have "2 ^ 64 - k \<le> unat (q - a - of_nat k)" by simp
  then show ?thesis using assms(2) by (simp add: algebra_simps)
qed

lemma first_drop: "numbered v \<Longrightarrow> j \<le> length (a_slots v) \<Longrightarrow> unat (a_first v + of_nat j) = unat (a_first v) + j"
  by (simp add: numbered_def unat_add_exact unat_of_nat_exact)

lemma drop_numbered:
  assumes "numbered v" and "j \<le> length (a_slots v)"
  shows "numbered (w_drop j v)"
proof -
  have "SeqNum m = a_first v + of_nat j + of_nat i" if "i < length (a_slots v) - j" "a_slots v ! (j + i) = Live m lim" for i m lim
  proof -
    have "SeqNum m = a_first v + of_nat (j + i)" using assms(1) that unfolding numbered_def by (auto dest!: spec [of _ "j + i"])
    then show ?thesis by (simp add: algebra_simps)
  qed
  then show ?thesis using assms first_drop [OF assms] by (auto simp: numbered_def w_drop_def)
qed

lemma drop_capped:
  assumes "numbered v" and "j \<le> length (a_slots v)" and "capped q k v"
  shows "capped q k (w_drop j v)"
proof (cases "j \<le> index_in q v")
  case True
  then show ?thesis using assms first_drop [OF assms(1,2)] slot_shift [OF True] by (auto simp: capped_def w_drop_def)
next
  case False
  then have "length (a_slots v) - j \<le> unat (q - (a_first v + of_nat j))"
    using index_below [of q "a_first v" j] assms(1,2) unfolding numbered_def by linarith
  then show ?thesis using assms first_drop [OF assms(1,2)] by (auto simp: capped_def w_drop_def)
qed

lemma gap_le: "gap v \<le> length (a_slots v)"
  by (simp add: gap_def length_takeWhile_le)

lemma trim_keeps: "numbered v \<Longrightarrow> numbered (w_trim v)" "numbered v \<Longrightarrow> capped q k v \<Longrightarrow> capped q k (w_trim v)"
  by (simp_all add: w_trim_def drop_numbered drop_capped gap_le)

lemma gone_nth: "xs[i := Gone] ! j = Live m lim \<Longrightarrow> xs ! j = Live m lim"
  by (cases "i = j"; cases "i < length xs") (auto simp: list_update_beyond)

lemma gone_keeps: "numbered v \<Longrightarrow> numbered (w_gone i v)" "capped q k v \<Longrightarrow> capped q k (w_gone i v)"
  by (auto simp: numbered_def capped_def w_gone_def dest!: gone_nth)

lemma sent_keeps: "numbered (v\<lparr>a_sent := j\<rparr>) = numbered v" "capped q k (v\<lparr>a_sent := j\<rparr>) = capped q k v"
  by (simp_all add: numbered_def capped_def)

lemma send_numbered: "numbered v \<Longrightarrow> i < length (a_slots v) \<Longrightarrow> numbered (w_send i v)"
  by (auto simp: numbered_def w_send_def nth_list_update split: if_splits slot.splits)

definition after_out :: "u64 \<Rightarrow> nat \<Rightarrow> DataMessage option \<Rightarrow> window \<Rightarrow> bool" where
  "after_out q k r v \<longleftrightarrow> (if map_option SeqNum r = Some q then 0 < k \<and> capped q (k - 1) v else capped q k v)"

lemma send_capped:
  assumes n: "numbered v" and c: "capped q k v" and i: "i < length (a_slots v)" "a_slots v ! i = Live m lim" and lim: "lim \<noteq> Some 0"
    and r: "SeqNum r = SeqNum m"
  shows "after_out q k (Some r) (w_send i v)"
proof -
  have m: "SeqNum m = a_first v + of_nat i" using n i by (simp add: numbered_def)
  have idx: "index_in (a_first v + of_nat i) v = i" using n i(1) by (intro slot_of_nth) (simp add: numbered_def)
  show ?thesis
  proof (cases "SeqNum m = q")
    case True
    then have q: "index_in q v = i" using m idx by simp
    then obtain x where x: "lim = Some x" "x \<le> k" using c i by (auto simp: capped_def)
    then show ?thesis using True r q i c lim by (auto simp: after_out_def capped_def w_send_def)
  next
    case False
    then have "index_in q v \<noteq> i" using m slot_seq [of "a_first v" q] by metis
    then show ?thesis using False r c by (auto simp: after_out_def capped_def w_send_def nth_list_update)
  qed
qed

lemma w_next_capped: "w_next sealed v = (r, v') \<Longrightarrow> numbered v \<Longrightarrow> capped q k v \<Longrightarrow> after_out q k r v'"
proof (induction sealed v arbitrary: r v' rule: w_next.induct)
  case (1 sealed v)
  show ?case
  proof (cases "a_sent v < length (a_slots v)")
    case False
    then show ?thesis using "1.prems" by (simp add: w_next.simps [of sealed v] after_out_def)
  next
    case lt: True
    show ?thesis
    proof (cases "a_slots v ! a_sent v")
      case Gone
      then show ?thesis using "1.IH"(2) [OF lt Gone] "1.prems" lt by (simp add: w_next.simps [of sealed v] sent_keeps)
    next
      case (Live m lim)
      show ?thesis
      proof (cases "lim = Some 0")
        case True
        let ?g = "w_gone (a_sent v) v\<lparr>a_sent := Suc (a_sent v)\<rparr>"
        have "numbered ?g" "capped q k ?g" using "1.prems"(2,3) by (simp_all add: gone_keeps sent_keeps)
        then show ?thesis
          using "1.IH"(1) [OF lt Live True] "1.prems"(1) lt Live True trim_keeps by (simp add: w_next.simps [of sealed v])
      next
        case False
        then have "v' = w_send (a_sent v) v" "\<exists>n. r = Some n \<and> SeqNum n = SeqNum m"
          using "1.prems"(1) lt Live by (auto simp: w_next.simps [of sealed v])
        then show ?thesis using send_capped [OF "1.prems"(2,3) lt Live False] by auto
      qed
    qed
  qed
qed

lemma reset_capped:
  assumes "numbered v" and "capped q k v"
  shows "capped q k (w_reset v)"
proof -
  let ?v = "v\<lparr>a_slots := map exhausted (a_slots v), a_sent := 0\<rparr>"
  have e: "exhausted s = Live m lim \<Longrightarrow> s = Live m lim" for s m lim by (auto simp: exhausted_def split: slot.splits option.splits nat.splits)
  have "numbered ?v" "capped q k ?v" using assms e by (fastforce simp: numbered_def capped_def)+
  then show ?thesis unfolding w_reset_def by (rule trim_keeps)
qed

lemma add_capped:
  assumes "numbered v" and "unat (a_first v) + length (a_slots v) < 2 ^ 64" and "capped q k v"
  shows "capped q k (w_add m lim v)"
proof -
  have "index_in q v \<noteq> length (a_slots v)"
  proof
    assume i: "index_in q v = length (a_slots v)"
    have "q = a_first v + of_nat (index_in q v)" by simp
    then have "unat q = unat (a_first v) + length (a_slots v)" unfolding i using first_drop [OF assms(1) le_refl] by metis
    then show False using assms(3) by (simp add: capped_def)
  qed
  then show ?thesis using assms(3) by (auto simp: capped_def w_add_def nth_append less_Suc_eq)
qed

lemma spec_capped:
  assumes "spec_step opr out (sealed, v) (sealed', v')" and n: "numbered v" and c: "capped q k v"
  shows "case out of OMsg r \<Rightarrow> after_out q k r v' | _ \<Rightarrow> capped q k v'"
  using assms(1)
proof cases
  case (Spec_admit m e f sz w receipt mx)
  then show ?thesis using add_capped [OF n _ c] n by (simp add: numbered_def)
next
  case (Spec_ack k sq)
  then show ?thesis using n c by (simp add: w_ack_def trim_keeps drop_numbered drop_capped)
next
  case (Spec_deliver r)
  then show ?thesis using w_next_capped [OF _ n c] by simp
next
  case Spec_reset
  then show ?thesis using reset_capped [OF n c] by simp
qed (use c in \<open>auto simp: after_out_def\<close>)

section \<open>Limits of buffers\<close>

text \<open>How often a run hands the frame \<open>q\<close> of buffer \<open>i\<close> to the sender.\<close>

fun hands_out :: "nat \<Rightarrow> u64 \<Rightarrow> fleet_op \<Rightarrow> fleet \<Rightarrow> bool" where
  "hands_out i q (FOp j (ADeliver g)) (cs, p) \<longleftrightarrow>
     j = i \<and> (case GetNextToDeliver g (fst (cs ! i), p) of Some (Some m, _) \<Rightarrow> SeqNum m = q | _ \<Rightarrow> False)"
| "hands_out i q _ _ \<longleftrightarrow> False"

fun transmissions :: "nat \<Rightarrow> u64 \<Rightarrow> fleet_op list \<Rightarrow> fleet \<Rightarrow> nat" where
  "transmissions i q [] s = 0"
| "transmissions i q (opr # ops) s =
     (case fleet_step opr s of None \<Rightarrow> 0 | Some s' \<Rightarrow> (if hands_out i q opr s then 1 else 0) + transmissions i q ops s')"

lemma out_step:
  assumes ok: "fleet_ok (cs, p)" and i: "i < length cs" "cs ! i = (b, W)" and pre: "ack_pre a (b, p, W)" and c: "capped q k (window_of b)"
  shows "\<exists>b' W' p'. fleet_step (FOp i a) (cs, p) = Some (cs[i := (b', W')], p') \<and> fleet_ok (cs[i := (b', W')], p') \<and>
     (if hands_out i q (FOp i a) (cs, p) then 0 < k \<and> capped q (k - 1) (window_of b') else capped q k (window_of b'))"
proof -
  from fleet_ok_exec [OF ok i pre] obtain out b' p' W' where
    x: "ack_exec a (b, p, W) = Some (out, b', p', W')" "fleet_ok (cs[i := (b', W')], p')" "op_spec a out b b'" by blast
  have "slots_ok b" using fleet_ok_sound [OF ok, of b W] i nth_mem [of i cs] by (simp add: sound_def)
  from spec_capped [OF op_spec_step [OF x(3), unfolded spec_of_def] numbered_window [OF this] c]
  have s: "case out of OMsg r \<Rightarrow> after_out q k r (window_of b') | _ \<Rightarrow> capped q k (window_of b')" .
  have "if hands_out i q (FOp i a) (cs, p) then 0 < k \<and> capped q (k - 1) (window_of b') else capped q k (window_of b')"
  proof (cases a)
    case (ADeliver g)
    then obtain r where r: "GetNextToDeliver g (b, p) = Some (r, b', p')" "out = OMsg r" using x(1) by auto
    show ?thesis using s i(2) by (cases r) (auto simp: ADeliver r after_out_def)
  qed (use s x(1) in auto)
  moreover have "fleet_step (FOp i a) (cs, p) = Some (cs[i := (b', W')], p')" using x(1) i(2) by simp
  ultimately show ?thesis using x(2) by blast
qed

lemma transmissions_capped:
  assumes "fleet_ok (cs, p)" and "i < length cs" and "cs ! i = (b, W)" and "capped q k (window_of b)"
    and "admissible fleet_step fleet_pre ops (cs, p)"
  shows "transmissions i q ops (cs, p) \<le> k"
  using assms
proof (induction ops arbitrary: cs p b W k)
  case (Cons opr ops)
  have pre: "fleet_pre opr (cs, p)" using Cons.prems(5) by simp
  obtain s' where s': "fleet_step opr (cs, p) = Some s'" "fleet_ok s'" using fleets.step_ok [OF Cons.prems(1) pre] by blast
  have adm: "admissible fleet_step fleet_pre ops s'" using Cons.prems(5) s'(1) by simp
  show ?case
  proof (cases "\<exists>a. opr = FOp i a")
    case True
    then obtain a where a: "opr = FOp i a" by blast
    then have "ack_pre a (b, p, W)" using pre Cons.prems(3) by simp
    from out_step [OF Cons.prems(1-3) this Cons.prems(4)] obtain b' W' p' where
      o: "s' = (cs[i := (b', W')], p')"
        "if hands_out i q opr (cs, p) then 0 < k \<and> capped q (k - 1) (window_of b') else capped q k (window_of b')"
      using s'(1) a by auto
    then show ?thesis
      using Cons.IH [of "cs[i := (b', W')]" p' b' W'] s' adm Cons.prems(2) a by (auto split: if_splits) fastforce
  next
    case False
    have "i < length (fst s') \<and> fst s' ! i = (b, W)"
    proof (cases opr)
      case (FNew opts)
      then obtain r p1 where "NewAckBuffer opts p = Some (r, p1)" "s' = (case r of Inl _ \<Rightarrow> cs | Inr b \<Rightarrow> cs @ [(b, Map.empty)], p1)"
        using s'(1) by auto
      then show ?thesis using Cons.prems(2,3) by (cases r) (auto simp: nth_append)
    next
      case (FOp j a)
      then show ?thesis using False s'(1) Cons.prems(2,3) by (auto simp: Let_def split: prod.splits)
    qed
    moreover have "\<not> hands_out i q opr (cs, p)" using False by (cases "(i, q, opr, cs, p)" rule: hands_out.cases) auto
    ultimately show ?thesis using Cons.IH [of "fst s'" "snd s'" b W k] s' adm Cons.prems(4) by simp
  qed
qed simp

text \<open>
  C5: the transmission limit holds. A frame admitted with \<open>MaxTransmissions = mx\<close> is handed to
  senders at most \<open>mx\<close> times, over any number of reconnects and whatever the other clients do.
\<close>

theorem transmissions_bounded:
  assumes "fleet_reaches p0 ops (cs, p)" and "i < length cs" and "cs ! i = (b, W)"
    and "ack_pre (AAdd (Some e) sz w (Some c) mx) (b, p, W)" and "mx \<noteq> 0"
    and "ack_exec (AAdd (Some e) sz w (Some c) mx) (b, p, W) = Some (OAdd (AddReturns None), b', p', W')"
    and "admissible fleet_step fleet_pre ops' (cs[i := (b', W')], p')"
  shows "transmissions i (nextSeqNum b) ops' (cs[i := (b', W')], p') \<le> unat mx"
proof (rule transmissions_capped [where b = b' and W = W'])
  from fleet_ok_exec [OF reaches_ok [OF assms(1)] assms(2-4)] assms(6)
  have x: "fleet_ok (cs[i := (b', W')], p')" "add_spec (Some e) sz (Some c) mx (AddReturns None) b b'" by auto
  show "fleet_ok (cs[i := (b', W')], p')" by (rule x)
  obtain flag esc rd where s: "b' = stored e sz flag (Some c) mx rd (escaped esc sz b)" "can_store sz (Some c) esc b"
    using x(2) by (auto simp: add_spec_def admits_def split: if_splits)
  note d = can_storeD [OF s(2)]
  have "window_of b' = w_add (stored_msg e flag b) (Some (unat mx)) (window_of b)"
    using store_window [OF s(2)] s(1) assms(5) by (simp add: new_limit_def)
  moreover have "unat (nextSeqNum b) = unat (firstSeqNum b) + nfree b" using d(3) by (simp add: win_ok_def)
  ultimately show "capped (nextSeqNum b) (unat mx) (window_of b')" using d(12) by (simp add: capped_def w_add_def nth_append)
qed (use assms in simp_all)

definition limited_ops :: "fleet_op list" where
  "limited_ops = [FOp 0 (ADeliver True), FOp 0 AReset, FOp 0 (ADeliver True), FOp 0 AReset, FOp 0 (ADeliver True)]"

definition empty_ops :: "fleet_op list" where
  "empty_ops = [FNew (opts_for ''a'' 0), FOp 0 (ACapacity 4)]"

lemma limited_values:
  "admissible fleet_step fleet_pre empty_ops ([], Some demo_budget)"
  "map_option (\<lambda>(cs, p). let (b, W) = cs ! 0 in
     (length cs, nextSeqNum b, ack_pre (AAdd (Some msg0) 1 None (Some 0) 2) (b, p, W),
      map_option (\<lambda>(out, b', p', W'). (out, admissible fleet_step fleet_pre limited_ops (cs[0 := (b', W')], p'),
          transmissions 0 1 limited_ops (cs[0 := (b', W')], p'))) (ack_exec (AAdd (Some msg0) 1 None (Some 0) 2) (b, p, W))))
    (run fleet_step empty_ops ([], Some demo_budget)) = Some (1, 1, True, Some (OAdd (AddReturns None), True, 2))"
  by code_simp+

theorem transmissions_bounded_witness:
  "\<exists>cs p b W b' W' p'. run fleet_step empty_ops ([], Some demo_budget) = Some (cs, p) \<and> cs ! 0 = (b, W) \<and>
     ack_exec (AAdd (Some msg0) 1 None (Some 0) 2) (b, p, W) = Some (OAdd (AddReturns None), b', p', W') \<and>
     transmissions 0 1 limited_ops (cs[0 := (b', W')], p') = 2 \<and> 2 \<le> unat (2 :: u32)"
proof -
  obtain cs p where r: "fleet_reaches (Some demo_budget) empty_ops (cs, p)" and run: "run fleet_step empty_ops ([], Some demo_budget) = Some (cs, p)"
    by (rule demo_run [OF limited_values(1)])
  obtain b W where b: "cs ! 0 = (b, W)" by fastforce
  have v: "length cs = 1" "nextSeqNum b = 1" "ack_pre (AAdd (Some msg0) 1 None (Some 0) 2) (b, p, W)"
      "map_option (\<lambda>(out, b', p', W'). (out, admissible fleet_step fleet_pre limited_ops (cs[0 := (b', W')], p'),
          transmissions 0 1 limited_ops (cs[0 := (b', W')], p'))) (ack_exec (AAdd (Some msg0) 1 None (Some 0) 2) (b, p, W)) =
        Some (OAdd (AddReturns None), True, 2)"
    using limited_values(2) run b by (simp_all del: ack_pre.simps ack_exec.simps transmissions.simps admissible.simps)
  then obtain b' p' W' where x: "ack_exec (AAdd (Some msg0) 1 None (Some 0) 2) (b, p, W) = Some (OAdd (AddReturns None), b', p', W')"
      "admissible fleet_step fleet_pre limited_ops (cs[0 := (b', W')], p')" "transmissions 0 1 limited_ops (cs[0 := (b', W')], p') = 2"
    by (auto simp del: ack_exec.simps)
  have "transmissions 0 1 limited_ops (cs[0 := (b', W')], p') \<le> unat (2 :: u32)"
    using transmissions_bounded [OF r _ b v(3) _ x(1,2)] v(1,2) by simp
  then show ?thesis using run b x(1,3) by (auto simp del: ack_exec.simps)
qed

section \<open>The ring of released numbers\<close>

lemma ring_add_sel:
  "rr_seqs (ring_add q r) = (rr_seqs r)[rr_next r := q]" "rr_next (ring_add q r) = Suc (rr_next r) mod 64"
  "rr_n (ring_add q r) = (if rr_n r < 64 then Suc (rr_n r) else rr_n r)"
  by (simp_all add: ring_add_def releasedRetiredMemory_def)

lemma ring_run:
  fixes qs
  defines "r \<equiv> fold ring_add qs ring_empty"
  shows "length (rr_seqs r) = 64 \<and> rr_n r = min (length qs) 64 \<and> rr_next r = length qs mod 64 \<and>
     (\<forall>j. length qs - 64 \<le> j \<and> j < length qs \<longrightarrow> rr_seqs r ! (j mod 64) = qs ! j)"
  unfolding r_def
proof (induction qs rule: rev_induct)
  case (snoc q qs)
  let ?r = "fold ring_add qs ring_empty"
  have "rr_seqs (ring_add q ?r) ! (j mod 64) = (qs @ [q]) ! j" if "length (qs @ [q]) - 64 \<le> j" "j < length (qs @ [q])" for j
  proof (cases "j = length qs")
    case False
    have "j mod 64 \<noteq> length qs mod 64"
    proof
      assume "j mod 64 = length qs mod 64"
      then have "(64 :: nat) dvd length qs - j" using that by (metis less_Suc_eq_le length_append_singleton mod_eq_dvd_iff_nat)
      then show False using that False by (auto dest!: dvd_imp_le)
    qed
    then show ?thesis using snoc False that by (simp add: ring_add_sel nth_append)
  qed (use snoc in \<open>simp add: ring_add_sel\<close>)
  then show ?case using snoc by (auto simp: ring_add_sel mod_Suc)
qed (simp add: ring_empty_def releasedRetiredMemory_def)

lemma mod_interval: "(\<lambda>j. j mod 64) ` {n - 64..<n} = {..<min n (64 :: nat)}"
proof (cases "n \<le> 64")
  case True
  then have "(\<lambda>j. j mod 64) ` {n - 64..<n} = id ` {0..<n}" by (intro image_cong) auto
  then show ?thesis using True by (simp add: lessThan_atLeast0 min_def)
next
  case False
  have "inj_on (\<lambda>j. j mod 64) {n - 64..<n}"
  proof (rule linorder_inj_onI)
    show "i mod 64 \<noteq> j mod 64" if "i < j" "i \<in> {n - 64..<n}" "j \<in> {n - 64..<n}" for i j
    proof
      assume "i mod 64 = j mod 64"
      then have "(64 :: nat) dvd j - i" using that by (metis less_imp_le_nat mod_eq_dvd_iff_nat)
      then show False using that by (auto dest!: dvd_imp_le)
    qed
  qed auto
  then have "card ((\<lambda>j. j mod 64) ` {n - 64..<n}) = 64" using False by (simp add: card_image)
  then show ?thesis using False by (intro card_subset_eq) auto
qed

text \<open>
  C17: the ring buffer of released retired numbers is exactly a memory of the last 64 of them:
  after any sequence of \<open>add\<close>, \<open>has\<close> answers for these and no other number.
\<close>

theorem ring_remembers:
  "ring_has q (fold ring_add qs ring_empty) \<longleftrightarrow> q \<in> set (drop (length qs - 64) qs)"
proof -
  let ?r = "fold ring_add qs ring_empty" and ?n = "length qs"
  note r = ring_run [of qs]
  have "ring_has q ?r \<longleftrightarrow> q \<in> (\<lambda>i. rr_seqs ?r ! i) ` {..<rr_n ?r}" by (auto simp: ring_has_def list_ex_iff)
  also have "(\<lambda>i. rr_seqs ?r ! i) ` {..<rr_n ?r} = (\<lambda>j. rr_seqs ?r ! (j mod 64)) ` {?n - 64..<?n}"
    using r mod_interval [of ?n] by (metis (no_types) image_image)
  also have "\<dots> = (\<lambda>j. qs ! j) ` {?n - 64..<?n}" using r by (intro image_cong) auto
  also have "\<dots> = set (drop (?n - 64) qs)" by (auto simp: set_conv_nth image_iff) (metis add.commute le_add_diff_inverse2 less_diff_conv)+
  finally show ?thesis .
qed

end
