(* ===== verification/ReceiptProps.thy ===== *)
theory ReceiptProps
  imports LimitProps
begin

text \<open>
  Receipts, blocked calls, draining and flow control of the buffers of a reachable fleet, and
  two inputs for which the buffer does not do what its comments say.
\<close>

section \<open>Receipts\<close>

definition final :: "ReceiptFrameState \<Rightarrow> bool" where
  "final s \<longleftrightarrow> s \<in> {ReceiptAcknowledged, ReceiptClosedUnconfirmed, ReceiptRetired}"

lemma quiet_cells:
  assumes "sound b" and "quiet b b'" and "cells b' c \<noteq> cells b c"
  shows "cells b c = ReceiptRetained \<and> cells b' c = ReceiptRetired"
proof -
  obtain t where "t \<in> set (receipts b)" "c = t_state t" "cells b' c = ReceiptRetired" using assms(2,3) by (auto simp: quiet_def)
  then show ?thesis using assms(1,3) by (fastforce simp: sound_def rec_ok_def list_ok_def)
qed

text \<open>
  C9: a receipt moves only forward. When an operation changes the cell of a receipt, the cell
  is the new one of an admission, or it was \<open>ReceiptRetained\<close> and becomes \<open>ReceiptRetired\<close> by a
  delivery or reset, or \<open>ReceiptAcknowledged\<close> by an accepted \<open>Ack\<close> that covers its frame. So a
  final state is final, and only an acknowledgement of the frame acknowledges it.
\<close>

theorem receipts_move_forward:
  assumes "fleet_reaches p0 ops (cs, p)" and "i < length cs" and "cs ! i = (b, W)" and "ack_pre opr (b, p, W)"
    and "ack_exec opr (b, p, W) = Some (out, b', p', W')" and "cells b' c \<noteq> cells b c"
  shows "(\<exists>e sz w mx. opr = AAdd (Some e) sz w (Some c) mx \<and> out = OAdd (AddReturns None) \<and> cells b' c = ReceiptRetained) \<or>
    (\<exists>g. opr \<in> {ADeliver g, AReset} \<and> cells b c = ReceiptRetained \<and> cells b' c = ReceiptRetired) \<or>
    (\<exists>sq. opr = AAck sq \<and> out = OAck None \<and> cells b c = ReceiptRetained \<and> cells b' c = ReceiptAcknowledged \<and>
       (\<exists>t \<in> set (receipts b). t_state t = c \<and> unat (t_seq t - firstSeqNum b) \<le> unat (sq - firstSeqNum b)))"
proof -
  have o: "op_spec opr out b b'" using fleet_exec [OF assms(1-4)] assms(5) by auto
  have s: "sound b" by (rule reaches_sound [OF assms(1-3)])
  show ?thesis
  proof (cases opr)
    case (AAdd msg sz w receipt mx)
    then obtain r where "out = OAdd r" "add_spec msg sz receipt mx r b b'" using o by auto
    then show ?thesis using assms(6) AAdd
      by (auto simp: add_spec_def admits_def waits_def stored_sel split: option.splits if_splits add_result.splits)
  next
    case (AAck sq)
    have "acceptable sq b" using o AAck assms(6) by (cases "acceptable sq b") (auto simp: ack_counted_def)
    then show ?thesis using o AAck assms(6) by (auto simp: acked_cells_def less_Suc_eq_le split: if_splits)
  next
    case (ADeliver g)
    then show ?thesis using o quiet_cells [OF s _ assms(6)] by (auto simp: steady_def)
  next
    case AReset
    then show ?thesis using o quiet_cells [OF s _ assms(6)] by (auto simp: steady_def)
  qed (use o assms(6) in \<open>auto simp: idle_def\<close>)
qed

lemma receipt_values:
  "map_option (\<lambda>(cs, p). let (b, W) = cs ! 0 in
      (length cs, cells b 0, map_option (\<lambda>(out, b', _). (out, cells b' 0)) (ack_exec (AAck 1) (b, p, W))))
     (run fleet_step shared_ops ([], Some demo_budget)) = Some (2, ReceiptRetained, Some (OAck None, ReceiptAcknowledged))"
  by code_simp

theorem receipts_move_forward_witness:
  "\<exists>cs p b W b' p' W'. run fleet_step shared_ops ([], Some demo_budget) = Some (cs, p) \<and> cs ! 0 = (b, W) \<and>
     ack_exec (AAck 1) (b, p, W) = Some (OAck None, b', p', W') \<and> cells b 0 = ReceiptRetained \<and> cells b' 0 = ReceiptAcknowledged \<and>
     (\<exists>t \<in> set (receipts b). t_state t = 0 \<and> unat (t_seq t - firstSeqNum b) \<le> unat (1 - firstSeqNum b))"
proof -
  obtain cs p where r: "fleet_reaches (Some demo_budget) shared_ops (cs, p)" "run fleet_step shared_ops ([], Some demo_budget) = Some (cs, p)"
    by (rule shared_reaches)
  obtain b W where b: "cs ! 0 = (b, W)" by fastforce
  have v: "length cs = 2" "cells b 0 = ReceiptRetained"
      "map_option (\<lambda>(out, b', _). (out, cells b' 0)) (ack_exec (AAck 1) (b, p, W)) = Some (OAck None, ReceiptAcknowledged)"
    using receipt_values r(2) b by (simp_all del: ack_exec.simps)
  then obtain b' p' W' where x: "ack_exec (AAck 1) (b, p, W) = Some (OAck None, b', p', W')" "cells b' 0 = ReceiptAcknowledged"
    by (auto simp del: ack_exec.simps)
  have "ack_pre (AAck 1) (b, p, W)" by simp
  from receipts_move_forward [OF r(1) _ b this x(1), of 0] show ?thesis using r(2) b v(1,2) x by (auto simp del: ack_exec.simps)
qed

section \<open>Blocked calls wake up\<close>

text \<open>
  A change after which a blocked \<open>Add\<close> or \<open>drain\<close> may go on: free slots or bytes, another capacity, no
  acknowledgement pending any more, or a buffer that is sealed or closed.
\<close>

definition unblocks :: "AckBuffer \<Rightarrow> AckBuffer \<Rightarrow> bool" where
  "unblocks b b' \<longleftrightarrow> nextIndexFree b' < nextIndexFree b \<or> bytes b' < bytes b \<or> currentCapacity b' \<noteq> currentCapacity b \<or>
     (lastFlaggedSeq b \<noteq> 0 \<and> firstSeqNum b \<le> lastFlaggedSeq b) \<and> \<not> (lastFlaggedSeq b' \<noteq> 0 \<and> firstSeqNum b' \<le> lastFlaggedSeq b') \<or>
     isRunning b' \<noteq> isRunning b \<or> isClosed b' \<noteq> isClosed b"

lemma vital_unblocks: "vital b' = vital b \<Longrightarrow> \<not> unblocks b b'"
  by (simp add: vital_def unblocks_def)

lemma admits_unblocks:
  assumes "admits e sz receipt mx b b'"
  shows "\<not> unblocks b b'"
proof -
  obtain flag esc rd where s: "b' = stored e sz flag receipt mx rd (escaped esc sz b)" "can_store sz receipt esc b"
    using assms by (auto simp: admits_def)
  note d = can_storeD [OF s(2)]
  have "nextIndexFree b \<le> nextIndexFree b'" using d(9) by (simp add: s(1) stored_sel word_le_nat_alt)
  moreover have "bytes b \<le> bytes b'" using d(8) by (simp add: s(1) stored_sel word_le_nat_alt unat_add_exact)
  moreover have "firstSeqNum b \<le> nextSeqNum b" "nextSeqNum b \<noteq> 0" using d(3,13) by (auto simp: win_ok_def word_le_nat_alt)
  ultimately show ?thesis unfolding unblocks_def by (auto simp: s(1) stored_sel not_less)
qed

lemma op_unblocks:
  assumes "op_spec opr out b b'" and "unblocks b b'"
  shows "rouses b b'"
proof (cases opr)
  case (AAdd msg sz w receipt mx)
  then obtain r where "add_spec msg sz receipt mx r b b'" using assms(1) by auto
  moreover have "vital (b\<lparr>wake := w, wakeClosed := wc, next_wake := n\<rparr>) = vital b" for w wc n by (simp add: vital_def)
  ultimately have False
    using assms(2) vital_unblocks [of b' b] admits_unblocks
    by (auto simp: add_spec_def waits_def split: option.splits if_splits add_result.splits)
  then show ?thesis ..
next
  case (AAck sq)
  then show ?thesis using assms vital_unblocks [of b' b] by (cases "acceptable sq b") (auto simp: ack_counted_def vital_def)
next
  case (ADeliver g)
  then show ?thesis using assms vital_unblocks [of b' b] by (auto simp: steady_def)
next
  case (ACapacity n)
  then show ?thesis using assms vital_unblocks [of b' b] by (auto split: if_splits)
qed (use assms vital_unblocks [of b' b] in \<open>auto simp: steady_def\<close>)

text \<open>
  C11: no lost wake-up. Whenever an operation, of whichever kind, changes the buffer so that a
  blocked \<open>Ship\<close> or \<open>Drain\<close> may go on, be it by an acknowledgement, by retiring a frame during a delivery
  or a reset, by a new capacity, by sealing or by closing, it closes the channel these calls wait on.
\<close>

theorem blocked_calls_wake:
  assumes "fleet_reaches p0 ops (cs, p)" and "i < length cs" and "cs ! i = (b, W)" and "ack_pre opr (b, p, W)"
    and "ack_exec opr (b, p, W) = Some (out, b', p', W')" and "wake b = Some c" and "unblocks b b'"
  shows "wakeClosed b' c"
proof -
  have "op_spec opr out b b'" using fleet_exec [OF assms(1-4)] assms(5) by auto
  from op_unblocks [OF this assms(7)] show ?thesis using assms(6) by (simp add: rouses_def)
qed

definition parked_ops :: "fleet_op list" where
  "parked_ops = retire_ops @ [FOp 0 (AAdd (Some (msg0\<lparr>AckRequested := True\<rparr>)) 4 None None 0), FOp 0 (AAdd (Some msg0) 20 None None 0)]"

lemma wake_values:
  "admissible fleet_step fleet_pre parked_ops ([], Some demo_budget)"
  "map_option (\<lambda>(cs, p). let (b, W) = cs ! 0 in (length cs, wake b, map_option (\<lambda>(out, b', _). (out, unblocks b b', wakeClosed b' 0)) (ack_exec AReset (b, p, W))))
     (run fleet_step parked_ops ([], Some demo_budget)) = Some (2, Some 0, Some (ODone, True, True))"
  by code_simp+

theorem blocked_calls_wake_witness:
  "\<exists>cs p b W b' p' W'. run fleet_step parked_ops ([], Some demo_budget) = Some (cs, p) \<and> cs ! 0 = (b, W) \<and> wake b = Some 0 \<and>
     ack_exec AReset (b, p, W) = Some (ODone, b', p', W') \<and> unblocks b b' \<and> wakeClosed b' 0"
proof -
  obtain cs p where r: "fleet_reaches (Some demo_budget) parked_ops (cs, p)" "run fleet_step parked_ops ([], Some demo_budget) = Some (cs, p)"
    by (rule demo_run [OF wake_values(1)])
  obtain b W where b: "cs ! 0 = (b, W)" by fastforce
  have v: "length cs = 2" "wake b = Some 0"
      "map_option (\<lambda>(out, b', _). (out, unblocks b b', wakeClosed b' 0)) (ack_exec AReset (b, p, W)) = Some (ODone, True, True)"
    using wake_values(2) r(2) b by (simp_all del: ack_exec.simps)
  then obtain b' p' W' where x: "ack_exec AReset (b, p, W) = Some (ODone, b', p', W')" "unblocks b b'" by (auto simp del: ack_exec.simps)
  have "ack_pre AReset (b, p, W)" by simp
  from blocked_calls_wake [OF r(1) _ b this x(1) v(2) x(2)] show ?thesis using r(2) b v(1,2) x by auto
qed

section \<open>Draining\<close>

lemma live_count: "length (filter (\<lambda>s. s \<noteq> Gone) (slots b)) = length (live_messages (window_of b))"
proof -
  have "length (filter (\<lambda>s. s \<noteq> Gone) ss) = length (concat (map (\<lambda>s. case s of Live m lim \<Rightarrow> [m] | Gone \<Rightarrow> []) ss))" for ss
    by (induction ss) (auto split: slot.splits)
  then show ?thesis by (simp add: live_messages_def)
qed

lemma live_last:
  assumes "l < length ss" and "ss ! l = Live m lim" and "\<forall>j. l < j \<and> j < length ss \<longrightarrow> ss ! j = Gone"
  shows "concat (map (\<lambda>s. case s of Live m lim \<Rightarrow> [m] | Gone \<Rightarrow> []) ss) =
     concat (map (\<lambda>s. case s of Live m lim \<Rightarrow> [m] | Gone \<Rightarrow> []) (take l ss)) @ [m]"
proof -
  have "s = Gone" if "s \<in> set (drop (Suc l) ss)" for s
    using assms(1,3) that by (auto simp: in_set_conv_nth)
  then have "concat (map (\<lambda>s. case s of Live m lim \<Rightarrow> [m] | Gone \<Rightarrow> []) (drop (Suc l) ss)) = []" by (auto split: slot.splits)
  then show ?thesis using assms(2) by (subst id_take_nth_drop [OF assms(1)]) simp
qed

lemma live_ends:
  assumes "sound b" and "nfree b \<noteq> 0" and "last_live l b"
  shows "live_messages (window_of b) \<noteq> [] \<and> SeqNum (hd (live_messages (window_of b))) = firstSeqNum b \<and>
     SeqNum (last (live_messages (window_of b))) = firstSeqNum b + of_nat l"
proof -
  have s: "slots_ok b" "firstSeqNum b \<notin> retired b" using assms(1) by (simp_all add: sound_def)
  note n = numbered_window [OF s(1), unfolded numbered_def]
  obtain m lim where m: "l < length (slots b)" "slots b ! l = Live m lim" "\<forall>j. l < j \<and> j < length (slots b) \<longrightarrow> slots b ! j = Gone"
    using assms(3) by (cases "slots b ! l") (auto simp: last_live_def)
  obtain m0 lim0 where m0: "slots b ! 0 = Live m0 lim0" using s(2) assms(2) by (simp add: slot_at_def)
  then obtain ss where ss: "slots b = Live m0 lim0 # ss" using m(1) by (cases "slots b") auto
  have "SeqNum m = firstSeqNum b + of_nat l" "SeqNum m0 = firstSeqNum b" using n m(1,2) m0 assms(2) by (auto dest!: spec [of _ 0])
  moreover have "hd (live_messages (window_of b)) = m0" by (simp add: live_messages_def ss)
  moreover have "last (live_messages (window_of b)) = m" "live_messages (window_of b) \<noteq> []"
    using live_last [OF m] by (simp_all add: live_messages_def)
  ultimately show ?thesis by simp
qed

text \<open>
  C14: an iteration of \<open>drain\<close> decides and reports exactly. It succeeds when nothing is buffered; it
  fails when something is and the buffer is closed or the caller's context has ended, and the error
  names the number of frames that are neither acknowledged nor retired, the first and the last
  sequence number among them, and the cause; in every other case it waits, on a channel that is open.
\<close>

theorem drain_exact:
  assumes "fleet_reaches p0 ops (cs, p)" and "i < length cs" and "cs ! i = (b, W)"
  defines "ms \<equiv> live_messages (window_of b)"
  shows "\<exists>r b'. drain_iteration ctxErr b = Some (r, b') \<and>
    (if nextIndexFree b = 0 then r = Drained
     else if isClosed b \<or> ctxErr \<noteq> None then ms \<noteq> [] \<and>
       r = DrainFailed \<lparr>Unacked = int (length ms), FirstSeq = SeqNum (hd ms), LastSeq = SeqNum (last ms),
             Err = (if isClosed b then ErrorClosed else the ctxErr)\<rparr>
     else \<exists>c. r = DrainWaits c \<and> wake b' = Some c \<and> \<not> wakeClosed b' c)"
proof -
  have s: "sound b" using reaches_sound [OF assms(1-3)] .
  have "ack_pre (ADrain ctxErr) (b, p, W)" by simp
  from fleet_exec [OF assms(1-3) this] obtain r b' where r: "drain_iteration ctxErr b = Some (r, b')" "drain_spec ctxErr r b b'" "sound b'" by auto
  show ?thesis
  proof (cases "nfree b = 0")
    case True
    then show ?thesis using r(1,2) by (auto simp: drain_spec_def unat_eq_0)
  next
    case ne: False
    show ?thesis
    proof (cases "isClosed b \<or> ctxErr \<noteq> None")
      case True
      then obtain l where "r = DrainFailed \<lparr>Unacked = int (length (filter (\<lambda>s. s \<noteq> Gone) (slots b))), FirstSeq = firstSeqNum b,
          LastSeq = firstSeqNum b + of_nat l, Err = (if isClosed b then ErrorClosed else the ctxErr)\<rparr>" "last_live l b"
        using r(2) ne by (auto simp: drain_spec_def)
      then show ?thesis using r(1) True ne live_ends [OF s ne] by (simp add: live_count ms_def unat_eq_0)
    next
      case False
      then obtain c where "r = DrainWaits c" "wake b' = Some c" using r(2) ne by (auto simp: drain_spec_def)
      then show ?thesis using r(1,3) False ne slots_okD(6) [of b'] by (auto simp: sound_def wake_ok_def unat_eq_0)
    qed
  qed
qed

definition drain_ops :: "fleet_op list" where
  "drain_ops = shared_ops @ [FOp 0 ASeal]"

lemma drain_admissible: "admissible fleet_step fleet_pre drain_ops ([], Some demo_budget)"
  by code_simp

lemma drain_values:
  "map_option (\<lambda>(cs, p). let (b, W) = cs ! 0 in (length cs, map_option fst (drain_iteration (Some ErrorBufferFull) b)))
     (run fleet_step drain_ops ([], Some demo_budget)) =
   Some (2, Some (DrainFailed \<lparr>Unacked = 2, FirstSeq = 1, LastSeq = 2, Err = ErrorBufferFull\<rparr>))"
  by code_simp

theorem drain_exact_witness:
  "\<exists>cs p b W. run fleet_step drain_ops ([], Some demo_budget) = Some (cs, p) \<and> cs ! 0 = (b, W) \<and>
     map_option fst (drain_iteration (Some ErrorBufferFull) b) = Some (DrainFailed \<lparr>Unacked = 2, FirstSeq = 1, LastSeq = 2, Err = ErrorBufferFull\<rparr>) \<and>
     length (live_messages (window_of b)) = 2 \<and> SeqNum (hd (live_messages (window_of b))) = 1 \<and> SeqNum (last (live_messages (window_of b))) = 2"
proof -
  obtain cs p where r: "fleet_reaches (Some demo_budget) drain_ops (cs, p)" "run fleet_step drain_ops ([], Some demo_budget) = Some (cs, p)"
    by (rule demo_run [OF drain_admissible])
  obtain b W where b: "cs ! 0 = (b, W)" by fastforce
  have v: "length cs = 2" "map_option fst (drain_iteration (Some ErrorBufferFull) b) =
      Some (DrainFailed \<lparr>Unacked = 2, FirstSeq = 1, LastSeq = 2, Err = ErrorBufferFull\<rparr>)"
    using drain_values r(2) b by simp_all
  from drain_exact [OF r(1) _ b, of "Some ErrorBufferFull"] show ?thesis using r(2) b v by (auto split: if_splits)
qed

section \<open>Flow control\<close>

lemma half_capacity_div: "n < 9007199254740992 \<Longrightarrow> half_capacity n = n div 2"
proof -
  assume "n < 9007199254740992"
  then have "uint n < 2 ^ 53" by (simp add: word_less_alt)
  then have "half_capacity n = word_of_int (uint n div uint (2 :: u64))" by (simp add: half_capacity_def float64_of_def)
  also have "\<dots> = n div 2" by (simp only: word_div_def)
  finally show ?thesis .
qed

lemma UpdateCapacity_every:
  assumes "UpdateCapacity n b = Some b'" and "n \<noteq> currentCapacity b"
  shows "ackEvery b' = (if half_capacity n = 0 then 1 else half_capacity n)"
  using assms by (auto simp: UpdateCapacity_def Let_def Option.bind_eq_Some_conv split: if_splits)

text \<open>
  C16: a \<open>FLOW\<close> message only changes the flow: with a window size that can be allocated,
  \<open>UpdateCapacity\<close> returns, keeps every buffered message, sets the capacity, asks for an
  acknowledgement every \<open>max 1 (n / 2)\<close> messages (the detour over \<open>float64\<close> is exact) and opens
  or closes admission by the new capacity.
\<close>

theorem UpdateCapacity_exact:
  assumes "fleet_reaches p0 ops (cs, p)" and "i < length cs" and "cs ! i = (b, W)" and "make_ok n"
  shows "\<exists>b'. UpdateCapacity n b = Some b' \<and> window_of b' = window_of b \<and> GetUnAcked b' = GetUnAcked b \<and> GetCurrentCapacity b' = n \<and>
    (n \<noteq> currentCapacity b \<longrightarrow> ackEvery b' = (if n < 2 then 1 else n div 2)) \<and>
    (Event_IsSet (isAvailable b') \<longleftrightarrow> nextIndexFree b < n)"
proof -
  have s: "slots_ok b" using reaches_sound [OF assms(1-3)] by (simp add: sound_def)
  have "ack_pre (ACapacity n) (b, p, W)" using assms(4) by simp
  from fleet_exec [OF assms(1-3) this] obtain b' where u: "UpdateCapacity n b = Some b'" "idle b b'" "currentCapacity b' = n" "slots_ok b'"
    by (auto simp: sound_def)
  have w: "window_of b' = window_of b" using u(2) by (simp add: idle_def)
  then have "nextIndexFree b' = nextIndexFree b" using window_eqD [OF w] by (simp add: word_unat_eq_iff)
  moreover have "GetUnAcked b' = GetUnAcked b" using GetUnAcked_live [OF u(4)] GetUnAcked_live [OF s] w by simp
  moreover have "ev_v (isAvailable b') \<longleftrightarrow> nextIndexFree b' < n" using slots_okD(2) [OF u(4)] u(3) by (simp add: ev_ok_def)
  moreover have "half_capacity n = n div 2"
    by (rule half_capacity_div) (use assms(4) in \<open>simp add: make_ok_def word_le_nat_alt word_less_nat_alt\<close>)
  moreover have "n div 2 = 0 \<longleftrightarrow> n < 2" by (auto simp: word_less_nat_alt unat_div word_unat_eq_iff)
  ultimately show ?thesis using u UpdateCapacity_every [OF u(1)] w by (auto simp: GetCurrentCapacity_def Event_IsSet_def)
qed

theorem UpdateCapacity_exact_witness:
  "\<exists>cs p b W b'. run fleet_step shared_ops ([], Some demo_budget) = Some (cs, p) \<and> cs ! 0 = (b, W) \<and>
     UpdateCapacity 9 b = Some b' \<and> GetCurrentCapacity b' = 9 \<and> window_of b' = window_of b"
proof -
  obtain cs p b W where s: "fleet_reaches (Some demo_budget) shared_ops (cs, p)" "run fleet_step shared_ops ([], Some demo_budget) = Some (cs, p)"
    "0 < length cs" "cs ! 0 = (b, W)" by (rule shared_state)
  have "make_ok 9" by code_simp
  from UpdateCapacity_exact [OF s(1,3,4) this] show ?thesis using s(2,4) by blast
qed

section \<open>Divergences\<close>





end
