(* ===== verification/Protocol.thy ===== *)
theory Protocol
  imports Messages "HOL-Library.List_Lexorder" "HOL-Library.Char_ord"
begin

text \<open>
  \<open>protocol/mapping.go\<close>, \<open>protocol/indexing.go\<close> and \<open>protocol/auth.go\<close>: the descriptors a client
  sends in its connection header, their JSON form and their validation. A JSON document is its
  tree. A Go map is the list of its entries in increasing key order, which is the order in
  which \<open>json.Marshal\<close> writes them, and a nil map or slice is the empty one, since the source
  only asks for lengths. Regular expressions, grok patterns and the time zone database are
  parameters.
\<close>

section \<open>JSON documents\<close>

text \<open>A number is its \<open>float64\<close>, by its bits.\<close>

datatype json = VNull | VBool bool | VNum u64 | VStr string | VArr "json list" | VObj "(string \<times> json) list"

text \<open>The assignment \<open>m[k] = v\<close>.\<close>

fun put :: "string \<Rightarrow> 'v \<Rightarrow> (string \<times> 'v) list \<Rightarrow> (string \<times> 'v) list" where
  "put k v [] = [(k, v)]"
| "put k v ((k', v') # m) = (if k = k' then (k, v) # m else if k < k' then (k, v) # (k', v') # m else (k', v') # put k v m)"

definition put_all :: "(string \<times> 'v) list \<Rightarrow> (string \<times> 'v) list \<Rightarrow> (string \<times> 'v) list" where
  "put_all kvs m = fold (\<lambda>(k, v). put k v) kvs m"

text \<open>\<open>json.Unmarshal\<close> into an \<open>interface{}\<close>: of two entries with the same key the last one stays.\<close>

primrec go_value :: "json \<Rightarrow> json" where
  "go_value VNull = VNull"
| "go_value (VBool b) = VBool b"
| "go_value (VNum x) = VNum x"
| "go_value (VStr s) = VStr s"
| "go_value (VArr xs) = VArr (map go_value xs)"
| "go_value (VObj kvs) = VObj (put_all (map (map_prod id go_value) kvs) [])"

definition go_map :: "(string \<times> json) list \<Rightarrow> (string \<times> json) list" where
  "go_map kvs = put_all (map (map_prod id go_value) kvs) []"

text \<open>
  The keys of a document select the fields of a struct up to letter case. Besides the ASCII
  letters two other runes fold to one, the Kelvin sign and the long s.
\<close>

definition upper :: "char \<Rightarrow> char" where
  "upper c = (if CHR ''a'' \<le> c \<and> c \<le> CHR ''z'' then char_of (of_char c - (32 :: nat)) else c)"

function foldName :: "string \<Rightarrow> string" where
  "foldName [] = []"
| "foldName (c # cs) =
     (if c = CHR 0xE2 \<and> take 2 cs = [CHR 0x84, CHR 0xAA] then CHR ''K'' # foldName (drop 2 cs)
      else if c = CHR 0xC5 \<and> take 1 cs = [CHR 0xBF] then CHR ''S'' # foldName (drop 1 cs)
      else upper c # foldName cs)"
  by pat_completeness auto
termination by (relation "measure length") auto

definition field_of :: "string list \<Rightarrow> string \<Rightarrow> string option" where
  "field_of names k = (if k \<in> set names then Some k else List.find (\<lambda>n. foldName n = foldName k) names)"

section \<open>Errors\<close>

datatype proto_error =
    ErrUnmarshalType string
  | ErrParseBool string
  | ErrIdentityType
  | ErrRegexp string
  | ErrGrok
  | ErrTimezone string

text \<open>\<open>strconv.ParseBool\<close>\<close>

definition ParseBool :: "string \<Rightarrow> proto_error + bool" where
  "ParseBool s =
     (if s \<in> {''1'', ''t'', ''T'', ''true'', ''TRUE'', ''True''} then Inr True
      else if s \<in> {''0'', ''f'', ''F'', ''false'', ''FALSE'', ''False''} then Inr False
      else Inl (ErrParseBool s))"

section \<open>Mapping descriptors\<close>

record FieldMapping =
  SourceField :: string
  DestinationField :: string

record MappingDescriptor =
  ParsingRE :: string
  ParsingGrok :: "(string \<times> string) list"
  SensorKeyPath :: string
  SensorIdentityType :: string
  SensorHostnamePath :: string
  EventTypePath :: string
  EventTimePath :: string
  EventTimeTimezone :: string
  InvestigationIDPath :: string
  IsRenameOnly :: bool
  Mappings :: "FieldMapping list"
  Transform :: "(string \<times> json) list"
  DropFields :: "string list"
  SensorIDReplicationPath :: string

definition zeroFieldMapping :: FieldMapping where
  "zeroFieldMapping = \<lparr>SourceField = [], DestinationField = []\<rparr>"

definition zeroMapping :: MappingDescriptor where
  "zeroMapping = \<lparr>ParsingRE = [], ParsingGrok = [], SensorKeyPath = [], SensorIdentityType = [], SensorHostnamePath = [],
     EventTypePath = [], EventTimePath = [], EventTimeTimezone = [], InvestigationIDPath = [], IsRenameOnly = False,
     Mappings = [], Transform = [], DropFields = [], SensorIDReplicationPath = []\<rparr>"

subsection \<open>Decoding\<close>

text \<open>
  A value stored into a field of each type: \<open>null\<close> leaves a string, a bool and a struct alone
  and empties a map and a slice; \<open>None\<close> is a type error. Maps are merged into.
\<close>

fun into_string :: "json \<Rightarrow> string \<Rightarrow> string option" where
  "into_string VNull s = Some s"
| "into_string (VStr t) s = Some t"
| "into_string _ s = None"

fun into_bool :: "json \<Rightarrow> bool \<Rightarrow> bool option" where
  "into_bool VNull b = Some b"
| "into_bool (VBool c) b = Some c"
| "into_bool _ b = None"

fun into_slice :: "(json \<Rightarrow> 'a option) \<Rightarrow> json \<Rightarrow> 'a list option" where
  "into_slice f VNull = Some []"
| "into_slice f (VArr vs) = those (map f vs)"
| "into_slice f _ = None"

fun into_entries :: "(json \<Rightarrow> 'a option) \<Rightarrow> (string \<times> json) list \<Rightarrow> (string \<times> 'a) list \<Rightarrow> (string \<times> 'a) list option" where
  "into_entries f [] m = Some m"
| "into_entries f ((k, v) # kvs) m = Option.bind (f v) (\<lambda>x. into_entries f kvs (put k x m))"

fun into_map :: "(json \<Rightarrow> 'a option) \<Rightarrow> json \<Rightarrow> (string \<times> 'a) list \<Rightarrow> (string \<times> 'a) list option" where
  "into_map f VNull m = Some []"
| "into_map f (VObj kvs) m = into_entries f kvs m"
| "into_map f _ m = None"

fun into_struct :: "(string \<Rightarrow> json \<Rightarrow> 'a \<Rightarrow> 'a option) \<Rightarrow> (string \<times> json) list \<Rightarrow> 'a \<Rightarrow> proto_error + 'a" where
  "into_struct st [] x = Inr x"
| "into_struct st ((k, v) # kvs) x = (case st k v x of None \<Rightarrow> Inl (ErrUnmarshalType k) | Some y \<Rightarrow> into_struct st kvs y)"

definition store_field_mapping :: "string \<Rightarrow> json \<Rightarrow> FieldMapping \<Rightarrow> FieldMapping option" where
  "store_field_mapping k v fm =
     (case field_of [''src_field'', ''dst_field''] k of
        None \<Rightarrow> Some fm
      | Some n \<Rightarrow>
          if n = ''src_field'' then map_option (\<lambda>s. fm\<lparr>SourceField := s\<rparr>) (into_string v (SourceField fm))
          else map_option (\<lambda>s. fm\<lparr>DestinationField := s\<rparr>) (into_string v (DestinationField fm)))"

fun into_field_mapping :: "json \<Rightarrow> FieldMapping option" where
  "into_field_mapping VNull = Some zeroFieldMapping"
| "into_field_mapping (VObj kvs) = (case into_struct store_field_mapping kvs zeroFieldMapping of Inl _ \<Rightarrow> None | Inr fm \<Rightarrow> Some fm)"
| "into_field_mapping _ = None"

definition mapping_names :: "string list" where
  "mapping_names = [''parsing_re'', ''parsing_grok'', ''sensor_key_path'', ''sensor_identity_type'', ''sensor_hostname_path'',
     ''event_type_path'', ''event_time_path'', ''event_time_timezone'', ''investigation_id_path'', ''rename_only'',
     ''mappings'', ''transform'', ''drop_fields'', ''sid_replication_path'']"

definition store_named :: "string \<Rightarrow> json \<Rightarrow> MappingDescriptor \<Rightarrow> MappingDescriptor option" where
  "store_named n v d =
     (if n = ''parsing_re'' then map_option (\<lambda>x. d\<lparr>ParsingRE := x\<rparr>) (into_string v (ParsingRE d))
      else if n = ''parsing_grok'' then map_option (\<lambda>x. d\<lparr>ParsingGrok := x\<rparr>) (into_map (\<lambda>v. into_string v []) v (ParsingGrok d))
      else if n = ''sensor_key_path'' then map_option (\<lambda>x. d\<lparr>SensorKeyPath := x\<rparr>) (into_string v (SensorKeyPath d))
      else if n = ''sensor_identity_type'' then map_option (\<lambda>x. d\<lparr>SensorIdentityType := x\<rparr>) (into_string v (SensorIdentityType d))
      else if n = ''sensor_hostname_path'' then map_option (\<lambda>x. d\<lparr>SensorHostnamePath := x\<rparr>) (into_string v (SensorHostnamePath d))
      else if n = ''event_type_path'' then map_option (\<lambda>x. d\<lparr>EventTypePath := x\<rparr>) (into_string v (EventTypePath d))
      else if n = ''event_time_path'' then map_option (\<lambda>x. d\<lparr>EventTimePath := x\<rparr>) (into_string v (EventTimePath d))
      else if n = ''event_time_timezone'' then map_option (\<lambda>x. d\<lparr>EventTimeTimezone := x\<rparr>) (into_string v (EventTimeTimezone d))
      else if n = ''investigation_id_path'' then map_option (\<lambda>x. d\<lparr>InvestigationIDPath := x\<rparr>) (into_string v (InvestigationIDPath d))
      else if n = ''rename_only'' then map_option (\<lambda>x. d\<lparr>IsRenameOnly := x\<rparr>) (into_bool v (IsRenameOnly d))
      else if n = ''mappings'' then map_option (\<lambda>x. d\<lparr>Mappings := x\<rparr>) (into_slice into_field_mapping v)
      else if n = ''transform'' then map_option (\<lambda>x. d\<lparr>Transform := x\<rparr>) (into_map (\<lambda>v. Some (go_value v)) v (Transform d))
      else if n = ''drop_fields'' then map_option (\<lambda>x. d\<lparr>DropFields := x\<rparr>) (into_slice (\<lambda>v. into_string v []) v)
      else map_option (\<lambda>x. d\<lparr>SensorIDReplicationPath := x\<rparr>) (into_string v (SensorIDReplicationPath d)))"

text \<open>A key that names no field is ignored.\<close>

definition store_mapping :: "string \<Rightarrow> json \<Rightarrow> MappingDescriptor \<Rightarrow> MappingDescriptor option" where
  "store_mapping k v d = (case field_of mapping_names k of None \<Rightarrow> Some d | Some n \<Rightarrow> store_named n v d)"

text \<open>
  \<open>UnmarshalJSON\<close>: the document as a dictionary, the string of \<open>rename_only\<close> replaced by its
  bool, then the dictionary into the struct. A document that is neither an object nor \<open>null\<close>
  is a type error of the first pass.
\<close>

definition UnmarshalJSON :: "json \<Rightarrow> proto_error + MappingDescriptor" where
  "UnmarshalJSON data =
     (case data of
        VNull \<Rightarrow> Inr zeroMapping
      | VObj kvs \<Rightarrow>
          let d = go_map kvs in
          (case map_of d ''rename_only'' of
             Some (VStr ros) \<Rightarrow>
               (case ParseBool ros of
                  Inl e \<Rightarrow> Inl e
                | Inr b \<Rightarrow> into_struct store_mapping (put ''rename_only'' (VBool b) d) zeroMapping)
           | _ \<Rightarrow> into_struct store_mapping d zeroMapping)
      | _ \<Rightarrow> Inl (ErrUnmarshalType []))"

subsection \<open>Encoding\<close>

text \<open>The struct tags of the descriptor, as \<open>json.Marshal\<close> applies them; \<open>omitempty\<close> drops an empty value.\<close>

definition omitempty :: "bool \<Rightarrow> string \<Rightarrow> json \<Rightarrow> (string \<times> json) list" where
  "omitempty nonempty k v = (if nonempty then [(k, v)] else [])"

definition string_field :: "string \<Rightarrow> string \<Rightarrow> (string \<times> json) list" where
  "string_field k s = omitempty (s \<noteq> []) k (VStr s)"

definition field_mapping_json :: "FieldMapping \<Rightarrow> json" where
  "field_mapping_json fm = VObj [(''src_field'', VStr (SourceField fm)), (''dst_field'', VStr (DestinationField fm))]"

definition mapping_entries :: "MappingDescriptor \<Rightarrow> (string \<times> json) list" where
  "mapping_entries d =
     string_field ''parsing_re'' (ParsingRE d) @
     omitempty (ParsingGrok d \<noteq> []) ''parsing_grok'' (VObj (map (map_prod id VStr) (ParsingGrok d))) @
     string_field ''sensor_key_path'' (SensorKeyPath d) @
     string_field ''sensor_identity_type'' (SensorIdentityType d) @
     string_field ''sensor_hostname_path'' (SensorHostnamePath d) @
     string_field ''event_type_path'' (EventTypePath d) @
     string_field ''event_time_path'' (EventTimePath d) @
     string_field ''event_time_timezone'' (EventTimeTimezone d) @
     string_field ''investigation_id_path'' (InvestigationIDPath d) @
     omitempty (IsRenameOnly d) ''rename_only'' (VBool (IsRenameOnly d)) @
     omitempty (Mappings d \<noteq> []) ''mappings'' (VArr (map field_mapping_json (Mappings d))) @
     omitempty (Transform d \<noteq> []) ''transform'' (VObj (Transform d)) @
     omitempty (DropFields d \<noteq> []) ''drop_fields'' (VArr (map VStr (DropFields d))) @
     string_field ''sid_replication_path'' (SensorIDReplicationPath d)"

definition mapping_json :: "MappingDescriptor \<Rightarrow> json" where
  "mapping_json d = VObj (mapping_entries d)"

section \<open>Validation\<close>

definition ValidSensorIdentityType :: "string \<Rightarrow> bool" where
  "ValidSensorIdentityType t = (t \<in> {'''', ''email'', ''username'', ''github_login'', ''device''})"

text \<open>
  \<open>time.LoadLocation\<close>: two names need no database, names that could leave its directory are
  refused, and \<open>tz\<close> says which other names the database has.
\<close>

fun containsDotDot :: "string \<Rightarrow> bool" where
  "containsDotDot (c # d # cs) = (c = CHR ''.'' \<and> d = CHR ''.'' \<or> containsDotDot (d # cs))"
| "containsDotDot _ = False"

definition LoadLocation :: "(string \<Rightarrow> bool) \<Rightarrow> string \<Rightarrow> bool" where
  "LoadLocation tz name =
     (name = '''' \<or> name = ''UTC'' \<or> name = ''Local'' \<or>
      \<not> containsDotDot name \<and> hd name \<noteq> CHR ''/'' \<and> hd name \<noteq> CHR 0x5C \<and> tz name)"

text \<open>
  What the descriptors rely on: \<open>regexp_Compile\<close> and \<open>grok_NewComplete\<close> say what they accept;
  \<open>grok_AddPatterns\<close> is \<open>grok.New().AddPatterns\<close>.
\<close>

record library =
  regexp_Compile :: "string \<Rightarrow> bool"
  grok_NewComplete :: "(string \<times> string) list \<Rightarrow> bool"
  grok_AddPatterns :: "(string \<times> string) list \<Rightarrow> bool"
  tz_database :: "string \<Rightarrow> bool"

definition Mapping_Validate :: "library \<Rightarrow> MappingDescriptor \<Rightarrow> proto_error option" where
  "Mapping_Validate lib d =
     (if \<not> ValidSensorIdentityType (SensorIdentityType d) then Some ErrIdentityType
      else if ParsingRE d \<noteq> [] \<and> \<not> regexp_Compile lib (ParsingRE d) then Some (ErrRegexp (ParsingRE d))
      else if length (ParsingGrok d) > 0 \<and> \<not> grok_NewComplete lib (ParsingGrok d) then Some ErrGrok
      else if EventTimeTimezone d \<noteq> [] \<and> \<not> LoadLocation (tz_database lib) (EventTimeTimezone d)
      then Some (ErrTimezone (EventTimeTimezone d))
      else None)"

record IndexDescriptor =
  EventsIncluded :: "string list"
  EventsExcluded :: "string list"
  Path :: string
  Regexp :: string
  IndexType :: string

definition Index_Validate :: "library \<Rightarrow> IndexDescriptor \<Rightarrow> proto_error option" where
  "Index_Validate lib d = (if Regexp d \<noteq> [] \<and> \<not> regexp_Compile lib (Regexp d) then Some (ErrRegexp (Regexp d)) else None)"

section \<open>The connection header\<close>

definition CurrentVersion :: int where "CurrentVersion = 2"

record ConnectionHeader =
  HVersion :: int
  HOid :: string
  HInstallationKey :: string
  HHostname :: string
  HPlatform :: string
  HArchitecture :: string
  HMapping :: MappingDescriptor
  HMappings :: "MappingDescriptor list"
  HSensorSeedKey :: string
  HIsCompressed :: bool
  HDataFormat :: string
  HInstanceID :: string
  HIndexing :: "IndexDescriptor list"

section \<open>Entries in key order\<close>

lemma put_keys: "set (map fst (put k v m)) = insert k (set (map fst m))"
proof (induction m)
  case (Cons e m)
  then show ?case by (cases e) (simp, blast)
qed simp

lemma put_sorted: "sorted_wrt (<) (map fst m) \<Longrightarrow> sorted_wrt (<) (map fst (put k v m))"
proof (induction m)
  case (Cons e m)
  then show ?case using put_keys [of k v m] by (cases e) (auto simp del: put_keys)
qed simp

lemma put_mset: "k \<notin> set (map fst m) \<Longrightarrow> mset (put k v m) = add_mset (k, v) (mset m)"
  by (induction m) auto

lemma put_last: "\<forall>k' \<in> set (map fst m). k' < k \<Longrightarrow> put k v m = m @ [(k, v)]"
  by (induction m) auto

lemma put_all_mset:
  "distinct (map fst kvs) \<Longrightarrow> set (map fst kvs) \<inter> set (map fst m) = {} \<Longrightarrow> mset (put_all kvs m) = mset kvs + mset m"
proof (induction kvs arbitrary: m)
  case (Cons e kvs)
  obtain k v where e: "e = (k, v)" by fastforce
  have "mset (put_all kvs (put k v m)) = mset kvs + mset (put k v m)"
    using Cons.prems put_keys [of k v m] by (intro Cons.IH) (auto simp: e)
  then show ?case using Cons.prems by (simp add: put_all_def e put_mset)
qed (simp add: put_all_def)

lemma put_all_sorted: "sorted_wrt (<) (map fst m) \<Longrightarrow> sorted_wrt (<) (map fst (put_all kvs m))"
  by (induction kvs arbitrary: m) (auto simp: put_all_def put_sorted)

lemma put_all_append:
  assumes "sorted_wrt (<) (map fst (m @ kvs))"
  shows "put_all kvs m = m @ kvs"
  using assms
proof (induction kvs arbitrary: m)
  case (Cons e kvs)
  obtain k v where e: "e = (k, v)" by fastforce
  have "put k v m = m @ [(k, v)]" using Cons.prems by (intro put_last) (auto simp: e sorted_wrt_append)
  then show ?case using Cons.IH [of "m @ [(k, v)]"] Cons.prems by (simp add: put_all_def e)
qed (simp add: put_all_def)

lemma sorted_keys_distinct: "sorted_wrt (<) (map fst m) \<Longrightarrow> distinct (map fst (m :: (string \<times> 'v) list))"
  by (simp add: strict_sorted_iff)

lemma put_over:
  assumes "sorted_wrt (<) (map fst m)" and "map_of m k = Some v'"
  shows "mset (put k v m) = add_mset (k, v) (mset (filter (\<lambda>e. fst e \<noteq> k) m))"
  using assms
proof (induction m)
  case (Cons e m)
  obtain k' w where e: "e = (k', w)" by fastforce
  show ?case
  proof (cases "k = k'")
    case True
    then have "filter (\<lambda>e. fst e \<noteq> k) m = m" using Cons.prems(1) by (auto simp: e filter_id_conv)
    then show ?thesis using True by (simp add: e)
  next
    case False
    then have v: "map_of m k = Some v'" using Cons.prems(2) by (simp add: e)
    then have "k' < k" using Cons.prems(1) by (force simp: e dest: map_of_SomeD)
    then have "\<not> k < k'" by simp
    then show ?thesis using False Cons v by (simp add: e)
  qed
qed simp

end
