(* ===== verification/ProtocolProps.thy ===== *)
theory ProtocolProps
  imports Protocol
begin

text \<open>
  The JSON form of a mapping descriptor: what \<open>json.Marshal\<close> writes is read back by
  \<open>UnmarshalJSON\<close> field by field, whatever spelling \<open>rename_only\<close> has.
\<close>

section \<open>Documents as partial functions on the field names\<close>

definition present :: "(string \<Rightarrow> json option) \<Rightarrow> string list \<Rightarrow> (string \<times> json) list" where
  "present ent names = List.map_filter (\<lambda>n. map_option (Pair n) (ent n)) names"

lemma present_simps [simp]:
  "present ent [] = []"
  "present ent (n # ns) = (case ent n of None \<Rightarrow> [] | Some v \<Rightarrow> [(n, v)]) @ present ent ns"
  by (simp_all add: present_def List.map_filter_def split: option.split)

lemma present_keys: "map fst (present ent names) = filter (\<lambda>n. ent n \<noteq> None) names"
  by (induction names) (auto split: option.split)

lemma present_map: "present (\<lambda>n. map_option f (ent n)) names = map (map_prod id f) (present ent names)"
  by (induction names) (auto split: option.split)

lemma present_mset: "mset ns = mset names \<Longrightarrow> mset (present ent ns) = mset (present ent names)"
proof -
  have "present ent ns = map (\<lambda>n. (n, the (ent n))) (filter (\<lambda>n. ent n \<noteq> None) ns)" for ns
    by (induction ns) (auto split: option.split)
  then show "mset ns = mset names \<Longrightarrow> ?thesis" by simp
qed

lemma present_lookup: "map_of (present ent names) n = (if n \<in> set names then ent n else None)"
  by (induction names) (auto split: option.split)

lemma present_upd: "mset (present (ent(n \<mapsto> v)) names) =
   (if n \<in> set names \<and> distinct names then add_mset (n, v) (mset (filter (\<lambda>e. fst e \<noteq> n) (present ent names)))
    else mset (present (ent(n \<mapsto> v)) names))"
proof -
  have "present (ent(n \<mapsto> v)) ns = filter (\<lambda>e. fst e \<noteq> n) (present ent ns)" if "n \<notin> set ns" for ns
    using that by (induction ns) (auto split: option.split)
  then show ?thesis by (induction names) (auto split: option.split)
qed

lemma sorted_entries_unique:
  assumes "sorted_wrt (<) (map fst xs)" and "sorted_wrt (<) (map fst ys)" and "mset xs = mset (ys :: (string \<times> 'v) list)"
  shows "xs = ys"
proof (rule map_sorted_distinct_set_unique [of fst])
  show "inj_on fst (set xs \<union> set ys)"
    using sorted_keys_distinct [OF assms(1)] mset_eq_setD [OF assms(3)] by (simp add: distinct_map)
qed (use assms sorted_keys_distinct in \<open>auto simp: strict_sorted_iff dest: mset_eq_setD\<close>)

lemma put_all_present:
  assumes "mset kvs = mset (present ent names)" and "distinct names"
  shows "put_all kvs [] = present ent (sort names)"
proof (rule sorted_entries_unique)
  have "mset (map fst kvs) = mset (map fst (present ent names))" using assms(1) by (metis mset_map)
  then have "distinct (map fst kvs)" using assms(2) by (metis present_keys distinct_filter mset_eq_imp_distinct_iff)
  then show "mset (put_all kvs []) = mset (present ent (sort names))"
    using put_all_mset [of kvs "[]"] assms(1) present_mset [of "sort names" names ent] by simp
  show "sorted_wrt (<) (map fst (present ent (sort names)))"
    using assms(2) by (simp add: present_keys sorted_wrt_filter strict_sorted_iff)
qed (simp add: put_all_sorted)

lemma put_present:
  assumes "distinct names" and "n \<in> set names" and "ent n \<noteq> None"
  shows "put n v (present ent (sort names)) = present (ent(n \<mapsto> v)) (sort names)"
proof (rule sorted_entries_unique)
  have s: "sorted_wrt (<) (map fst (present e (sort names)))" for e
    using assms(1) by (simp add: present_keys sorted_wrt_filter strict_sorted_iff)
  then show "sorted_wrt (<) (map fst (put n v (present ent (sort names))))" by (rule put_sorted)
  show "sorted_wrt (<) (map fst (present (ent(n \<mapsto> v)) (sort names)))" by (rule s)
  show "mset (put n v (present ent (sort names))) = mset (present (ent(n \<mapsto> v)) (sort names))"
    using put_over [OF s, of ent n "the (ent n)" v] present_upd [of ent n v "sort names"] assms by (simp add: present_lookup)
qed

section \<open>The entries of a descriptor\<close>

definition entry_of :: "MappingDescriptor \<Rightarrow> string \<Rightarrow> json option" where
  "entry_of d n =
     (let str = (\<lambda>s. if s \<noteq> [] then Some (VStr s) else None) in
      if n = ''parsing_re'' then str (ParsingRE d)
      else if n = ''parsing_grok'' then if ParsingGrok d \<noteq> [] then Some (VObj (map (map_prod id VStr) (ParsingGrok d))) else None
      else if n = ''sensor_key_path'' then str (SensorKeyPath d)
      else if n = ''sensor_identity_type'' then str (SensorIdentityType d)
      else if n = ''sensor_hostname_path'' then str (SensorHostnamePath d)
      else if n = ''event_type_path'' then str (EventTypePath d)
      else if n = ''event_time_path'' then str (EventTimePath d)
      else if n = ''event_time_timezone'' then str (EventTimeTimezone d)
      else if n = ''investigation_id_path'' then str (InvestigationIDPath d)
      else if n = ''rename_only'' then if IsRenameOnly d then Some (VBool True) else None
      else if n = ''mappings'' then if Mappings d \<noteq> [] then Some (VArr (map field_mapping_json (Mappings d))) else None
      else if n = ''transform'' then if Transform d \<noteq> [] then Some (VObj (Transform d)) else None
      else if n = ''drop_fields'' then if DropFields d \<noteq> [] then Some (VArr (map VStr (DropFields d))) else None
      else if n = ''sid_replication_path'' then str (SensorIDReplicationPath d)
      else None)"

lemma mapping_entries_present: "mapping_entries d = present (entry_of d) mapping_names"
  by (simp add: mapping_entries_def mapping_names_def entry_of_def string_field_def omitempty_def if_distrib [of "case_option _ _"] cong: if_cong)

lemma mapping_names_distinct: "distinct mapping_names"
  by (simp add: mapping_names_def)

definition wf_mapping :: "MappingDescriptor \<Rightarrow> bool" where
  "wf_mapping d \<longleftrightarrow> sorted_wrt (<) (map fst (ParsingGrok d)) \<and> go_map (Transform d) = Transform d"

text \<open>The step of the decoder for one field name of the document.\<close>

definition stage :: "(string \<Rightarrow> json option) \<Rightarrow> string \<Rightarrow> MappingDescriptor \<Rightarrow> proto_error + MappingDescriptor" where
  "stage ent n x = into_struct store_mapping (case ent n of None \<Rightarrow> [] | Some v \<Rightarrow> [(n, v)]) x"

lemma into_struct_append:
  "into_struct st (xs @ ys) x = (case into_struct st xs x of Inl e \<Rightarrow> Inl e | Inr y \<Rightarrow> into_struct st ys y)"
  by (induction xs arbitrary: x) (auto split: option.split)

lemma into_struct_present:
  "into_struct store_mapping (present ent (n # ns)) x =
     (case stage ent n x of Inl e \<Rightarrow> Inl e | Inr y \<Rightarrow> into_struct store_mapping (present ent ns) y)"
  by (simp add: into_struct_append stage_def)

lemma sort_mapping_names:
  "sort mapping_names = [''drop_fields'', ''event_time_path'', ''event_time_timezone'', ''event_type_path'', ''investigation_id_path'',
     ''mappings'', ''parsing_grok'', ''parsing_re'', ''rename_only'', ''sensor_hostname_path'', ''sensor_identity_type'',
     ''sensor_key_path'', ''sid_replication_path'', ''transform'']"
  by code_simp

abbreviation doc_of :: "MappingDescriptor \<Rightarrow> string \<Rightarrow> json option" where
  "doc_of d \<equiv> \<lambda>n. map_option go_value (entry_of d n)"

lemmas stage_defs = stage_def entry_of_def store_mapping_def field_of_def mapping_names_def store_named_def zeroMapping_def

lemma stage_strings:
  "ParsingRE x = [] \<Longrightarrow> stage (doc_of d) ''parsing_re'' x = Inr (x\<lparr>ParsingRE := ParsingRE d\<rparr>)"
  "SensorKeyPath x = [] \<Longrightarrow> stage (doc_of d) ''sensor_key_path'' x = Inr (x\<lparr>SensorKeyPath := SensorKeyPath d\<rparr>)"
  "SensorIdentityType x = [] \<Longrightarrow> stage (doc_of d) ''sensor_identity_type'' x = Inr (x\<lparr>SensorIdentityType := SensorIdentityType d\<rparr>)"
  "SensorHostnamePath x = [] \<Longrightarrow> stage (doc_of d) ''sensor_hostname_path'' x = Inr (x\<lparr>SensorHostnamePath := SensorHostnamePath d\<rparr>)"
  "EventTypePath x = [] \<Longrightarrow> stage (doc_of d) ''event_type_path'' x = Inr (x\<lparr>EventTypePath := EventTypePath d\<rparr>)"
  "EventTimePath x = [] \<Longrightarrow> stage (doc_of d) ''event_time_path'' x = Inr (x\<lparr>EventTimePath := EventTimePath d\<rparr>)"
  "EventTimeTimezone x = [] \<Longrightarrow> stage (doc_of d) ''event_time_timezone'' x = Inr (x\<lparr>EventTimeTimezone := EventTimeTimezone d\<rparr>)"
  "InvestigationIDPath x = [] \<Longrightarrow> stage (doc_of d) ''investigation_id_path'' x = Inr (x\<lparr>InvestigationIDPath := InvestigationIDPath d\<rparr>)"
  "SensorIDReplicationPath x = [] \<Longrightarrow> stage (doc_of d) ''sid_replication_path'' x = Inr (x\<lparr>SensorIDReplicationPath := SensorIDReplicationPath d\<rparr>)"
  by (simp_all add: stage_defs)

lemma stage_rename:
  "IsRenameOnly x = False \<Longrightarrow> stage (doc_of d) ''rename_only'' x = Inr (x\<lparr>IsRenameOnly := IsRenameOnly d\<rparr>)"
  "stage (ent(''rename_only'' \<mapsto> VBool b)) ''rename_only'' x = Inr (x\<lparr>IsRenameOnly := b\<rparr>)"
  by (simp_all add: stage_defs)

lemma those_map_Some: "(\<And>x. x \<in> set xs \<Longrightarrow> f (g x) = Some x) \<Longrightarrow> those (map f (map g xs)) = Some xs"
  by (induction xs) auto

lemma into_field_mapping_json: "into_field_mapping (go_value (field_mapping_json fm)) = Some fm"
  by (simp add: field_mapping_json_def put_all_def store_field_mapping_def field_of_def zeroFieldMapping_def)

lemma stage_slices:
  "Mappings x = [] \<Longrightarrow> stage (doc_of d) ''mappings'' x = Inr (x\<lparr>Mappings := Mappings d\<rparr>)"
  "DropFields x = [] \<Longrightarrow> stage (doc_of d) ''drop_fields'' x = Inr (x\<lparr>DropFields := DropFields d\<rparr>)"
  using those_map_Some [of "Mappings d" into_field_mapping "\<lambda>fm. go_value (field_mapping_json fm)"]
    those_map_Some [of "DropFields d" "\<lambda>v. into_string v []" "\<lambda>s. go_value (VStr s)"]
  by (simp_all add: stage_defs into_field_mapping_json comp_def)

lemma into_entries_map:
  assumes "\<And>k v. (k, v) \<in> set kvs \<Longrightarrow> f (g v) = Some v"
  shows "into_entries f (map (map_prod id g) kvs) m = Some (put_all kvs m)"
  using assms
proof (induction kvs arbitrary: m)
  case (Cons e kvs)
  obtain k v where e: "e = (k, v)" by fastforce
  have "f (g v) = Some v" using Cons.prems [of k v] by (simp add: e)
  moreover have "into_entries f (map (map_prod id g) kvs) (put k v m) = Some (put_all kvs (put k v m))"
    using Cons.prems e by (intro Cons.IH) (metis list.set_intros(2))
  ultimately show ?case by (simp add: e put_all_def id_def)
qed (simp add: put_all_def)

lemma map_VStr_sorted:
  assumes "sorted_wrt (<) (map fst kvs)"
  shows "go_value (VObj (map (map_prod id VStr) kvs)) = VObj (map (map_prod id VStr) kvs)"
proof -
  let ?xs = "map (map_prod id VStr) kvs"
  have "map (map_prod id go_value) ?xs = ?xs" by (auto simp: map_prod_def)
  then have "go_value (VObj ?xs) = VObj (put_all ?xs [])" by (simp only: go_value.simps)
  then show ?thesis using put_all_append [of "[]" ?xs] assms by (simp add: comp_def)
qed

lemma go_map_sorted: "sorted_wrt (<) (map fst (go_map kvs))"
  by (simp add: go_map_def put_all_sorted)

lemma go_map_fixed:
  assumes "go_map kvs = kvs" and "(k, v) \<in> set kvs"
  shows "go_value v = v"
proof -
  let ?xs = "map (map_prod id go_value) kvs"
  have s: "sorted_wrt (<) (map fst kvs)" using go_map_sorted [of kvs] assms(1) by simp
  then have "put_all ?xs [] = ?xs" using put_all_append [of "[]" ?xs] by (simp add: comp_def)
  then have "?xs = kvs" using assms(1) by (simp add: go_map_def)
  then have "(k, go_value v) \<in> set kvs" using assms(2) by (metis id_apply image_eqI list.set_map map_prod_simp)
  then show ?thesis using sorted_keys_distinct [OF s] assms(2) by (simp add: eq_key_imp_eq_value)
qed

lemma stage_maps:
  assumes "wf_mapping d"
  shows "ParsingGrok x = [] \<Longrightarrow> stage (doc_of d) ''parsing_grok'' x = Inr (x\<lparr>ParsingGrok := ParsingGrok d\<rparr>)"
    and "Transform x = [] \<Longrightarrow> stage (doc_of d) ''transform'' x = Inr (x\<lparr>Transform := Transform d\<rparr>)"
proof -
  have g: "sorted_wrt (<) (map fst (ParsingGrok d))" and t: "go_map (Transform d) = Transform d"
    using assms by (simp_all add: wf_mapping_def)
  have "into_entries (\<lambda>v. into_string v []) (map (map_prod id VStr) (ParsingGrok d)) [] = Some (ParsingGrok d)"
    using into_entries_map [of "ParsingGrok d" "\<lambda>v. into_string v []" VStr "[]"] put_all_append [of "[]" "ParsingGrok d"] g by simp
  then show "ParsingGrok x = [] \<Longrightarrow> stage (doc_of d) ''parsing_grok'' x = Inr (x\<lparr>ParsingGrok := ParsingGrok d\<rparr>)"
    by (simp add: stage_defs map_VStr_sorted [OF g] del: go_value.simps)
  have s: "sorted_wrt (<) (map fst (Transform d))" using go_map_sorted [of "Transform d"] t by simp
  have "into_entries (\<lambda>v. Some (go_value v)) (map (map_prod id id) (Transform d)) [] = Some (Transform d)"
    using into_entries_map [of "Transform d" "\<lambda>v. Some (go_value v)" id "[]"] put_all_append [of "[]" "Transform d"] s go_map_fixed [OF t] by simp
  moreover have "go_value (VObj (Transform d)) = VObj (Transform d)" using t by (simp add: go_map_def)
  ultimately show "Transform x = [] \<Longrightarrow> stage (doc_of d) ''transform'' x = Inr (x\<lparr>Transform := Transform d\<rparr>)"
    by (simp add: stage_defs prod.map_id0 del: go_value.simps)
qed

section \<open>The round trip\<close>

lemma stage_other: "n \<noteq> ''rename_only'' \<Longrightarrow> stage (ent(''rename_only'' \<mapsto> v)) n x = stage ent n x"
  by (simp add: stage_def)

lemma decode_document:
  assumes "wf_mapping d" and "ent = doc_of d \<or> ent = (doc_of d)(''rename_only'' \<mapsto> VBool (IsRenameOnly d))"
  shows "into_struct store_mapping (present ent (sort mapping_names)) zeroMapping = Inr d"
proof -
  have "stage ent n x = stage (doc_of d) n x" if "n \<noteq> ''rename_only''" for n x
    using assms(2) stage_other [OF that] by auto
  moreover have "stage ent ''rename_only'' x = Inr (x\<lparr>IsRenameOnly := IsRenameOnly d\<rparr>)" if "\<not> IsRenameOnly x" for x
    using assms(2) stage_rename that by auto
  ultimately show ?thesis
    unfolding sort_mapping_names into_struct_present
    by (simp add: stage_strings stage_slices stage_maps [OF assms(1)] zeroMapping_def)
qed

text \<open>The document of a descriptor with \<open>rename_only\<close> written as \<open>ro\<close>.\<close>

definition with_rename_only :: "json \<Rightarrow> MappingDescriptor \<Rightarrow> json" where
  "with_rename_only ro d = VObj (filter (\<lambda>e. fst e \<noteq> ''rename_only'') (mapping_entries d) @ [(''rename_only'', ro)])"

lemma go_map_present: "mset kvs = mset (present ent mapping_names) \<Longrightarrow> go_map kvs = present (\<lambda>n. map_option go_value (ent n)) (sort mapping_names)"
  unfolding go_map_def
  by (intro put_all_present) (simp_all add: present_map mapping_names_distinct)

text \<open>
  C30: a mapping descriptor survives the wire: \<open>UnmarshalJSON\<close> reads back what \<open>json.Marshal\<close> writes
  for it, and the same document with \<open>rename_only\<close> given as a bool, or as any string that
  \<open>strconv.ParseBool\<close> reads as that bool, decodes to the same descriptor.
\<close>

theorem UnmarshalJSON_roundtrip:
  assumes "wf_mapping d" and "ro = VBool (IsRenameOnly d) \<or> (\<exists>s. ro = VStr s \<and> ParseBool s = Inr (IsRenameOnly d))"
  shows "UnmarshalJSON (mapping_json d) = Inr d \<and> UnmarshalJSON (with_rename_only ro d) = Inr d"
proof
  have n: "''rename_only'' \<in> set (sort mapping_names)" by (simp add: mapping_names_def)
  have d: "go_map (mapping_entries d) = present (doc_of d) (sort mapping_names)"
    by (rule go_map_present) (simp add: mapping_entries_present)
  have "map_of (go_map (mapping_entries d)) ''rename_only'' = doc_of d ''rename_only''"
    unfolding d present_lookup using n by simp
  then have "map_of (go_map (mapping_entries d)) ''rename_only'' = (if IsRenameOnly d then Some (VBool True) else None)"
    by (simp add: entry_of_def)
  then show "UnmarshalJSON (mapping_json d) = Inr d"
    using decode_document [OF assms(1), of "doc_of d"] by (simp add: UnmarshalJSON_def mapping_json_def d)
next
  let ?e = "(doc_of d)(''rename_only'' \<mapsto> ro)"
  let ?b = "(doc_of d)(''rename_only'' \<mapsto> VBool (IsRenameOnly d))"
  have n: "''rename_only'' \<in> set mapping_names" by (simp add: mapping_names_def)
  have "go_map (filter (\<lambda>e. fst e \<noteq> ''rename_only'') (mapping_entries d) @ [(''rename_only'', ro)]) =
      present (\<lambda>n. map_option go_value (((entry_of d)(''rename_only'' \<mapsto> ro)) n)) (sort mapping_names)"
    using present_upd [of "entry_of d" "''rename_only''" ro mapping_names] n mapping_names_distinct
    by (intro go_map_present) (simp add: mapping_entries_present del: fun_upd_apply)
  also have "(\<lambda>n. map_option go_value (((entry_of d)(''rename_only'' \<mapsto> ro)) n)) = ?e" using assms(2) by fastforce
  finally have u: "UnmarshalJSON (with_rename_only ro d) =
     (case ?e ''rename_only'' of
        Some (VStr ros) \<Rightarrow> (case ParseBool ros of Inl e \<Rightarrow> Inl e
          | Inr b \<Rightarrow> into_struct store_mapping (put ''rename_only'' (VBool b) (present ?e (sort mapping_names))) zeroMapping)
      | _ \<Rightarrow> into_struct store_mapping (present ?e (sort mapping_names)) zeroMapping)"
    using n by (simp add: UnmarshalJSON_def with_rename_only_def Let_def present_lookup del: fun_upd_apply)
  have "put ''rename_only'' v (present ?e (sort mapping_names)) = present ((doc_of d)(''rename_only'' \<mapsto> v)) (sort mapping_names)" for v
    using put_present [OF mapping_names_distinct n, of ?e v] by simp
  then show "UnmarshalJSON (with_rename_only ro d) = Inr d"
    using assms(2) decode_document [OF assms(1), of ?b] by (auto simp: u)
qed

definition demo_mapping :: MappingDescriptor where
  "demo_mapping = zeroMapping\<lparr>ParsingGrok := [(''a'', ''%{IP:x}''), (''message'', ''%{a}'')], IsRenameOnly := True,
     Mappings := [\<lparr>SourceField = ''s'', DestinationField = ''d''\<rparr>], Transform := [(''k'', VObj [(''x'', VArr [VNum 1, VNull])])]\<rparr>"

theorem UnmarshalJSON_roundtrip_witness:
  "UnmarshalJSON (mapping_json demo_mapping) = Inr demo_mapping \<and> UnmarshalJSON (with_rename_only (VStr ''T'') demo_mapping) = Inr demo_mapping"
  by (rule UnmarshalJSON_roundtrip)
    (simp_all add: demo_mapping_def zeroMapping_def wf_mapping_def go_map_def put_all_def ParseBool_def)

end
