(* ===== verification/ClientOptions.thy ===== *)
theory ClientOptions
  imports Protocol AckBuffer
begin

text \<open>
  The options of a client (\<open>client.go\<close>): their defaults, their validation, the checks
  \<open>NewClient\<close> makes on its own, the connection header, and the dialer through an HTTP proxy with
  the outcomes of its I/O as inputs. \<open>url.Parse\<close> is a parameter; of its result the source
  uses the user information, the host and the host name.
\<close>

section \<open>Data\<close>

record Identity =
  Oid :: string
  InstallationKey :: string

text \<open>A \<open>time.Duration\<close> is its number of nanoseconds.\<close>

definition Second :: int where "Second = 1000000000"

record ProxyOptions =
  URL :: string
  Username :: string
  Password :: string
  HandshakeTimeout :: int
  ConnectTimeout :: int
  ReadWriteTimeout :: int

text \<open>The callbacks are code of the caller. \<open>GenURL\<close> is nil or yields the address of the next dial.\<close>

record ClientOptions =
  Identity :: Identity
  Hostname :: string
  Platform :: string
  Architecture :: string
  Mapping :: MappingDescriptor
  OMappings :: "MappingDescriptor list"
  Indexing :: "IndexDescriptor list"
  BufferOptions :: AckBufferOptions
  IsCompressed :: bool
  SensorSeedKey :: string
  DestURL :: string
  GenURL :: bool
  TestSinkMode :: bool
  Proxy :: ProxyOptions

record parsed_url =
  url_User :: bool
  url_Host :: string
  url_Hostname :: string

record net_library = library +
  url_Parse :: "string \<Rightarrow> parsed_url option"

datatype client_error =
    ErrMissingOid
  | ErrMissingInstallationKey
  | ErrMissingPlatform
  | ErrProxyURL
  | ErrProxyCredentials
  | ErrProxyAuthentication
  | ErrIndexDescriptor nat proto_error
  | ErrMappingDescriptor "nat option" proto_error
  | ErrMappingIdentity
  | ErrMappingsIdentity
  | ErrMappingsParser nat
  | ErrMappingsRE nat
  | ErrMappingsGrok nat
  | ErrMappingRE
  | ErrMappingGrok
  | ErrOrganization
  | ErrSiteURL
  | ErrCertificate
  | ErrProxyIO string
  | ErrBuffer go_error
  | ErrClientClosing
  | ErrCanceled
  | ErrIO string
  | ErrReconnectRequested
  | ErrServer string
  | ErrUnknownVerb string

section \<open>Defaults and validation\<close>

definition normalizeProxyConfig :: "ClientOptions \<Rightarrow> ClientOptions" where
  "normalizeProxyConfig o1 =
     (let p = Proxy o1;
          p = (if HandshakeTimeout p = 0 then p\<lparr>HandshakeTimeout := 45 * Second\<rparr> else p);
          p = (if ConnectTimeout p = 0 then p\<lparr>ConnectTimeout := 10 * Second\<rparr> else p);
          p = (if ReadWriteTimeout p = 0 then p\<lparr>ReadWriteTimeout := 30 * Second\<rparr> else p)
      in o1\<lparr>Proxy := p\<rparr>)"

text \<open>A loop over descriptors that returns at the first error, with its index.\<close>

fun first_error :: "('a \<Rightarrow> 'e option) \<Rightarrow> nat \<Rightarrow> 'a list \<Rightarrow> (nat \<times> 'e) option" where
  "first_error f i [] = None"
| "first_error f i (x # xs) = (case f x of Some e \<Rightarrow> Some (i, e) | None \<Rightarrow> first_error f (Suc i) xs)"

definition proxy_error :: "net_library \<Rightarrow> ProxyOptions \<Rightarrow> client_error option" where
  "proxy_error lib p =
     (if URL p = [] then None
      else case url_Parse lib (URL p) of
        None \<Rightarrow> Some ErrProxyURL
      | Some u \<Rightarrow>
          if url_User u then Some ErrProxyCredentials
          else if (Username p \<noteq> [] \<and> Password p = []) \<or> (Username p = [] \<and> Password p \<noteq> []) then Some ErrProxyAuthentication
          else None)"

definition Validate :: "net_library \<Rightarrow> ClientOptions \<Rightarrow> client_error option" where
  "Validate lib opts =
     (if Oid (Identity opts) = [] then Some ErrMissingOid
      else if InstallationKey (Identity opts) = [] then Some ErrMissingInstallationKey
      else if Platform opts = [] then Some ErrMissingPlatform
      else case proxy_error lib (Proxy opts) of
        Some e \<Rightarrow> Some e
      | None \<Rightarrow>
        (case first_error (Index_Validate (library.truncate lib)) 0 (Indexing opts) of
           Some (i, e) \<Rightarrow> Some (ErrIndexDescriptor i e)
         | None \<Rightarrow>
             if length (OMappings opts) \<noteq> 0 then
               (case first_error (Mapping_Validate (library.truncate lib)) 0 (OMappings opts) of
                  Some (i, e) \<Rightarrow> Some (ErrMappingDescriptor (Some i) e)
                | None \<Rightarrow> None)
             else
               (case Mapping_Validate (library.truncate lib) (Mapping opts) of
                  Some e \<Rightarrow> Some (ErrMappingDescriptor None e)
                | None \<Rightarrow> None)))"

text \<open>The body of the loop of \<open>NewClient\<close> over the mappings.\<close>

fun check_mappings :: "net_library \<Rightarrow> nat \<Rightarrow> MappingDescriptor list \<Rightarrow> client_error option" where
  "check_mappings lib i [] = None"
| "check_mappings lib i (m # ms) =
     (if ParsingRE m = [] \<and> length (ParsingGrok m) = 0 then Some (ErrMappingsParser i)
      else if ParsingRE m \<noteq> [] \<and> \<not> regexp_Compile lib (ParsingRE m) then Some (ErrMappingsRE i)
      else if length (ParsingGrok m) > 0 \<and> \<not> grok_AddPatterns lib (ParsingGrok m) then Some (ErrMappingsGrok i)
      else check_mappings lib (Suc i) ms)"

definition NewClient_checks :: "net_library \<Rightarrow> ClientOptions \<Rightarrow> client_error option" where
  "NewClient_checks lib opts =
     (if \<not> ValidSensorIdentityType (SensorIdentityType (Mapping opts)) then Some ErrMappingIdentity
      else if \<not> list_all (\<lambda>m. ValidSensorIdentityType (SensorIdentityType m)) (OMappings opts) then Some ErrMappingsIdentity
      else case check_mappings lib 0 (OMappings opts) of
        Some e \<Rightarrow> Some e
      | None \<Rightarrow>
          if ParsingRE (Mapping opts) \<noteq> [] \<and> \<not> regexp_Compile lib (ParsingRE (Mapping opts)) then Some ErrMappingRE
          else if length (ParsingGrok (Mapping opts)) > 0 \<and> \<not> grok_AddPatterns lib (ParsingGrok (Mapping opts)) then Some ErrMappingGrok
          else None)"

section \<open>The connection header\<close>

definition connectionHeader :: "ClientOptions \<Rightarrow> string \<Rightarrow> ConnectionHeader" where
  "connectionHeader opts instanceID =
     \<lparr>HVersion = CurrentVersion, HOid = Oid (Identity opts), HInstallationKey = InstallationKey (Identity opts),
      HHostname = Hostname opts, HPlatform = Platform opts, HArchitecture = Architecture opts, HMapping = Mapping opts,
      HMappings = OMappings opts, HSensorSeedKey = SensorSeedKey opts, HIsCompressed = IsCompressed opts,
      HDataFormat = ''msgpack'', HInstanceID = instanceID, HIndexing = Indexing opts\<rparr>"

section \<open>The proxy dialer\<close>

text \<open>The websocket dialer: whether it tunnels through the proxy, its handshake timeout, and the server name of its TLS configuration.\<close>

record Dialer =
  dial_proxied :: bool
  dial_handshake :: int
  dial_tls :: "string option"

definition DefaultDialer :: Dialer where
  "DefaultDialer = \<lparr>dial_proxied = False, dial_handshake = 45 * Second, dial_tls = None\<rparr>"

text \<open>\<open>pem\<close> is whether the embedded certificate could be added to the pool.\<close>

definition createProxyDialer :: "net_library \<Rightarrow> bool \<Rightarrow> ClientOptions \<Rightarrow> string \<Rightarrow> client_error + Dialer" where
  "createProxyDialer lib pem opts wssURL =
     (if URL (Proxy opts) = [] then Inr DefaultDialer
      else case url_Parse lib (URL (Proxy opts)) of
        None \<Rightarrow> Inl ErrProxyURL
      | Some _ \<Rightarrow>
          let dialer = \<lparr>dial_proxied = True, dial_handshake = HandshakeTimeout (Proxy opts), dial_tls = None\<rparr> in
          (case url_Parse lib wssURL of
             None \<Rightarrow> Inr dialer
           | Some target \<Rightarrow>
               if url_Host target \<noteq> [] then
                 if \<not> pem then Inl ErrCertificate
                 else Inr (dialer\<lparr>dial_tls := Some (url_Hostname target)\<rparr>)
               else Inr dialer))"

text \<open>\<open>SetBasicAuth\<close>: the standard base 64 of \<open>username:password\<close>.\<close>

definition base64_digit :: "nat \<Rightarrow> char" where
  "base64_digit n = ''ABCDEFGHIJKLMNOPQRSTUVWXYZabcdefghijklmnopqrstuvwxyz0123456789+/'' ! (n mod 64)"

fun base64 :: "nat list \<Rightarrow> string" where
  "base64 (x # y # z # bs) =
     [base64_digit (x div 4), base64_digit (x mod 4 * 16 + y div 16), base64_digit (y mod 16 * 4 + z div 64), base64_digit z] @ base64 bs"
| "base64 [x, y] = [base64_digit (x div 4), base64_digit (x mod 4 * 16 + y div 16), base64_digit (y mod 16 * 4), CHR ''='']"
| "base64 [x] = [base64_digit (x div 4), base64_digit (x mod 4 * 16), CHR ''='', CHR ''='']"
| "base64 [] = []"

definition basicAuth :: "string \<Rightarrow> string \<Rightarrow> string" where
  "basicAuth user pass = ''Basic '' @ base64 (map of_char (user @ '':'' @ pass))"

text \<open>The headers of the CONNECT request; \<open>Get\<close> of a missing header is the empty string.\<close>

definition connect_headers :: "ProxyOptions \<Rightarrow> string \<rightharpoonup> string" where
  "connect_headers p =
     (if Username p \<noteq> [] \<and> Password p \<noteq> [] then
        let h = Map.empty(''Proxy-Authorization'' \<mapsto> '''');
            h = h(''Authorization'' \<mapsto> basicAuth (Username p) (Password p));
            auth = (case h ''Authorization'' of None \<Rightarrow> '''' | Some a \<Rightarrow> a)
        in if auth \<noteq> '''' then (h(''Proxy-Authorization'' \<mapsto> auth))(''Authorization'' := None) else h
      else Map.empty)"



section \<open>What validation guarantees\<close>

lemma normalize_timeouts:
  "HandshakeTimeout (Proxy (normalizeProxyConfig opts)) \<noteq> 0" "ConnectTimeout (Proxy (normalizeProxyConfig opts)) \<noteq> 0"
  "ReadWriteTimeout (Proxy (normalizeProxyConfig opts)) \<noteq> 0"
  by (simp_all add: normalizeProxyConfig_def Let_def Second_def)

lemma normalize_idem: "normalizeProxyConfig (normalizeProxyConfig opts) = normalizeProxyConfig opts"
  by (simp add: normalizeProxyConfig_def Let_def Second_def)

lemma normalize_checks: "NewClient_checks lib (normalizeProxyConfig opts) = NewClient_checks lib opts"
  by (simp add: NewClient_checks_def normalizeProxyConfig_def Let_def)

lemma first_error_None: "first_error f i xs = None \<longleftrightarrow> (\<forall>x \<in> set xs. f x = None)"
  by (induction xs arbitrary: i) (auto split: option.split)

definition parsers_ok :: "net_library \<Rightarrow> MappingDescriptor \<Rightarrow> bool" where
  "parsers_ok lib m \<longleftrightarrow> (ParsingRE m \<noteq> [] \<longrightarrow> regexp_Compile lib (ParsingRE m)) \<and> (ParsingGrok m \<noteq> [] \<longrightarrow> grok_AddPatterns lib (ParsingGrok m))"

lemma check_mappings_None:
  "check_mappings lib i ms = None \<longleftrightarrow> (\<forall>m \<in> set ms. (ParsingRE m \<noteq> [] \<or> ParsingGrok m \<noteq> []) \<and> parsers_ok lib m)"
  by (induction ms arbitrary: i) (auto simp: parsers_ok_def)

lemma NewClient_checks_None:
  "NewClient_checks lib opts = None \<longleftrightarrow>
     (\<forall>m \<in> insert (Mapping opts) (set (OMappings opts)). ValidSensorIdentityType (SensorIdentityType m) \<and> parsers_ok lib m) \<and>
     (\<forall>m \<in> set (OMappings opts). ParsingRE m \<noteq> [] \<or> ParsingGrok m \<noteq> [])"
  using check_mappings_None [of lib 0 "OMappings opts"]
  by (auto simp: NewClient_checks_def parsers_ok_def list_all_iff split: option.splits)

lemma Mapping_Validate_None:
  "Mapping_Validate (library.truncate lib) m = None \<longleftrightarrow>
     ValidSensorIdentityType (SensorIdentityType m) \<and> (ParsingRE m \<noteq> [] \<longrightarrow> regexp_Compile lib (ParsingRE m)) \<and>
     (ParsingGrok m \<noteq> [] \<longrightarrow> grok_NewComplete lib (ParsingGrok m)) \<and>
     (EventTimeTimezone m \<noteq> [] \<longrightarrow> LoadLocation (tz_database lib) (EventTimeTimezone m))"
  by (auto simp: Mapping_Validate_def library.defs)

text \<open>
  C31: options that \<open>Validate\<close> accepts pass the checks of \<open>NewClient\<close>, in the normalised form
  \<open>NewClient\<close> looks at, exactly when the grok patterns of every mapping are also accepted without the
  default set beside which \<open>Validate\<close> tried them, every one of several mappings names a parser, and
  the single mapping, which \<open>Validate\<close> skips when there are several, has a known identity type and a
  regular expression that compiles.
\<close>

theorem Validate_suffices:
  assumes "Validate lib opts = None"
  shows "NewClient_checks lib (normalizeProxyConfig opts) = None \<longleftrightarrow>
    (\<forall>m \<in> insert (Mapping opts) (set (OMappings opts)). ParsingGrok m \<noteq> [] \<longrightarrow> grok_AddPatterns lib (ParsingGrok m)) \<and>
    (OMappings opts \<noteq> [] \<longrightarrow> (\<forall>m \<in> set (OMappings opts). ParsingRE m \<noteq> [] \<or> ParsingGrok m \<noteq> []) \<and>
       ValidSensorIdentityType (SensorIdentityType (Mapping opts)) \<and>
       (ParsingRE (Mapping opts) \<noteq> [] \<longrightarrow> regexp_Compile lib (ParsingRE (Mapping opts))))"
proof -
  have "if OMappings opts = [] then Mapping_Validate (library.truncate lib) (Mapping opts) = None
      else \<forall>m \<in> set (OMappings opts). Mapping_Validate (library.truncate lib) m = None"
    using assms first_error_None [of "Mapping_Validate (library.truncate lib)" 0 "OMappings opts"]
    by (auto simp: Validate_def split: if_splits option.splits)
  then show ?thesis by (auto simp: normalize_checks NewClient_checks_None parsers_ok_def Mapping_Validate_None split: if_splits)
qed

definition demo_library :: net_library where
  "demo_library = \<lparr>regexp_Compile = (\<lambda>s. s \<noteq> ''(''), grok_NewComplete = list_all (\<lambda>(k, v). v \<noteq> []),
     grok_AddPatterns = list_all (\<lambda>(k, v). v \<noteq> [] \<and> k \<noteq> []),
     tz_database = (\<lambda>s. s = ''Europe/London''), url_Parse = (\<lambda>s. Some \<lparr>url_User = False, url_Host = s, url_Hostname = s\<rparr>)\<rparr>"

definition demo_options :: ClientOptions where
  "demo_options = \<lparr>Identity = \<lparr>Oid = ''o'', InstallationKey = ''k''\<rparr>, Hostname = ''h'', Platform = ''text'', Architecture = [],
     Mapping = zeroMapping, OMappings = [zeroMapping\<lparr>ParsingRE := ''(.*)'', EventTimeTimezone := ''Europe/London''\<rparr>, zeroMapping\<lparr>ParsingGrok := [(''message'', ''x'')]\<rparr>], Indexing = [],
     BufferOptions = \<lparr>OnBackPressure = False, OnAck = False, MaxBytes = 0, BudgetGroup = []\<rparr>, IsCompressed = False,
     SensorSeedKey = ''s'', DestURL = ''wss://d'', GenURL = False, TestSinkMode = False,
     Proxy = \<lparr>URL = ''http://p'', Username = ''u'', Password = ''w'', HandshakeTimeout = 0, ConnectTimeout = 0, ReadWriteTimeout = 0\<rparr>\<rparr>"

theorem Validate_suffices_witness:
  "Validate demo_library demo_options = None \<and> NewClient_checks demo_library (normalizeProxyConfig demo_options) = None"
proof
  show v: "Validate demo_library demo_options = None" by code_simp
  show "NewClient_checks demo_library (normalizeProxyConfig demo_options) = None"
    using Validate_suffices [OF v]
    by (simp add: demo_library_def demo_options_def zeroMapping_def ValidSensorIdentityType_def)
qed



lemma connect_headers_auth:
  assumes "Username p \<noteq> []" and "Password p \<noteq> []"
  shows "connect_headers p = [''Proxy-Authorization'' \<mapsto> basicAuth (Username p) (Password p)]"
  using assms by (auto simp: connect_headers_def basicAuth_def Let_def)

end
