(* ===== verification/Client.thy ===== *)
theory Client
  imports Fleet ClientOptions
begin

text \<open>
  \<open>client.go\<close> and the client side of \<open>receipt.go\<close>. A client is the record of its shared
  variables; its goroutines, and the calls of the application that take several steps, are
  threads with a program counter for each point between two accesses to a shared variable,
  the network or the buffer. A step of a thread can be blocked, panic or end in the next
  state. The outcome of every network call, timer and encoder is an input of the step. The
  buffer is one member of a fleet of buffers over a shared budget; the other members move on
  their own. Logging and the callbacks of the caller are left out.
\<close>

section \<open>Steps\<close>

datatype 'a outcome = Blocked | Panic | Next 'a

fun andThen :: "'a outcome \<Rightarrow> ('a \<Rightarrow> 'b outcome) \<Rightarrow> 'b outcome" where
  "andThen Blocked f = Blocked"
| "andThen Panic f = Panic"
| "andThen (Next x) f = f x"

fun returned :: "'a option \<Rightarrow> 'a outcome" where
  "returned None = Panic"
| "returned (Some x) = Next x"

section \<open>Receipts\<close>

datatype ReceiptLifetime = ReceiptUnknown | ReceiptLive | ReceiptClosing | ReceiptClosed

fun life_number :: "ReceiptLifetime \<Rightarrow> nat" where
  "life_number ReceiptUnknown = 0"
| "life_number ReceiptLive = 1"
| "life_number ReceiptClosing = 2"
| "life_number ReceiptClosed = 3"

lemma life_number_inj: "life_number x = life_number y \<Longrightarrow> x = y"
  by (cases x; cases y) simp_all

instantiation ReceiptLifetime :: linorder
begin

definition less_eq_ReceiptLifetime :: "ReceiptLifetime \<Rightarrow> ReceiptLifetime \<Rightarrow> bool" where
  "x \<le> y \<longleftrightarrow> life_number x \<le> life_number y"

definition less_ReceiptLifetime :: "ReceiptLifetime \<Rightarrow> ReceiptLifetime \<Rightarrow> bool" where
  "x < y \<longleftrightarrow> life_number x < life_number y"

instance
  by standard (auto simp: less_eq_ReceiptLifetime_def less_ReceiptLifetime_def life_number_inj)

end

text \<open>The zero token has neither an owner nor a state.\<close>

record AdmissionReceipt =
  ar_owner :: "nat option"
  ar_state :: "nat option"

record ReceiptObservation =
  Frame :: ReceiptFrameState
  Lifetime :: ReceiptLifetime

definition zeroObservation :: ReceiptObservation where
  "zeroObservation = \<lparr>Frame = ReceiptInvalid, Lifetime = ReceiptUnknown\<rparr>"

section \<open>The client and its threads\<close>

record Client =
  receiptOwner :: "nat option"
  receiptLifetime :: ReceiptLifetime
  options :: ClientOptions
  wssURL :: string
  conn :: "nat option"
  ab :: "nat option"
  wg :: int
  connMutex :: bool
  isStart :: Event
  isStop :: Event
  isReconnecting :: u32
  backoffTime :: u64
  lastError :: "client_error option"
  instanceID :: string
  isClosing :: bool
  closeCtx :: "bool option"

text \<open>Who called \<open>disconnect\<close>, \<open>connectBeforeWorkers\<close> and \<open>Reconnect\<close>.\<close>

datatype disc_caller = ByClose | ByReconnect
datatype connect_caller = ByNew | ByRe
datatype reconnect_caller = FromListenerError | FromListener | FromSender | FromKeepAlive | FromConnect connect_caller nat | FromApp

datatype disconnect_pc = D_stop | D_lock | D_close | D_wait "client_error option"

datatype close_pc = C_closing | C_lifetime | C_cancel | C_buffer | C_unacked "client_error option"
  | C_error "DataMessage option list" "client_error option" | C_release "DataMessage option list" "client_error option"
  | C_closed "DataMessage option list" "client_error option" | C_returned "DataMessage option list" "client_error option"

datatype connect_pc = K_lock | K_check | K_clear | K_dialer | K_dial nat | K_retry nat | K_header nat | K_read nat
  | K_after nat ControlMessage | K_process nat ControlMessage | K_abort nat client_error | K_check2 nat | K_stop nat
  | K_spawn nat | K_before | K_start | K_unlock | K_fail client_error

datatype new_pc = N_buffer client_error | N_cancel client_error | N_failed client_error | N_returned

datatype reconnect_pc = R_capacity | R_reset | R_check client_error | R_sleep | R_exit

datatype listener_pc = L_start | L_loop | L_read | L_process ControlMessage
datatype sender_pc = S_start | S_unacked | S_loop | S_backoff | S_wait int | S_next | S_send DataMessage
datatype keepalive_pc = A_start | A_enter | A_parked nat | A_ping

datatype call_pc = RC_check | RC_cas

datatype pc =
    Disconnect disc_caller disconnect_pc
  | Closing close_pc
  | Connect connect_caller connect_pc
  | New new_pc
  | Re reconnect_pc
  | Reconnecting reconnect_caller call_pc
  | Listener listener_pc
  | Sender sender_pc
  | KeepAlive keepalive_pc
  | Exit
  | Finished

text \<open>The sockets are those the client has dialled and not closed yet.\<close>

record sys =
  client :: Client
  buffers :: fleet
  lifetimes :: "nat \<Rightarrow> ReceiptLifetime"
  next_owner :: nat
  threads :: "pc list"
  sockets :: "nat list"
  next_socket :: nat
  netlib :: net_library

text \<open>What the environment decides at a step: a call succeeds or fails, a message arrives, a timer fires, a context is done.\<close>

datatype input = Ok | Fail string | Recv ControlMessage | Timer | Canceled | Signalled bool | EncodeFail string

section \<open>Shared helpers\<close>

definition on_client :: "(Client \<Rightarrow> Client) \<Rightarrow> sys \<Rightarrow> sys" where
  "on_client f s = s\<lparr>client := f (client s)\<rparr>"

definition setLastError :: "client_error option \<Rightarrow> sys \<Rightarrow> sys" where
  "setLastError e = on_client (\<lambda>c. c\<lparr>lastError := e\<rparr>)"

definition GetLastError :: "sys \<Rightarrow> client_error option" where
  "GetLastError s = lastError (client s)"

definition spawn :: "pc list \<Rightarrow> sys \<Rightarrow> sys" where
  "spawn ps s = s\<lparr>threads := threads s @ ps\<rparr>"

definition close_socket :: "nat \<Rightarrow> sys \<Rightarrow> sys" where
  "close_socket n s = s\<lparr>sockets := filter (\<lambda>k. k \<noteq> n) (sockets s)\<rparr>"

definition cancelCloseCtx :: "sys \<Rightarrow> sys" where
  "cancelCloseCtx = on_client (\<lambda>c. c\<lparr>closeCtx := map_option (\<lambda>_. True) (closeCtx c)\<rparr>)"

definition closeDone :: "sys \<Rightarrow> bool" where
  "closeDone s \<longleftrightarrow> closeCtx (client s) = Some True"

text \<open>A method of \<open>c.ab\<close>; a nil receiver panics.\<close>

definition buf_op :: "ack_op \<Rightarrow> sys \<Rightarrow> (ack_out \<times> sys) outcome" where
  "buf_op opr s =
     (case ab (client s) of
        None \<Rightarrow> Panic
      | Some i \<Rightarrow>
          let (cs, p) = buffers s; (b, W) = cs ! i in
          returned (map_option (\<lambda>(out, b, p, W). (out, s\<lparr>buffers := (cs[i := (b, W)], p)\<rparr>)) (ack_exec opr (b, p, W))))"

definition ab_GetUnAcked :: "sys \<Rightarrow> DataMessage option list outcome" where
  "ab_GetUnAcked s =
     (case ab (client s) of None \<Rightarrow> Panic | Some i \<Rightarrow> returned (GetUnAcked (fst (fst (buffers s) ! i))))"

definition ab_releaseReceiptTracking :: "sys \<Rightarrow> sys outcome" where
  "ab_releaseReceiptTracking s =
     (case ab (client s) of
        None \<Rightarrow> Panic
      | Some i \<Rightarrow>
          let (cs, p) = buffers s; (b, W) = cs ! i in
          Next (s\<lparr>buffers := (cs[i := (releaseReceiptTracking b, W)], p)\<rparr>))"

section \<open>The life of receipts\<close>

definition admissionReceiptOwner :: "sys \<Rightarrow> nat \<times> sys" where
  "admissionReceiptOwner s =
     (case receiptOwner (client s) of
        Some o1 \<Rightarrow> (o1, s)
      | None \<Rightarrow>
          let o1 = next_owner s;
              lifetime = receiptLifetime (client s);
              lifetime = (if isClosing (client s) \<and> lifetime < ReceiptClosing then ReceiptClosing else lifetime);
              lifetime = (if lifetime = ReceiptUnknown then ReceiptLive else lifetime)
          in (o1, on_client (\<lambda>c. c\<lparr>receiptOwner := Some o1\<rparr>) (s\<lparr>lifetimes := (lifetimes s)(o1 := lifetime), next_owner := Suc o1\<rparr>)))"

definition setReceiptLifetime :: "ReceiptLifetime \<Rightarrow> sys \<Rightarrow> sys" where
  "setReceiptLifetime lifetime s =
     (let s = (if lifetime > receiptLifetime (client s) then on_client (\<lambda>c. c\<lparr>receiptLifetime := lifetime\<rparr>) s else s)
      in case receiptOwner (client s) of
           None \<Rightarrow> s
         | Some o1 \<Rightarrow> s\<lparr>lifetimes := (lifetimes s)(o1 := receiptLifetime (client s))\<rparr>)"

text \<open>The cells the tokens of a client point to.\<close>

definition cell_of :: "sys \<Rightarrow> nat \<Rightarrow> ReceiptFrameState" where
  "cell_of s i = (case ab (client s) of None \<Rightarrow> ReceiptInvalid | Some k \<Rightarrow> cells (fst (fst (buffers s) ! k)) i)"

text \<open>
  \<open>ObserveReceipt\<close> takes no lock: its five loads happen in five states, one after the other, of
  a client that keeps running.
\<close>

definition ObserveReceipt :: "AdmissionReceipt \<Rightarrow> sys \<Rightarrow> sys \<Rightarrow> sys \<Rightarrow> sys \<Rightarrow> sys \<Rightarrow> ReceiptObservation" where
  "ObserveReceipt receipt s1 s2 s3 s4 s5 =
     (case (ar_owner receipt, ar_state receipt) of
        (Some o1, Some cell) \<Rightarrow>
          if receiptOwner (client s1) \<noteq> Some o1 then zeroObservation
          else
            let state = cell_of s2 cell in
            if state \<noteq> ReceiptRetained \<and> state \<noteq> ReceiptAcknowledged \<and> state \<noteq> ReceiptRetired then zeroObservation
            else
              let lifetime = lifetimes s3 o1;
                  state = (if lifetime = ReceiptClosed then cell_of s4 cell else state);
                  lifetime = (if isClosing (client s5) \<and> lifetime < ReceiptClosing then ReceiptClosing else lifetime);
                  state = (if lifetime = ReceiptClosed \<and> state = ReceiptRetained then ReceiptClosedUnconfirmed else state)
              in \<lparr>Frame = state, Lifetime = lifetime\<rparr>
      | _ \<Rightarrow> zeroObservation)"

section \<open>Calls of the application\<close>

definition Ship :: "DataMessage option \<Rightarrow> u64 \<Rightarrow> nat option \<Rightarrow> sys \<Rightarrow> (add_result \<times> sys) outcome" where
  "Ship msg sz w s =
     (if TestSinkMode (options (client s)) then Next (AddReturns None, s)
      else andThen (buf_op (AAdd msg sz w None 0) s)
        (\<lambda>(out, s). case out of OAdd r \<Rightarrow> Next (r, s) | _ \<Rightarrow> Panic))"

text \<open>
  \<open>ShipWithReceiptOptions\<close> up to the end of \<open>addWithReceipt\<close>; \<open>cell\<close> is the new \<open>receiptState\<close>. The
  token is made after a successful admission by \<open>bindReceipt\<close>.
\<close>

definition ShipWithReceiptOptions :: "DataMessage option \<Rightarrow> u64 \<Rightarrow> nat option \<Rightarrow> nat \<Rightarrow> u32 \<Rightarrow> sys \<Rightarrow> (add_result \<times> sys) outcome" where
  "ShipWithReceiptOptions msg sz w cell MaxTransmissions s =
     (if TestSinkMode (options (client s)) then Next (AddReturns (Some ErrorReceiptUnavailable), s)
      else if ab (client s) = None then Next (AddReturns (Some ErrorClosed), s)
      else andThen (buf_op (AAdd msg sz w (Some cell) MaxTransmissions) s)
        (\<lambda>(out, s). case out of OAdd r \<Rightarrow> Next (r, s) | _ \<Rightarrow> Panic))"

definition ShipWithReceipt :: "DataMessage option \<Rightarrow> u64 \<Rightarrow> nat option \<Rightarrow> nat \<Rightarrow> sys \<Rightarrow> (add_result \<times> sys) outcome" where
  "ShipWithReceipt msg sz w cell s = ShipWithReceiptOptions msg sz w cell 0 s"

definition bindReceipt :: "nat \<Rightarrow> sys \<Rightarrow> AdmissionReceipt \<times> sys" where
  "bindReceipt cell s = (let (o1, s) = admissionReceiptOwner s in (\<lparr>ar_owner = Some o1, ar_state = Some cell\<rparr>, s))"

text \<open>The timer of a blocked \<open>Ship\<close> fires, and the deferred call of a \<open>Ship\<close> that returned an error.\<close>

definition Ship_timeout :: "sys \<Rightarrow> (add_result \<times> sys) outcome" where
  "Ship_timeout s = andThen (buf_op ATimeout s) (\<lambda>(out, s). case out of OAdd r \<Rightarrow> Next (r, s) | _ \<Rightarrow> Panic)"

definition Ship_return :: "nat option \<Rightarrow> sys \<Rightarrow> sys outcome" where
  "Ship_return w s = andThen (buf_op (ACancel w) s) (\<lambda>(_, s). Next s)"

definition BeginDrain :: "sys \<Rightarrow> sys outcome" where
  "BeginDrain s = (case ab (client s) of None \<Rightarrow> Next s | Some _ \<Rightarrow> andThen (buf_op ASeal s) (\<lambda>(_, s). Next s))"

text \<open>\<open>DrainContext\<close>: its deadline, the call of \<open>drain\<close>, and one iteration of the loop of \<open>drain\<close>.\<close>

definition drain_deadline :: "int option \<Rightarrow> int \<Rightarrow> int" where
  "drain_deadline deadline now = (case deadline of None \<Rightarrow> now + 60 * Second | Some d \<Rightarrow> d)"

definition DrainContext :: "sys \<Rightarrow> sys outcome" where
  "DrainContext s = (if TestSinkMode (options (client s)) then Next s else andThen (buf_op ASeal s) (\<lambda>(_, s). Next s))"

definition DrainContext_iteration :: "go_error option \<Rightarrow> sys \<Rightarrow> (drain_result \<times> sys) outcome" where
  "DrainContext_iteration ctxErr s =
     (if TestSinkMode (options (client s)) then Next (Drained, s)
      else andThen (buf_op (ADrain ctxErr) s) (\<lambda>(out, s). case out of ODrain r \<Rightarrow> Next (r, s) | _ \<Rightarrow> Panic))"

definition Client_BufferedBytes :: "sys \<Rightarrow> u64" where
  "Client_BufferedBytes s = (case ab (client s) of None \<Rightarrow> 0 | Some i \<Rightarrow> BufferedBytes (fst (fst (buffers s) ! i)))"

definition GetUnsent :: "sys \<Rightarrow> DataMessage option list outcome" where
  "GetUnsent s = (if TestSinkMode (options (client s)) then Next [] else ab_GetUnAcked s)"

section \<open>Control messages\<close>

text \<open>\<open>Reconnect\<close> takes several steps of its own; the error that follows it is fixed.\<close>

datatype control_result = ControlReturns "client_error option" | ControlReconnects

definition processControlMessage :: "ControlMessage \<Rightarrow> sys \<Rightarrow> (control_result \<times> sys) outcome" where
  "processControlMessage msg s =
     (case verb_of (Verb msg) of
        ControlMessageACK \<Rightarrow>
          andThen (buf_op (AAck (CSeqNum msg)) s)
            (\<lambda>(out, s). case out of
                OAck (Some e) \<Rightarrow> Next (ControlReturns None, setLastError (Some (ErrBuffer e)) s)
              | _ \<Rightarrow> Next (ControlReturns None, s))
      | ControlMessageBACKOFF \<Rightarrow> Next (ControlReturns None, on_client (\<lambda>c. c\<lparr>backoffTime := CDuration msg\<rparr>) s)
      | ControlMessageRECONNECT \<Rightarrow> Next (ControlReconnects, s)
      | ControlMessageERROR \<Rightarrow> Next (ControlReturns (Some (ErrServer (CError msg))), s)
      | ControlMessageREADY \<Rightarrow> Next (ControlReturns None, s)
      | ControlMessageFLOW \<Rightarrow> andThen (buf_op (ACapacity (WindowSize msg)) s) (\<lambda>(_, s). Next (ControlReturns None, s))
      | OtherVerb v \<Rightarrow> Next (ControlReturns (Some (ErrUnknownVerb v)), setLastError (Some (ErrUnknownVerb v)) s))"

section \<open>Reconnect\<close>

text \<open>The point after the call of \<open>Reconnect\<close>.\<close>

fun return_to :: "reconnect_caller \<Rightarrow> pc" where
  "return_to FromListenerError = Exit"
| "return_to FromListener = Listener L_loop"
| "return_to FromSender = Exit"
| "return_to FromKeepAlive = Exit"
| "return_to (FromConnect k n) = Connect k (K_abort n ErrReconnectRequested)"
| "return_to FromApp = Finished"

fun Reconnect_step :: "reconnect_caller \<Rightarrow> call_pc \<Rightarrow> sys \<Rightarrow> (pc \<times> sys) outcome" where
  "Reconnect_step k RC_check s =
     (if TestSinkMode (options (client s)) then Next (return_to k, s)
      else if isClosing (client s) then Next (return_to k, s)
      else Next (Reconnecting k RC_cas, s))"
| "Reconnect_step k RC_cas s =
     (if isReconnecting (client s) \<noteq> 0 then Next (return_to k, s)
      else Next (return_to k, spawn [Disconnect ByReconnect D_stop] (on_client (\<lambda>c. c\<lparr>isReconnecting := 1\<rparr>) s)))"

text \<open>The goroutine of \<open>Reconnect\<close>, apart from its calls of \<open>disconnect\<close> and \<open>connectBeforeWorkers\<close>.\<close>

fun reconnect_step :: "reconnect_pc \<Rightarrow> input \<Rightarrow> sys \<Rightarrow> (pc \<times> sys) outcome" where
  "reconnect_step R_capacity i s = andThen (buf_op (ACapacity 1) s) (\<lambda>(_, s). Next (Re R_reset, s))"
| "reconnect_step R_reset i s = andThen (buf_op AReset s) (\<lambda>(_, s). Next (Connect ByRe K_lock, s))"
| "reconnect_step (R_check e) i s =
     (if isClosing (client s) then Next (Re R_exit, s) else Next (Re R_sleep, setLastError (Some e) s))"
| "reconnect_step R_sleep i s =
     (case i of
        Timer \<Rightarrow> Next (Connect ByRe K_lock, s)
      | Canceled \<Rightarrow> if closeDone s then Next (Re R_exit, s) else Blocked
      | _ \<Rightarrow> Blocked)"
| "reconnect_step R_exit i s = Next (Finished, on_client (\<lambda>c. c\<lparr>isReconnecting := 0\<rparr>) s)"

section \<open>Disconnecting\<close>

fun disconnect_step :: "disc_caller \<Rightarrow> disconnect_pc \<Rightarrow> input \<Rightarrow> sys \<Rightarrow> (pc \<times> sys) outcome" where
  "disconnect_step k D_stop i s =
     andThen (returned (Event_Set (isStop (client s))))
       (\<lambda>e. Next (Disconnect k D_lock, on_client (\<lambda>c. c\<lparr>isStop := e\<rparr>) s))"
| "disconnect_step k D_lock i s =
     (if connMutex (client s) then Blocked else Next (Disconnect k D_close, on_client (\<lambda>c. c\<lparr>connMutex := True\<rparr>) s))"
| "disconnect_step k D_close i s =
     (case conn (client s) of
        None \<Rightarrow> Next (Disconnect k (D_wait None), s)
      | Some n \<Rightarrow>
          (case i of
             Fail e \<Rightarrow> Next (Disconnect k (D_wait (Some (ErrIO e))), close_socket n s)
           | _ \<Rightarrow> Next (Disconnect k (D_wait None), close_socket n s)))"
| "disconnect_step k (D_wait err) i s =
     (if wg (client s) \<noteq> 0 then Blocked
      else
        let s = on_client (\<lambda>c. c\<lparr>conn := None, connMutex := False\<rparr>) s;
            s = (if err \<noteq> None then setLastError err s else s)
        in Next (case k of ByClose \<Rightarrow> Closing (C_unacked err) | ByReconnect \<Rightarrow> Re R_capacity, s))"

text \<open>\<open>Close\<close>, apart from its call of \<open>disconnect\<close>.\<close>

fun Close_step :: "close_pc \<Rightarrow> sys \<Rightarrow> (pc \<times> sys) outcome" where
  "Close_step C_closing s = Next (Closing C_lifetime, on_client (\<lambda>c. c\<lparr>isClosing := True\<rparr>) s)"
| "Close_step C_lifetime s = Next (Closing C_cancel, setReceiptLifetime ReceiptClosing s)"
| "Close_step C_cancel s = Next (Closing C_buffer, cancelCloseCtx s)"
| "Close_step C_buffer s = andThen (buf_op AClose s) (\<lambda>(_, s). Next (Disconnect ByClose D_stop, s))"
| "Close_step (C_unacked err) s = andThen (ab_GetUnAcked s) (\<lambda>messages. Next (Closing (C_error messages err), s))"
| "Close_step (C_error messages err) s = Next (Closing (C_release messages err), setLastError err s)"
| "Close_step (C_release messages err) s = andThen (ab_releaseReceiptTracking s) (\<lambda>s. Next (Closing (C_closed messages err), s))"
| "Close_step (C_closed messages err) s = Next (Closing (C_returned messages err), setReceiptLifetime ReceiptClosed s)"
| "Close_step (C_returned messages err) s = Blocked"

section \<open>Connecting\<close>

definition maxRetries :: "ClientOptions \<Rightarrow> nat" where
  "maxRetries opts = (if URL (Proxy opts) \<noteq> [] then 3 else 1)"

text \<open>Whether the context of the call is done: the caller's in \<open>NewClient\<close>, the client's own in \<open>Reconnect\<close>.\<close>

fun ctxDone :: "connect_caller \<Rightarrow> input \<Rightarrow> sys \<Rightarrow> bool" where
  "ctxDone ByNew i s = (i = Canceled)"
| "ctxDone ByRe i s = closeDone s"

definition connect_failed :: "connect_caller \<Rightarrow> client_error \<Rightarrow> sys \<Rightarrow> (pc \<times> sys) outcome" where
  "connect_failed k e s = Next (Connect k (K_fail e), setLastError (Some e) s)"

fun connect_step :: "connect_caller \<Rightarrow> connect_pc \<Rightarrow> input \<Rightarrow> sys \<Rightarrow> (pc \<times> sys) outcome" where
  "connect_step k K_lock i s =
     (if connMutex (client s) then Blocked else Next (Connect k K_check, on_client (\<lambda>c. c\<lparr>connMutex := True\<rparr>) s))"
| "connect_step k K_check i s =
     (if isClosing (client s) then Next (Connect k (K_fail ErrClientClosing), s) else Next (Connect k K_clear, s))"
| "connect_step k K_clear i s = Next (Connect k K_dialer, on_client (\<lambda>c. c\<lparr>isStart := Event_Clear (isStart c)\<rparr>) s)"
| "connect_step k K_dialer i s =
     (case createProxyDialer (netlib s) (case i of Fail _ \<Rightarrow> False | _ \<Rightarrow> True) (options (client s)) (wssURL (client s)) of
        Inl e \<Rightarrow> connect_failed k e s
      | Inr _ \<Rightarrow> Next (Connect k (K_dial 0), s))"
| "connect_step k (K_dial n) i s =
     (if ctxDone k i s then Next (Connect k (K_fail ErrCanceled), s)
      else case i of
        Ok \<Rightarrow> Next (Connect k (K_header (next_socket s)), s\<lparr>sockets := next_socket s # sockets s, next_socket := Suc (next_socket s)\<rparr>)
      | Fail e \<Rightarrow>
          if n + 1 < maxRetries (options (client s)) then Next (Connect k (K_retry n), s)
          else connect_failed k (ErrIO e) s
      | _ \<Rightarrow> Blocked)"
| "connect_step k (K_retry n) i s =
     (case i of
        Timer \<Rightarrow> Next (Connect k (K_dial (Suc n)), s)
      | Canceled \<Rightarrow> if ctxDone k i s then Next (Connect k (K_fail ErrCanceled), s) else Blocked
      | _ \<Rightarrow> Blocked)"
| "connect_step k (K_header sock) i s =
     (case i of
        Fail e \<Rightarrow> connect_failed k (ErrIO e) (close_socket sock s)
      | _ \<Rightarrow> Next (Connect k (K_read sock), s))"
| "connect_step k (K_read sock) i s =
     (case i of
        Fail e \<Rightarrow> connect_failed k (ErrIO e) (close_socket sock s)
      | Recv msg \<Rightarrow> Next (Connect k (K_after sock msg), s)
      | _ \<Rightarrow> Blocked)"
| "connect_step k (K_after sock msg) i s =
     (if ctxDone k i s then connect_failed k ErrCanceled (close_socket sock s) else Next (Connect k (K_process sock msg), s))"
| "connect_step k (K_process sock msg) i s =
     andThen (processControlMessage msg s)
       (\<lambda>(r, s). case r of
           ControlReturns None \<Rightarrow> Next (Connect k (K_check2 sock), s)
         | ControlReturns (Some e) \<Rightarrow> Next (Connect k (K_abort sock e), s)
         | ControlReconnects \<Rightarrow> Next (Reconnecting (FromConnect k sock) RC_check, s))"
| "connect_step k (K_abort sock e) i s = connect_failed k e (close_socket sock s)"
| "connect_step k (K_check2 sock) i s =
     (if isClosing (client s) then Next (Connect k (K_fail ErrClientClosing), close_socket sock s) else Next (Connect k (K_stop sock), s))"
| "connect_step k (K_stop sock) i s = Next (Connect k (K_spawn sock), on_client (\<lambda>c. c\<lparr>isStop := Event_Clear (isStop c)\<rparr>) s)"
| "connect_step k (K_spawn sock) i s =
     Next (Connect k K_before, spawn [Listener L_start, Sender S_start, KeepAlive A_start] (on_client (\<lambda>c. c\<lparr>conn := Some sock, wg := wg c + 3\<rparr>) s))"
| "connect_step k K_before i s =
     Next (Connect k K_start, if k = ByRe then on_client (\<lambda>c. c\<lparr>isReconnecting := 0\<rparr>) s else s)"
| "connect_step k K_start i s =
     andThen (returned (Event_Set (isStart (client s)))) (\<lambda>e. Next (Connect k K_unlock, on_client (\<lambda>c. c\<lparr>isStart := e\<rparr>) s))"
| "connect_step k K_unlock i s =
     Next (case k of ByNew \<Rightarrow> New N_returned | ByRe \<Rightarrow> Finished, on_client (\<lambda>c. c\<lparr>connMutex := False\<rparr>) s)"
| "connect_step k (K_fail e) i s =
     Next (case k of ByNew \<Rightarrow> New (N_buffer e) | ByRe \<Rightarrow> Re (R_check e), on_client (\<lambda>c. c\<lparr>connMutex := False\<rparr>) s)"

text \<open>The end of \<open>NewClient\<close> after a failed \<open>connect\<close>.\<close>

fun New_step :: "new_pc \<Rightarrow> sys \<Rightarrow> (pc \<times> sys) outcome" where
  "New_step (N_buffer e) s = andThen (buf_op AClose s) (\<lambda>(_, s). Next (New (N_cancel e), s))"
| "New_step (N_cancel e) s = Next (New (N_failed e), cancelCloseCtx s)"
| "New_step (N_failed e) s = Blocked"
| "New_step N_returned s = Blocked"

section \<open>The workers\<close>

text \<open>A use of \<open>c.conn\<close>; a nil connection panics.\<close>

definition use_conn :: "sys \<Rightarrow> 'a outcome \<Rightarrow> 'a outcome" where
  "use_conn s r = (if conn (client s) = None then Panic else r)"

fun listener_step :: "listener_pc \<Rightarrow> input \<Rightarrow> sys \<Rightarrow> (pc \<times> sys) outcome" where
  "listener_step L_start i s = (if Event_Wait (isStart (client s)) = None then Blocked else Next (Listener L_loop, s))"
| "listener_step L_loop i s = (if Event_IsSet (isStop (client s)) then Next (Exit, s) else Next (Listener L_read, s))"
| "listener_step L_read i s =
     use_conn s
       (case i of
          Fail e \<Rightarrow> Next (Reconnecting FromListenerError RC_check, setLastError (Some (ErrIO e)) s)
        | Recv msg \<Rightarrow> Next (Listener (L_process msg), s)
        | _ \<Rightarrow> Blocked)"
| "listener_step (L_process msg) i s =
     andThen (processControlMessage msg s)
       (\<lambda>(r, s). case r of
           ControlReturns _ \<Rightarrow> Next (Listener L_loop, s)
         | ControlReconnects \<Rightarrow> Next (Reconnecting FromListener RC_check, s))"

text \<open>The throttle in nanoseconds, multiplied at 64 bits.\<close>

definition backoffLimit :: u64 where "backoffLimit = 86400"

definition backoff_duration :: "u64 \<Rightarrow> int" where
  "backoff_duration backoffSec = (let backoffSec = (if backoffSec > backoffLimit then backoffLimit else backoffSec) in sint (backoffSec * word_of_int Second))"

text \<open>The select of \<open>waitBackoff\<close>: the timer fires, or the close context is done; a nil context has no channel.\<close>

definition waitBackoff :: "input \<Rightarrow> sys \<Rightarrow> bool outcome" where
  "waitBackoff i s =
     (case i of Timer \<Rightarrow> Next False | Canceled \<Rightarrow> if closeDone s then Next True else Blocked | _ \<Rightarrow> Blocked)"

fun sender_step :: "sender_pc \<Rightarrow> input \<Rightarrow> sys \<Rightarrow> (pc \<times> sys) outcome" where
  "sender_step S_start i s = (if Event_Wait (isStart (client s)) = None then Blocked else Next (Sender S_unacked, s))"
| "sender_step S_unacked i s = andThen (ab_GetUnAcked s) (\<lambda>_. Next (Sender S_loop, s))"
| "sender_step S_loop i s = (if Event_IsSet (isStop (client s)) then Next (Exit, s) else Next (Sender S_backoff, s))"
| "sender_step S_backoff i s =
     (let backoffSec = backoffTime (client s); s = on_client (\<lambda>c. c\<lparr>backoffTime := 0\<rparr>) s
      in if backoffSec = 0 then Next (Sender S_next, s) else Next (Sender (S_wait (backoff_duration backoffSec)), s))"
| "sender_step (S_wait d) i s =
     andThen (waitBackoff i s) (\<lambda>closed. if closed then Next (Exit, s) else Next (Sender S_backoff, s))"
| "sender_step S_next i s =
     (case i of
        Signalled sig \<Rightarrow>
          andThen (buf_op (ADeliver sig) s)
            (\<lambda>(out, s). case out of OMsg (Some m) \<Rightarrow> Next (Sender (S_send m), s) | _ \<Rightarrow> Next (Sender S_loop, s))
      | _ \<Rightarrow> Blocked)"
| "sender_step (S_send m) i s =
     (case i of
        EncodeFail e \<Rightarrow> Next (Sender S_loop, setLastError (Some (ErrIO e)) s)
      | Fail e \<Rightarrow> use_conn s (Next (Reconnecting FromSender RC_check, setLastError (Some (ErrIO e)) s))
      | Ok \<Rightarrow> use_conn s (Next (Sender S_loop, s))
      | _ \<Rightarrow> Blocked)"

fun keepAlive_step :: "keepalive_pc \<Rightarrow> input \<Rightarrow> sys \<Rightarrow> (pc \<times> sys) outcome" where
  "keepAlive_step A_start i s = (if Event_Wait (isStart (client s)) = None then Blocked else Next (KeepAlive A_enter, s))"
| "keepAlive_step A_enter i s =
     (case WaitFor_enter (isStop (client s)) of
        (None, e) \<Rightarrow> Next (Exit, on_client (\<lambda>c. c\<lparr>isStop := e\<rparr>) s)
      | (Some w, e) \<Rightarrow> Next (KeepAlive (A_parked w), on_client (\<lambda>c. c\<lparr>isStop := e\<rparr>) s))"
| "keepAlive_step (A_parked w) i s =
     (case i of
        Timer \<Rightarrow> Next (KeepAlive A_ping, on_client (\<lambda>c. c\<lparr>isStop := snd (WaitFor_timeout w (isStop c))\<rparr>) s)
      | _ \<Rightarrow>
          if chan_readable (ev_chan (isStop (client s)) w)
          then Next (Exit, on_client (\<lambda>c. c\<lparr>isStop := snd (WaitFor_wake w (isStop c))\<rparr>) s) else Blocked)"
| "keepAlive_step A_ping i s =
     use_conn s
       (case i of
          Fail e \<Rightarrow> Next (Reconnecting FromKeepAlive RC_check, setLastError (Some (ErrIO e)) s)
        | _ \<Rightarrow> Next (KeepAlive A_enter, s))"

text \<open>\<open>wg.Done\<close>, deferred by every worker; a negative counter panics.\<close>

definition exit_step :: "sys \<Rightarrow> (pc \<times> sys) outcome" where
  "exit_step s = (if wg (client s) \<le> 0 then Panic else Next (Finished, on_client (\<lambda>c. c\<lparr>wg := wg c - 1\<rparr>) s))"

section \<open>The system\<close>

fun pc_step :: "pc \<Rightarrow> input \<Rightarrow> sys \<Rightarrow> (pc \<times> sys) outcome" where
  "pc_step (Disconnect k pc) i s = disconnect_step k pc i s"
| "pc_step (Closing pc) i s = Close_step pc s"
| "pc_step (Connect k pc) i s = connect_step k pc i s"
| "pc_step (New pc) i s = New_step pc s"
| "pc_step (Re pc) i s = reconnect_step pc i s"
| "pc_step (Reconnecting k pc) i s = Reconnect_step k pc s"
| "pc_step (Listener pc) i s = listener_step pc i s"
| "pc_step (Sender pc) i s = sender_step pc i s"
| "pc_step (KeepAlive pc) i s = keepAlive_step pc i s"
| "pc_step Exit i s = exit_step s"
| "pc_step Finished i s = Blocked"

datatype action =
    Run nat input
  | AppShip "DataMessage option" u64 "nat option"
  | AppShipReceipt "DataMessage option" u64 "nat option" nat u32
  | AppBind nat
  | AppTimeout
  | AppReturn "nat option"
  | AppBeginDrain
  | AppDrain
  | AppDrainIteration "go_error option"
  | AppReconnect
  | AppClose
  | Other fleet_op

fun act :: "action \<Rightarrow> sys \<Rightarrow> sys outcome" where
  "act (Run t i) s =
     (if t < length (threads s) then
        andThen (pc_step (threads s ! t) i s) (\<lambda>(pc, s). Next (s\<lparr>threads := (threads s)[t := pc]\<rparr>))
      else Blocked)"
| "act (AppShip msg sz w) s = andThen (Ship msg sz w s) (\<lambda>(_, s). Next s)"
| "act (AppShipReceipt msg sz w cell mx) s = andThen (ShipWithReceiptOptions msg sz w cell mx s) (\<lambda>(_, s). Next s)"
| "act (AppBind cell) s = Next (snd (bindReceipt cell s))"
| "act AppTimeout s = andThen (Ship_timeout s) (\<lambda>(_, s). Next s)"
| "act (AppReturn w) s = Ship_return w s"
| "act AppBeginDrain s = BeginDrain s"
| "act AppDrain s = DrainContext s"
| "act (AppDrainIteration e) s = andThen (DrainContext_iteration e s) (\<lambda>(_, s). Next s)"
| "act AppReconnect s = Next (spawn [Reconnecting FromApp RC_check] s)"
| "act AppClose s = Next (spawn [Closing C_closing] s)"
| "act (Other opr) s = andThen (returned (fleet_step opr (buffers s))) (\<lambda>f. Next (s\<lparr>buffers := f\<rparr>))"

text \<open>
  What the environment promises: the application calls the client only once \<open>NewClient\<close> has
  returned it, its admissions follow the contract of the buffer, the server does not ask for
  a window that cannot be allocated, and the other buffers follow theirs.
\<close>

definition own_pre :: "ack_op \<Rightarrow> sys \<Rightarrow> bool" where
  "own_pre opr s \<longleftrightarrow> New N_returned \<in> set (threads s) \<and>
     (case ab (client s) of None \<Rightarrow> False | Some i \<Rightarrow> let (cs, p) = buffers s; (b, W) = cs ! i in ack_pre opr (b, p, W))"

fun action_pre :: "action \<Rightarrow> sys \<Rightarrow> bool" where
  "action_pre (Run t i) s \<longleftrightarrow> (case i of Recv msg \<Rightarrow> make_ok (WindowSize msg) | _ \<Rightarrow> True)"
| "action_pre (AppShip msg sz w) s \<longleftrightarrow> own_pre (AAdd msg sz w None 0) s"
| "action_pre (AppShipReceipt msg sz w cell mx) s \<longleftrightarrow> own_pre (AAdd msg sz w (Some cell) mx) s"
| "action_pre (AppReturn w) s \<longleftrightarrow> own_pre (ACancel w) s"
| "action_pre (Other opr) s \<longleftrightarrow> fleet_pre opr (buffers s) \<and> (case opr of FNew _ \<Rightarrow> True | FOp i _ \<Rightarrow> Some i \<noteq> ab (client s))"
| "action_pre a s \<longleftrightarrow> New N_returned \<in> set (threads s)"

section \<open>NewClient\<close>

text \<open>The answers of the SDK, of the host and of the generator of identifiers.\<close>

record new_env =
  env_org :: bool
  env_urls :: "(string \<rightharpoonup> string) option"
  env_hostname :: string
  env_uuid :: string

definition newClientState :: "net_library \<Rightarrow> Client \<Rightarrow> fleet \<Rightarrow> pc list \<Rightarrow> sys" where
  "newClientState lib c f ts =
     \<lparr>client = c, buffers = f, lifetimes = (\<lambda>_. ReceiptUnknown), next_owner = 0, threads = ts, sockets = [], next_socket = 0, netlib = lib\<rparr>"

definition zeroClient :: "ClientOptions \<Rightarrow> Client" where
  "zeroClient opts =
     \<lparr>receiptOwner = None, receiptLifetime = ReceiptUnknown, options = opts, wssURL = [], conn = None, ab = None, wg = 0,
      connMutex = False, isStart = NewEvent, isStop = NewEvent, isReconnecting = 0, backoffTime = 0, lastError = None,
      instanceID = [], isClosing = False, closeCtx = None\<rparr>"

definition wssEndpoint :: "new_env \<Rightarrow> ClientOptions \<Rightarrow> client_error + string" where
  "wssEndpoint env opts =
     (if DestURL opts \<noteq> [] then Inr (DestURL opts)
      else case env_urls env of
        None \<Rightarrow> Inl ErrOrganization
      | Some urls \<Rightarrow> (case urls ''lc_wss'' of None \<Rightarrow> Inl ErrSiteURL | Some u \<Rightarrow> Inr (''wss://'' @ u @ ''/usp'')))"

text \<open>\<open>NewClient\<close> up to its call of \<open>connect\<close>, which is the first thread of the client.\<close>

definition NewClient :: "net_library \<Rightarrow> new_env \<Rightarrow> ClientOptions \<Rightarrow> fleet \<Rightarrow> (client_error + sys) option" where
  "NewClient lib env opts f =
     (let opts = normalizeProxyConfig opts in
      case NewClient_checks lib opts of
        Some e \<Rightarrow> Some (Inl e)
      | None \<Rightarrow>
          if TestSinkMode opts then Some (Inr (newClientState lib (zeroClient opts) f [New N_returned]))
          else if \<not> env_org env then Some (Inl ErrOrganization)
          else case wssEndpoint env opts of
            Inl e \<Rightarrow> Some (Inl e)
          | Inr url \<Rightarrow>
              let opts = (if Hostname opts = [] then opts\<lparr>Hostname := env_hostname env\<rparr> else opts) in
              map_option (\<lambda>(r, p).
                  case r of
                    Inl e \<Rightarrow> Inl (ErrBuffer e)
                  | Inr b \<Rightarrow> Inr (newClientState lib
                      ((zeroClient opts)\<lparr>wssURL := url, ab := Some (length (fst f)), instanceID := env_uuid env, closeCtx := Some False\<rparr>)
                      (fst f @ [(b, Map.empty)], p) [Connect ByNew K_lock]))
                (NewAckBuffer (BufferOptions opts) (snd f)))"

text \<open>The reachable states of a client that \<open>NewClient\<close> builds beside the buffers of other clients.\<close>

inductive client_reaches :: "sys \<Rightarrow> bool" where
  start: "fleet_reaches p0 ops f \<Longrightarrow> join_room (length (fst f)) (snd f) \<Longrightarrow> NewClient lib env opts f = Some (Inr s) \<Longrightarrow>
    \<not> TestSinkMode opts \<Longrightarrow> client_reaches s"
| step: "client_reaches s \<Longrightarrow> action_pre a s \<Longrightarrow> act a s = Next s' \<Longrightarrow> client_reaches s'"

end
