(* ===== verification/ClientControl.thy ===== *)
theory ClientControl
  imports Client
begin

text \<open>
  The control skeleton of a client: the mutex, the flags, the events, the sockets and the
  program counters, without the buffer, the receipts and the inputs. \<open>ctl_step\<close> is its step
  relation, which the client refines, and \<open>ctl_inv\<close> an invariant of it, stated by counting
  threads: who may be where at the same time.
\<close>

section \<open>The skeleton\<close>

record ctl =
  mx :: bool
  rc :: u32
  wgc :: int
  cn :: "nat option"
  clo :: bool
  cdone :: bool
  st :: Event
  sp :: Event
  bt :: u64
  sk :: "nat list"
  nsk :: nat
  ths :: "pc list"

definition ctl_of :: "sys \<Rightarrow> ctl" where
  "ctl_of s =
     \<lparr>mx = connMutex (client s), rc = isReconnecting (client s), wgc = wg (client s), cn = conn (client s), clo = isClosing (client s),
      cdone = closeDone s, st = isStart (client s), sp = isStop (client s), bt = backoffTime (client s), sk = sockets s,
      nsk = next_socket s, ths = threads s\<rparr>"

text \<open>Moves that change nothing but the program counter, and depend on nothing else.\<close>

inductive move :: "pc \<Rightarrow> pc \<Rightarrow> bool" where
  "move (Closing C_lifetime) (Closing C_cancel)"
| "move (Closing C_buffer) (Disconnect ByClose D_stop)"
| "move (Closing (C_unacked e)) (Closing (C_error ms e))"
| "move (Closing (C_error ms e)) (Closing (C_release ms e))"
| "move (Closing (C_release ms e)) (Closing (C_closed ms e))"
| "move (Closing (C_closed ms e)) (Closing (C_returned ms e))"
| "move (Connect k K_dialer) (Connect k (K_dial 0))"
| "move (Connect k K_dialer) (Connect k (K_fail e))"
| "move (Connect k (K_dial n)) (Connect k (K_retry n))"
| "move (Connect k (K_dial n)) (Connect k (K_fail e))"
| "move (Connect k (K_retry n)) (Connect k (K_dial (Suc n)))"
| "move (Connect k (K_retry n)) (Connect k (K_fail e))"
| "move (Connect k (K_header n)) (Connect k (K_read n))"
| "make_ok (WindowSize m) \<Longrightarrow> move (Connect k (K_read n)) (Connect k (K_after n m))"
| "move (Connect k (K_after n m)) (Connect k (K_process n m))"
| "move (Connect k (K_process n m)) (Connect k (K_check2 n))"
| "move (Connect k (K_process n m)) (Connect k (K_abort n e))"
| "move (Connect k (K_process n m)) (Reconnecting (FromConnect k n) RC_check)"
| "move (New (N_buffer e)) (New (N_cancel e))"
| "move (Re R_capacity) (Re R_reset)"
| "move (Re R_reset) (Connect ByRe K_lock)"
| "move (Re R_sleep) (Connect ByRe K_lock)"
| "move (Reconnecting k RC_check) (return_to k)"
| "move (Listener L_read) (Reconnecting FromListenerError RC_check)"
| "make_ok (WindowSize m) \<Longrightarrow> move (Listener L_read) (Listener (L_process m))"
| "move (Listener (L_process m)) (Listener L_loop)"
| "move (Listener (L_process m)) (Reconnecting FromListener RC_check)"
| "move (Sender S_unacked) (Sender S_loop)"
| "move (Sender (S_wait d)) (Sender S_backoff)"
| "move (Sender S_next) (Sender (S_send m))"
| "move (Sender S_next) (Sender S_loop)"
| "move (Sender (S_send m)) (Sender S_loop)"
| "move (Sender (S_send m)) (Reconnecting FromSender RC_check)"
| "move (KeepAlive A_ping) (KeepAlive A_enter)"
| "move (KeepAlive A_ping) (Reconnecting FromKeepAlive RC_check)"

text \<open>One step of a thread at \<open>pc\<close>: its next program counter and the state, with the threads it starts.\<close>

inductive eff :: "pc \<Rightarrow> ctl \<Rightarrow> pc \<Rightarrow> ctl \<Rightarrow> bool" where
  moved: "move pc pc' \<Longrightarrow> eff pc c pc' c"
| d_stop: "Event_Set (sp c) = Some e \<Longrightarrow> eff (Disconnect k D_stop) c (Disconnect k D_lock) (c\<lparr>sp := e\<rparr>)"
| d_lock: "\<not> mx c \<Longrightarrow> eff (Disconnect k D_lock) c (Disconnect k D_close) (c\<lparr>mx := True\<rparr>)"
| d_none: "cn c = None \<Longrightarrow> eff (Disconnect k D_close) c (Disconnect k (D_wait None)) c"
| d_close: "cn c = Some n \<Longrightarrow>
    eff (Disconnect k D_close) c (Disconnect k (D_wait e)) (c\<lparr>sk := filter (\<lambda>m. m \<noteq> n) (sk c)\<rparr>)"
| d_wait_close: "wgc c = 0 \<Longrightarrow> eff (Disconnect ByClose (D_wait e)) c (Closing (C_unacked e)) (c\<lparr>cn := None, mx := False\<rparr>)"
| d_wait_re: "wgc c = 0 \<Longrightarrow> eff (Disconnect ByReconnect (D_wait e)) c (Re R_capacity) (c\<lparr>cn := None, mx := False\<rparr>)"
| c_closing: "eff (Closing C_closing) c (Closing C_lifetime) (c\<lparr>clo := True\<rparr>)"
| c_cancel: "eff (Closing C_cancel) c (Closing C_buffer) (c\<lparr>cdone := True\<rparr>)"
| k_lock: "\<not> mx c \<Longrightarrow> eff (Connect k K_lock) c (Connect k K_check) (c\<lparr>mx := True\<rparr>)"
| k_closing: "clo c \<Longrightarrow> eff (Connect k K_check) c (Connect k (K_fail e)) c"
| k_check: "\<not> clo c \<Longrightarrow> eff (Connect k K_check) c (Connect k K_clear) c"
| k_clear: "eff (Connect k K_clear) c (Connect k K_dialer) (c\<lparr>st := Event_Clear (st c)\<rparr>)"
| k_dial: "eff (Connect k (K_dial n)) c (Connect k (K_header (nsk c))) (c\<lparr>sk := nsk c # sk c, nsk := Suc (nsk c)\<rparr>)"
| k_drop_header: "eff (Connect k (K_header n)) c (Connect k (K_fail e)) (c\<lparr>sk := filter (\<lambda>m. m \<noteq> n) (sk c)\<rparr>)"
| k_drop_read: "eff (Connect k (K_read n)) c (Connect k (K_fail e)) (c\<lparr>sk := filter (\<lambda>m. m \<noteq> n) (sk c)\<rparr>)"
| k_drop_after: "eff (Connect k (K_after n m)) c (Connect k (K_fail e)) (c\<lparr>sk := filter (\<lambda>m. m \<noteq> n) (sk c)\<rparr>)"
| k_drop_abort: "eff (Connect k (K_abort n e')) c (Connect k (K_fail e)) (c\<lparr>sk := filter (\<lambda>m. m \<noteq> n) (sk c)\<rparr>)"
| k_drop_closed: "eff (Connect k (K_check2 n)) c (Connect k (K_fail e)) (c\<lparr>sk := filter (\<lambda>m. m \<noteq> n) (sk c)\<rparr>)"
| k_back: "eff (Connect k (K_process n m)) c (Connect k (K_check2 n)) (c\<lparr>bt := d\<rparr>)"
| k_check2: "\<not> clo c \<Longrightarrow> eff (Connect k (K_check2 n)) c (Connect k (K_stop n)) c"
| k_stop: "eff (Connect k (K_stop n)) c (Connect k (K_spawn n)) (c\<lparr>sp := Event_Clear (sp c)\<rparr>)"
| k_spawn: "eff (Connect k (K_spawn n)) c (Connect k K_before) 
    (c\<lparr>cn := Some n, wgc := wgc c + 3, ths := ths c @ [Listener L_start, Sender S_start, KeepAlive A_start]\<rparr>)"
| k_before_new: "eff (Connect ByNew K_before) c (Connect ByNew K_start) c"
| k_before_re: "eff (Connect ByRe K_before) c (Connect ByRe K_start) (c\<lparr>rc := 0\<rparr>)"
| k_start: "Event_Set (st c) = Some e \<Longrightarrow> eff (Connect k K_start) c (Connect k K_unlock) (c\<lparr>st := e\<rparr>)"
| k_unlock_new: "eff (Connect ByNew K_unlock) c (New N_returned) (c\<lparr>mx := False\<rparr>)"
| k_unlock_re: "eff (Connect ByRe K_unlock) c Finished (c\<lparr>mx := False\<rparr>)"
| k_fail_new: "eff (Connect ByNew (K_fail e)) c (New (N_buffer e)) (c\<lparr>mx := False\<rparr>)"
| k_fail_re: "eff (Connect ByRe (K_fail e)) c (Re (R_check e)) (c\<lparr>mx := False\<rparr>)"
| n_cancel: "eff (New (N_cancel e)) c (New (N_failed e)) (c\<lparr>cdone := True\<rparr>)"
| r_stop: "clo c \<Longrightarrow> eff (Re (R_check e)) c (Re R_exit) c"
| r_again: "\<not> clo c \<Longrightarrow> eff (Re (R_check e)) c (Re R_sleep) c"
| r_done: "cdone c \<Longrightarrow> eff (Re R_sleep) c (Re R_exit) c"
| r_exit: "eff (Re R_exit) c Finished (c\<lparr>rc := 0\<rparr>)"
| rc_check: "\<not> clo c \<Longrightarrow> eff (Reconnecting k RC_check) c (Reconnecting k RC_cas) c"
| rc_lost: "rc c \<noteq> 0 \<Longrightarrow> eff (Reconnecting k RC_cas) c (return_to k) c"
| rc_won: "rc c = 0 \<Longrightarrow>
    eff (Reconnecting k RC_cas) c (return_to k) (c\<lparr>rc := 1, ths := ths c @ [Disconnect ByReconnect D_stop]\<rparr>)"
| l_start: "ev_v (st c) \<Longrightarrow> eff (Listener L_start) c (Listener L_loop) c"
| s_start: "ev_v (st c) \<Longrightarrow> eff (Sender S_start) c (Sender S_unacked) c"
| a_start: "ev_v (st c) \<Longrightarrow> eff (KeepAlive A_start) c (KeepAlive A_enter) c"
| l_stop: "ev_v (sp c) \<Longrightarrow> eff (Listener L_loop) c Exit c"
| s_stop: "ev_v (sp c) \<Longrightarrow> eff (Sender S_loop) c Exit c"
| l_loop: "\<not> ev_v (sp c) \<Longrightarrow> eff (Listener L_loop) c (Listener L_read) c"
| s_loop: "\<not> ev_v (sp c) \<Longrightarrow> eff (Sender S_loop) c (Sender S_backoff) c"
| l_back: "eff (Listener (L_process m)) c (Listener L_loop) (c\<lparr>bt := d\<rparr>)"
| s_free: "bt c = 0 \<Longrightarrow> eff (Sender S_backoff) c (Sender S_next) c"
| s_back: "bt c \<noteq> 0 \<Longrightarrow> eff (Sender S_backoff) c (Sender (S_wait (backoff_duration (bt c)))) (c\<lparr>bt := 0\<rparr>)"
| s_done: "cdone c \<Longrightarrow> eff (Sender (S_wait d)) c Exit c"
| a_stop: "ev_v (sp c) \<Longrightarrow> eff (KeepAlive A_enter) c Exit c"
| a_park: "WaitFor_enter (sp c) = (Some w, e) \<Longrightarrow> eff (KeepAlive A_enter) c (KeepAlive (A_parked w)) (c\<lparr>sp := e\<rparr>)"
| a_wake: "chan_readable (ev_chan (sp c) w) \<Longrightarrow>
    eff (KeepAlive (A_parked w)) c Exit (c\<lparr>sp := snd (WaitFor_wake w (sp c))\<rparr>)"
| a_timer: "eff (KeepAlive (A_parked w)) c (KeepAlive A_ping) (c\<lparr>sp := snd (WaitFor_timeout w (sp c))\<rparr>)"
| w_exit: "eff Exit c Finished (c\<lparr>wgc := wgc c - 1\<rparr>)"

definition goto :: "nat \<Rightarrow> pc \<Rightarrow> ctl \<Rightarrow> ctl" where
  "goto t pc c = c\<lparr>ths := (ths c)[t := pc]\<rparr>"

text \<open>The steps of the system: a thread, a call of the application, or a step that does not concern the skeleton.\<close>

inductive ctl_step :: "nat option \<Rightarrow> ctl \<Rightarrow> ctl \<Rightarrow> bool" where
  thread: "t < length (ths c) \<Longrightarrow> eff (ths c ! t) c pc' c1 \<Longrightarrow> ctl_step (Some t) c (goto t pc' c1)"
| app: "New N_returned \<in> set (ths c) \<Longrightarrow> pc \<in> {Reconnecting FromApp RC_check, Closing C_closing} \<Longrightarrow> ctl_step None c (c\<lparr>ths := ths c @ [pc]\<rparr>)"
| still: "ctl_step None c c"

end
