(* ===== verification/ClientInv.thy ===== *)
theory ClientInv
  imports ClientControl
begin

text \<open>
  The invariant of the control skeleton. Threads are counted by the regions of the code their
  program counters are in; that two threads are not in the same region, or not in two
  regions at once, is an equation or an inequation of counts.
\<close>

section \<open>Regions\<close>

text \<open>Holding \<open>connMutex\<close>.\<close>

fun locked :: "pc \<Rightarrow> bool" where
  "locked (Disconnect _ D_close) = True"
| "locked (Disconnect _ (D_wait _)) = True"
| "locked (Connect _ pc) = (pc \<noteq> K_lock)"
| "locked (Reconnecting (FromConnect _ _) _) = True"
| "locked _ = False"

text \<open>The goroutine that set \<open>isReconnecting\<close> and has not handed it back.\<close>

fun owner :: "pc \<Rightarrow> bool" where
  "owner (Disconnect k _) = (k = ByReconnect)"
| "owner (Re _) = True"
| "owner (Connect k pc) = (k = ByRe \<and> pc \<noteq> K_start \<and> pc \<noteq> K_unlock)"
| "owner (Reconnecting (FromConnect k _) _) = (k = ByRe)"
| "owner _ = False"

text \<open>The owner is about to take the connection down.\<close>

fun tearing :: "pc \<Rightarrow> bool" where
  "tearing (Disconnect k _) = (k = ByReconnect)"
| "tearing _ = False"

text \<open>It has already stopped the workers.\<close>

fun stopping :: "pc \<Rightarrow> bool" where
  "stopping (Disconnect k pc) = (k = ByReconnect \<and> pc \<noteq> D_stop)"
| "stopping _ = False"

fun worker :: "pc \<Rightarrow> bool" where
  "worker (Listener _) = True"
| "worker (Sender _) = True"
| "worker (KeepAlive _) = True"
| "worker Exit = True"
| "worker (Reconnecting k _) = (k = FromListenerError \<or> k = FromListener \<or> k = FromSender \<or> k = FromKeepAlive)"
| "worker _ = False"

text \<open>A worker that waits for \<open>isStart\<close>.\<close>

fun starting :: "pc \<Rightarrow> bool" where
  "starting (Listener pc) = (pc = L_start)"
| "starting (Sender pc) = (pc = S_start)"
| "starting (KeepAlive pc) = (pc = A_start)"
| "starting _ = False"

fun listening :: "pc \<Rightarrow> bool" where
  "listening (Listener _) = True"
| "listening (Reconnecting k _) = (k = FromListenerError \<or> k = FromListener)"
| "listening _ = False"

fun sending :: "pc \<Rightarrow> bool" where
  "sending (Sender _) = True"
| "sending _ = False"

fun pinging :: "pc \<Rightarrow> bool" where
  "pinging (KeepAlive _) = True"
| "pinging _ = False"

text \<open>A connection is being made: between \<open>disconnect\<close> and the start of the new workers.\<close>

fun dialing :: "pc \<Rightarrow> bool" where
  "dialing (Re _) = True"
| "dialing (Connect k pc) = (pc \<noteq> K_before \<and> pc \<noteq> K_start \<and> pc \<noteq> K_unlock)"
| "dialing (Reconnecting (FromConnect k _) _) = True"
| "dialing _ = False"

text \<open>\<open>NewClient\<close> has not failed yet; and it has not even started its workers.\<close>

fun fresh :: "pc \<Rightarrow> bool" where
  "fresh (Connect k pc) = (k = ByNew \<and> pc \<noteq> K_before \<and> pc \<noteq> K_start \<and> pc \<noteq> K_unlock \<and> (\<forall>e. pc \<noteq> K_fail e) \<and> (\<forall>n e. pc \<noteq> K_abort n e))"
| "fresh _ = False"

text \<open>A failing connection of \<open>NewClient\<close>, and any connection of \<open>Reconnect\<close>.\<close>

fun aborting :: "pc \<Rightarrow> bool" where
  "aborting (Connect k pc) = (k = ByNew \<and> ((\<exists>e. pc = K_fail e) \<or> (\<exists>n e. pc = K_abort n e)))"
| "aborting (Reconnecting (FromConnect k _) _) = (k = ByNew)"
| "aborting _ = False"

fun redialing :: "pc \<Rightarrow> bool" where
  "redialing (Re _) = True"
| "redialing (Connect k pc) = (k = ByRe \<and> pc \<noteq> K_before \<and> pc \<noteq> K_start \<and> pc \<noteq> K_unlock)"
| "redialing (Reconnecting (FromConnect k _) _) = (k = ByRe)"
| "redialing _ = False"

text \<open>\<open>isStart\<close> has been cleared and not been set again.\<close>

fun cleared :: "pc \<Rightarrow> bool" where
  "cleared (Connect _ pc) = (pc \<noteq> K_lock \<and> pc \<noteq> K_check \<and> pc \<noteq> K_clear \<and> pc \<noteq> K_unlock \<and> (\<forall>e. pc \<noteq> K_fail e))"
| "cleared (Reconnecting (FromConnect _ _) _) = True"
| "cleared _ = False"

text \<open>The workers have been started and \<open>isStart\<close> is not set yet.\<close>

fun launching :: "pc \<Rightarrow> bool" where
  "launching (Connect _ pc) = (pc = K_before \<or> pc = K_start)"
| "launching _ = False"

fun building :: "pc \<Rightarrow> bool" where
  "building (Connect k _) = (k = ByNew)"
| "building (Reconnecting (FromConnect k _) _) = (k = ByNew)"
| "building (New _) = True"
| "building _ = False"

text \<open>Calls of the application, which has the client.\<close>

fun called :: "pc \<Rightarrow> bool" where
  "called (Closing _) = True"
| "called (Disconnect k _) = (k = ByClose)"
| "called (Reconnecting k _) = (k = FromApp)"
| "called _ = False"

fun handed_out :: "pc \<Rightarrow> bool" where
  "handed_out (New N_returned) = True"
| "handed_out _ = False"

text \<open>\<open>Close\<close>: after its first line, after \<open>closeCancel\<close>, and after \<open>disconnect\<close>.\<close>

fun closing :: "pc \<Rightarrow> bool" where
  "closing (Closing pc) = (pc \<noteq> C_closing)"
| "closing (Disconnect k _) = (k = ByClose)"
| "closing _ = False"

fun canceled :: "pc \<Rightarrow> bool" where
  "canceled (Closing pc) = (pc \<noteq> C_closing \<and> pc \<noteq> C_lifetime \<and> pc \<noteq> C_cancel)"
| "canceled (Disconnect k _) = (k = ByClose)"
| "canceled _ = False"

fun joined :: "pc \<Rightarrow> bool" where
  "joined (Closing pc) = (pc \<noteq> C_closing \<and> pc \<noteq> C_lifetime \<and> pc \<noteq> C_cancel \<and> pc \<noteq> C_buffer)"
| "joined _ = False"

text \<open>Past the first check of \<open>isClosing\<close> while connecting.\<close>

fun committed :: "pc \<Rightarrow> bool" where
  "committed (Connect _ pc) = (pc \<noteq> K_lock \<and> pc \<noteq> K_check \<and> (\<forall>e. pc \<noteq> K_fail e))"
| "committed (Reconnecting (FromConnect _ _) _) = True"
| "committed _ = False"

fun waiting :: "pc \<Rightarrow> bool" where
  "waiting (Disconnect _ (D_wait _)) = True"
| "waiting _ = False"

text \<open>The socket a connecting thread holds.\<close>

fun socket_of :: "pc \<Rightarrow> nat option" where
  "socket_of (Connect _ (K_header n)) = Some n"
| "socket_of (Connect _ (K_read n)) = Some n"
| "socket_of (Connect _ (K_after n _)) = Some n"
| "socket_of (Connect _ (K_process n _)) = Some n"
| "socket_of (Connect _ (K_abort n _)) = Some n"
| "socket_of (Connect _ (K_check2 n)) = Some n"
| "socket_of (Connect _ (K_stop n)) = Some n"
| "socket_of (Connect _ (K_spawn n)) = Some n"
| "socket_of (Reconnecting (FromConnect _ n) _) = Some n"
| "socket_of _ = None"

text \<open>What a program counter says by itself: the window it carries can be allocated, the throttle is at most a day.\<close>

fun sane :: "pc \<Rightarrow> bool" where
  "sane (Connect _ (K_after _ m)) = make_ok (WindowSize m)"
| "sane (Connect _ (K_process _ m)) = make_ok (WindowSize m)"
| "sane (Listener (L_process m)) = make_ok (WindowSize m)"
| "sane (Sender (S_wait d)) = (0 < d \<and> d \<le> 86400 * Second)"
| "sane _ = True"

section \<open>Counting\<close>

definition cnt :: "(pc \<Rightarrow> bool) \<Rightarrow> pc list \<Rightarrow> int" where
  "cnt P ts = int (length (filter P ts))"

lemma cnt_simps [simp]:
  "cnt P [] = 0" "cnt P (pc # ts) = of_bool (P pc) + cnt P ts" "cnt P (ts @ us) = cnt P ts + cnt P us"
  by (simp_all add: cnt_def)

lemma cnt_nonneg: "0 \<le> cnt P ts"
  by (simp add: cnt_def)

lemma cnt_update:
  assumes "t < length ts"
  shows "cnt P (ts[t := pc]) = cnt P ts - of_bool (P (ts ! t)) + of_bool (P pc)"
proof -
  have "cnt P ts = cnt P (take t ts) + (of_bool (P (ts ! t)) + cnt P (drop (Suc t) ts))"
    using arg_cong [OF id_take_nth_drop [OF assms], of "cnt P"] by simp
  then show ?thesis using assms by (simp add: upd_conv_take_nth_drop)
qed

lemma cnt_ge: "t < length ts \<Longrightarrow> of_bool (P (ts ! t)) \<le> cnt P ts"
  using cnt_nonneg [of P "ts[t := ts ! t]"] by (auto simp: cnt_def filter_empty_conv of_bool_def Suc_le_eq)

lemma cnt_pos: "0 < cnt P ts \<longleftrightarrow> (\<exists>pc \<in> set ts. P pc)"
  by (auto simp: cnt_def filter_empty_conv)

lemma cnt_zero: "cnt P ts = 0 \<longleftrightarrow> (\<forall>pc \<in> set ts. \<not> P pc)"
  by (auto simp: cnt_def filter_empty_conv)

lemma cnt_mono: "(\<And>pc. P pc \<Longrightarrow> Q pc) \<Longrightarrow> cnt P ts \<le> cnt Q ts"
  by (induction ts) (auto simp: of_bool_def)

lemma cnt_disjoint: "(\<And>pc. P pc \<Longrightarrow> R pc \<and> \<not> Q pc) \<Longrightarrow> (\<And>pc. Q pc \<Longrightarrow> R pc) \<Longrightarrow> cnt P ts + cnt Q ts \<le> cnt R ts"
  by (induction ts) (auto simp: of_bool_def)

lemma cnt_split: "(\<And>pc. of_bool (R pc) = (of_bool (P pc) + of_bool (Q pc) :: int)) \<Longrightarrow> cnt R ts = cnt P ts + cnt Q ts"
  by (induction ts) auto

text \<open>How the regions lie in each other.\<close>

lemma regions:
  "of_bool (dialing pc) = (of_bool (fresh pc) + of_bool (aborting pc) + of_bool (redialing pc) :: int) \<and>
   of_bool (aborting pc) + of_bool (waiting pc) \<le> (of_bool (locked pc) :: int) \<and>
   of_bool (committed pc) + of_bool (waiting pc) \<le> (of_bool (locked pc) :: int) \<and>
   of_bool (launching pc) \<le> (of_bool (cleared pc) :: int) \<and>
   of_bool (cleared pc) \<le> (of_bool (committed pc) :: int) \<and>
   of_bool (redialing pc) + of_bool (tearing pc) \<le> (of_bool (owner pc) :: int) \<and>
   of_bool (stopping pc) \<le> (of_bool (tearing pc) :: int) \<and>
   of_bool (fresh pc) + of_bool (aborting pc) + of_bool (handed_out pc) \<le> (of_bool (building pc) :: int) \<and>
   of_bool (starting pc) \<le> (of_bool (worker pc) :: int) \<and>
   of_bool (listening pc) + of_bool (sending pc) + of_bool (pinging pc) \<le> (of_bool (worker pc) :: int) \<and>
   of_bool (joined pc) \<le> (of_bool (canceled pc) :: int) \<and>
   of_bool (canceled pc) \<le> (of_bool (closing pc) :: int) \<and>
   of_bool (closing pc) \<le> (of_bool (called pc) :: int)"
proof (cases pc)
  case (Disconnect k p)
  then show ?thesis by (cases p; cases k) simp_all
next
  case (Closing p)
  then show ?thesis by (cases p) simp_all
next
  case (Connect k p)
  then show ?thesis by (cases p; cases k) simp_all
next
  case (New p)
  then show ?thesis by (cases p) simp_all
next
  case (Reconnecting k p)
  then show ?thesis by (cases k rule: return_to.cases) (simp_all, metis connect_caller.exhaust)
next
  case (Listener p)
  then show ?thesis by simp
next
  case (Sender p)
  then show ?thesis by simp
next
  case (KeepAlive p)
  then show ?thesis by simp
qed simp_all

lemma counts:
  "cnt dialing ts = cnt fresh ts + cnt aborting ts + cnt redialing ts \<and>
   cnt aborting ts + cnt waiting ts \<le> cnt locked ts \<and>
   cnt committed ts + cnt waiting ts \<le> cnt locked ts \<and>
   cnt launching ts \<le> cnt cleared ts \<and>
   cnt cleared ts \<le> cnt committed ts \<and>
   cnt redialing ts + cnt tearing ts \<le> cnt owner ts \<and>
   cnt stopping ts \<le> cnt tearing ts \<and>
   cnt fresh ts + cnt aborting ts + cnt handed_out ts \<le> cnt building ts \<and>
   cnt starting ts \<le> cnt worker ts \<and>
   cnt listening ts + cnt sending ts + cnt pinging ts \<le> cnt worker ts \<and>
   cnt joined ts \<le> cnt canceled ts \<and>
   cnt canceled ts \<le> cnt closing ts \<and>
   cnt closing ts \<le> cnt called ts"
proof (induction ts)
  case (Cons pc ts)
  then show ?case using regions [of pc] by simp
qed simp

section \<open>The invariant\<close>

text \<open>Mutual exclusion: one holder of the mutex, one owner of the reconnect, one \<open>NewClient\<close>, the worker counter.\<close>

definition exclusive :: "ctl \<Rightarrow> bool" where
  "exclusive c \<longleftrightarrow> cnt locked (ths c) = of_bool (mx c) \<and> cnt owner (ths c) = uint (rc c) \<and> uint (rc c) \<le> 1 \<and>
     cnt worker (ths c) = wgc c \<and> cnt building (ths c) = 1 \<and>
     cnt listening (ths c) \<le> 1 \<and> cnt sending (ths c) \<le> 1 \<and> cnt pinging (ths c) \<le> 1"

text \<open>
  Phases: there is no worker while a connection is made, no owner before \<open>NewClient\<close> has failed
  or started its workers, and the workers start together.
\<close>

definition phases :: "ctl \<Rightarrow> bool" where
  "phases c \<longleftrightarrow>
     (0 < cnt fresh (ths c) \<longrightarrow> cnt owner (ths c) = 0 \<and> cnt called (ths c) = 0) \<and>
     (0 < cnt called (ths c) \<longrightarrow> 0 < cnt handed_out (ths c)) \<and>
     cnt dialing (ths c) \<le> 1 \<and> (0 < cnt dialing (ths c) \<longrightarrow> cnt worker (ths c) = 0 \<and> cn c = None) \<and>
     (0 < cnt worker (ths c) \<longrightarrow> cn c \<noteq> None) \<and>
     (0 < cnt cleared (ths c) \<longrightarrow> \<not> ev_v (st c)) \<and>
     (0 < cnt launching (ths c) \<longrightarrow> cnt worker (ths c) = cnt starting (ths c)) \<and>
     (0 < cnt worker (ths c) \<longrightarrow> ev_v (st c) \<or> 0 < cnt launching (ths c))"

text \<open>What a call of \<open>disconnect\<close> or \<open>Close\<close> has achieved.\<close>

definition shut :: "ctl \<Rightarrow> bool" where
  "shut c \<longleftrightarrow>
     (0 < cnt stopping (ths c) \<longrightarrow> ev_v (sp c)) \<and>
     (0 < cnt closing (ths c) \<longrightarrow> clo c) \<and> (0 < cnt canceled (ths c) \<longrightarrow> cdone c) \<and>
     (0 < cnt joined (ths c) \<longrightarrow> cnt worker (ths c) = 0 \<and> cn c = None \<and> cnt committed (ths c) = 0)"

text \<open>Every open socket belongs to the client or to a thread that connects.\<close>

definition held :: "pc list \<Rightarrow> nat set" where
  "held ts = {n. \<exists>pc \<in> set ts. socket_of pc = Some n}"

definition sockets_ok :: "ctl \<Rightarrow> bool" where
  "sockets_ok c \<longleftrightarrow> (\<forall>n \<in> set (sk c). cn c = Some n \<or> n \<in> held (ths c)) \<and>
     set (sk c) \<union> held (ths c) \<union> set_option (cn c) \<subseteq> {..<nsk c} \<and>
     (0 < cnt waiting (ths c) \<longrightarrow> set (sk c) \<inter> set_option (cn c) = {})"

definition event_ok :: "Event \<Rightarrow> nat set \<Rightarrow> bool" where
  "event_ok e P = event_inv \<lparr>es_event = e, es_parked = P\<rparr>"

definition parked :: "pc list \<Rightarrow> nat set" where
  "parked ts = {w. KeepAlive (A_parked w) \<in> set ts}"

definition events_ok :: "ctl \<Rightarrow> bool" where
  "events_ok c \<longleftrightarrow> event_ok (st c) {} \<and> event_ok (sp c) (parked (ths c))"

definition ctl_inv :: "ctl \<Rightarrow> bool" where
  "ctl_inv c \<longleftrightarrow> exclusive c \<and> phases c \<and> shut c \<and> sockets_ok c \<and> events_ok c \<and> (\<forall>pc \<in> set (ths c). sane pc)"

end
