(* ===== verification/ClientSteps.thy ===== *)
theory ClientSteps
  imports ClientInv
begin

text \<open>
  Every step of the control skeleton keeps its invariant, one part of the invariant at a time.
\<close>

section \<open>Regions of a call of Reconnect\<close>

fun via :: "reconnect_caller \<Rightarrow> connect_caller option" where
  "via (FromConnect k _) = Some k"
| "via _ = None"

lemma call_regions [simp]:
  "locked (Reconnecting k p) \<longleftrightarrow> via k \<noteq> None" "locked (return_to k) \<longleftrightarrow> via k \<noteq> None"
  "owner (Reconnecting k p) \<longleftrightarrow> via k = Some ByRe" "owner (return_to k) \<longleftrightarrow> via k = Some ByRe"
  "redialing (Reconnecting k p) \<longleftrightarrow> via k = Some ByRe" "redialing (return_to k) \<longleftrightarrow> via k = Some ByRe"
  "aborting (Reconnecting k p) \<longleftrightarrow> via k = Some ByNew" "aborting (return_to k) \<longleftrightarrow> via k = Some ByNew"
  "building (Reconnecting k p) \<longleftrightarrow> via k = Some ByNew" "building (return_to k) \<longleftrightarrow> via k = Some ByNew"
  "dialing (Reconnecting k p) \<longleftrightarrow> via k \<noteq> None" "dialing (return_to k) \<longleftrightarrow> via k \<noteq> None"
  "cleared (Reconnecting k p) \<longleftrightarrow> via k \<noteq> None" "cleared (return_to k) \<longleftrightarrow> via k \<noteq> None"
  "committed (Reconnecting k p) \<longleftrightarrow> via k \<noteq> None" "committed (return_to k) \<longleftrightarrow> via k \<noteq> None"
  "worker (return_to k) \<longleftrightarrow> k = FromListenerError \<or> k = FromListener \<or> k = FromSender \<or> k = FromKeepAlive"
  "socket_of (return_to k) = socket_of (Reconnecting k RC_check)" "socket_of (Reconnecting k RC_cas) = socket_of (Reconnecting k RC_check)"
  "\<not> tearing (return_to k)" "\<not> stopping (return_to k)" "\<not> starting (return_to k)" "\<not> sending (return_to k)" "\<not> pinging (return_to k)"
  "\<not> fresh (return_to k)" "\<not> launching (return_to k)" "\<not> called (return_to k)" "\<not> handed_out (return_to k)" "\<not> closing (return_to k)"
  "\<not> canceled (return_to k)" "\<not> joined (return_to k)" "\<not> waiting (return_to k)" "sane (return_to k)"
  "listening (return_to k) \<longleftrightarrow> k = FromListener"
  by (cases k; simp)+

lemma return_to_parked: "return_to k \<noteq> KeepAlive p"
  by (cases k) simp_all

lemma two_callers: "k \<noteq> ByRe \<longleftrightarrow> k = ByNew" "d \<noteq> ByReconnect \<longleftrightarrow> d = ByClose"
  by (metis connect_caller.exhaust connect_caller.distinct(1)) (metis disc_caller.exhaust disc_caller.distinct(1))

section \<open>Moves stay within the regions\<close>

lemma move_regions:
  assumes "move pc pc'"
  shows "owner pc' = owner pc \<and> worker pc' = worker pc \<and> dialing pc' = dialing pc \<and> launching pc' = launching pc \<and> starting pc' = starting pc \<and> handed_out pc' = handed_out pc \<and> locked pc' = locked pc \<and> building pc' = building pc \<and> closing pc' = closing pc \<and> tearing pc' = tearing pc \<and> stopping pc' = stopping pc \<and> waiting pc' = waiting pc \<and>
    (called pc' \<longrightarrow> called pc) \<and> (fresh pc' \<longrightarrow> fresh pc) \<and> (cleared pc' \<longrightarrow> cleared pc) \<and> (committed pc' \<longrightarrow> committed pc) \<and> (canceled pc' \<longrightarrow> canceled pc) \<and> (joined pc' \<longrightarrow> joined pc) \<and> (listening pc' \<longrightarrow> listening pc) \<and> (sending pc' \<longrightarrow> sending pc) \<and> (pinging pc' \<longrightarrow> pinging pc) \<and> (sane pc \<longrightarrow> sane pc') \<and>
    socket_of pc' = socket_of pc \<and> (\<forall>w. pc \<noteq> KeepAlive (A_parked w) \<and> pc' \<noteq> KeepAlive (A_parked w))"
  using assms by cases (simp_all add: return_to_parked)

lemma cnt_move:
  assumes "t < length (ths c)"
  shows "P pc' = P (ths c ! t) \<Longrightarrow> cnt P (ths (goto t pc' c)) = cnt P (ths c)"
    and "P pc' \<longrightarrow> P (ths c ! t) \<Longrightarrow> cnt P (ths (goto t pc' c)) \<le> cnt P (ths c)"
  using assms by (auto simp: goto_def cnt_update)

lemma counts_move:
  assumes t: "t < length (ths c)" and m: "move (ths c ! t) pc'"
  shows "cnt owner (ths (goto t pc' c)) = cnt owner (ths c) \<and> cnt worker (ths (goto t pc' c)) = cnt worker (ths c) \<and> cnt dialing (ths (goto t pc' c)) = cnt dialing (ths c) \<and> cnt launching (ths (goto t pc' c)) = cnt launching (ths c) \<and> cnt starting (ths (goto t pc' c)) = cnt starting (ths c) \<and> cnt handed_out (ths (goto t pc' c)) = cnt handed_out (ths c) \<and> cnt locked (ths (goto t pc' c)) = cnt locked (ths c) \<and> cnt building (ths (goto t pc' c)) = cnt building (ths c) \<and> cnt closing (ths (goto t pc' c)) = cnt closing (ths c) \<and> cnt tearing (ths (goto t pc' c)) = cnt tearing (ths c) \<and> cnt stopping (ths (goto t pc' c)) = cnt stopping (ths c) \<and> cnt waiting (ths (goto t pc' c)) = cnt waiting (ths c) \<and>
    cnt called (ths (goto t pc' c)) \<le> cnt called (ths c) \<and> cnt fresh (ths (goto t pc' c)) \<le> cnt fresh (ths c) \<and> cnt cleared (ths (goto t pc' c)) \<le> cnt cleared (ths c) \<and> cnt committed (ths (goto t pc' c)) \<le> cnt committed (ths c) \<and> cnt canceled (ths (goto t pc' c)) \<le> cnt canceled (ths c) \<and> cnt joined (ths (goto t pc' c)) \<le> cnt joined (ths c) \<and> cnt listening (ths (goto t pc' c)) \<le> cnt listening (ths c) \<and> cnt sending (ths (goto t pc' c)) \<le> cnt sending (ths c) \<and> cnt pinging (ths (goto t pc' c)) \<le> cnt pinging (ths c)"
proof -
  note r = move_regions [OF m]
  show ?thesis by (intro conjI cnt_move [OF t]) (simp_all add: r)
qed

lemma goto_fields [simp]:
  "mx (goto t pc c) = mx c" "rc (goto t pc c) = rc c" "wgc (goto t pc c) = wgc c" "cn (goto t pc c) = cn c" "clo (goto t pc c) = clo c"
  "cdone (goto t pc c) = cdone c" "st (goto t pc c) = st c" "sp (goto t pc c) = sp c" "bt (goto t pc c) = bt c" "sk (goto t pc c) = sk c"
  "nsk (goto t pc c) = nsk c" "ths (goto t pc c) = (ths c)[t := pc]"
  by (simp_all add: goto_def)

section \<open>A thread that is alone in a region\<close>

lemma cnt_alone:
  assumes "t < length ts" and "cnt Q ts \<le> 1" and "Q (ts ! t)" and "\<And>pc. P pc \<Longrightarrow> Q pc"
  shows "cnt P ts = of_bool (P (ts ! t))"
proof -
  let ?R = "\<lambda>pc. Q pc \<and> \<not> P pc"
  have "cnt Q ts = cnt P ts + cnt ?R ts" using assms(4) by (intro cnt_split) (auto simp: of_bool_def)
  moreover have "of_bool (P (ts ! t)) \<le> cnt P ts" "of_bool (?R (ts ! t)) \<le> cnt ?R ts" using cnt_ge [OF assms(1), of P] cnt_ge [OF assms(1), of ?R] by simp_all
  ultimately show ?thesis
    using assms(2,3) cnt_nonneg [of P ts] cnt_nonneg [of ?R ts] by (auto simp: of_bool_def split: if_splits)
qed

lemma within:
  "cleared pc \<Longrightarrow> locked pc" "launching pc \<Longrightarrow> locked pc" "committed pc \<Longrightarrow> locked pc" "aborting pc \<Longrightarrow> locked pc" "waiting pc \<Longrightarrow> locked pc"
  "redialing pc \<Longrightarrow> owner pc" "tearing pc \<Longrightarrow> owner pc" "stopping pc \<Longrightarrow> owner pc"
  "fresh pc \<Longrightarrow> building pc" "handed_out pc \<Longrightarrow> building pc"
  by (auto elim: cleared.elims(2) launching.elims(2) committed.elims(2) aborting.elims(2) waiting.elims(2) redialing.elims(2)
      tearing.elims(2) stopping.elims(2) fresh.elims(2) handed_out.elims(2))

lemma alone:
  assumes t: "t < length (ths c)" "ths c ! t = pc" and inv: "exclusive c" "phases c"
  shows "locked pc \<Longrightarrow> mx c \<and> cnt cleared (ths c) = of_bool (cleared pc) \<and> cnt launching (ths c) = of_bool (launching pc) \<and>
      cnt committed (ths c) = of_bool (committed pc) \<and> cnt aborting (ths c) = of_bool (aborting pc) \<and> cnt waiting (ths c) = of_bool (waiting pc)"
    and "owner pc \<Longrightarrow> uint (rc c) = 1 \<and> cnt fresh (ths c) = 0 \<and> cnt redialing (ths c) = of_bool (redialing pc) \<and>
      cnt tearing (ths c) = of_bool (tearing pc) \<and> cnt stopping (ths c) = of_bool (stopping pc)"
    and "building pc \<Longrightarrow> cnt fresh (ths c) = of_bool (fresh pc) \<and> cnt handed_out (ths c) = of_bool (handed_out pc)"
    and "dialing pc \<Longrightarrow> cnt dialing (ths c) = 1 \<and> cnt worker (ths c) = 0 \<and> cn c = None"
    and "worker pc \<Longrightarrow> 0 < cnt worker (ths c) \<and> cnt dialing (ths c) = 0 \<and> cn c \<noteq> None"
    and "called pc \<Longrightarrow> cnt fresh (ths c) = 0 \<and> 0 < cnt handed_out (ths c)"
    and "fresh pc \<Longrightarrow> uint (rc c) = 0 \<and> cnt called (ths c) = 0"
    and "cleared pc \<Longrightarrow> \<not> ev_v (st c)"
    and "launching pc \<Longrightarrow> cnt worker (ths c) = cnt starting (ths c)"
proof -
  note ge = cnt_ge [OF t(1), unfolded t(2)]
  have l: "cnt locked (ths c) = of_bool (mx c)" "cnt owner (ths c) = uint (rc c)" "uint (rc c) \<le> 1" "cnt building (ths c) = 1"
    using inv(1) by (simp_all add: exclusive_def)
  then have l1: "cnt locked (ths c) \<le> 1" "cnt owner (ths c) \<le> 1" "cnt building (ths c) \<le> 1" by simp_all
  note al = cnt_alone [OF t(1), unfolded t(2)]
  show "locked pc \<Longrightarrow> mx c \<and> cnt cleared (ths c) = of_bool (cleared pc) \<and> cnt launching (ths c) = of_bool (launching pc) \<and>
      cnt committed (ths c) = of_bool (committed pc) \<and> cnt aborting (ths c) = of_bool (aborting pc) \<and> cnt waiting (ths c) = of_bool (waiting pc)"
    using al [OF l1(1)] within(1-5) ge [of locked] l(1) by (auto split: if_splits)
  show o: "owner pc \<Longrightarrow> uint (rc c) = 1 \<and> cnt fresh (ths c) = 0 \<and> cnt redialing (ths c) = of_bool (redialing pc) \<and>
      cnt tearing (ths c) = of_bool (tearing pc) \<and> cnt stopping (ths c) = of_bool (stopping pc)"
    using al [OF l1(2)] within(6-8) ge [of owner] l(2,3) inv(2) cnt_nonneg [of fresh "ths c"] by (auto simp: phases_def)
  show "building pc \<Longrightarrow> cnt fresh (ths c) = of_bool (fresh pc) \<and> cnt handed_out (ths c) = of_bool (handed_out pc)"
    using al [OF l1(3)] within(9,10) by blast
  show d: "dialing pc \<Longrightarrow> cnt dialing (ths c) = 1 \<and> cnt worker (ths c) = 0 \<and> cn c = None"
    using ge [of dialing] inv(2) by (auto simp: phases_def)
  show "worker pc \<Longrightarrow> 0 < cnt worker (ths c) \<and> cnt dialing (ths c) = 0 \<and> cn c \<noteq> None"
    using ge [of worker] inv(2) cnt_nonneg [of dialing "ths c"] by (auto simp: phases_def)
  show "called pc \<Longrightarrow> cnt fresh (ths c) = 0 \<and> 0 < cnt handed_out (ths c)"
    using ge [of called] inv(2) cnt_nonneg [of fresh "ths c"] by (auto simp: phases_def)
  show "fresh pc \<Longrightarrow> uint (rc c) = 0 \<and> cnt called (ths c) = 0" using ge [of fresh] inv(2) l(2) by (auto simp: phases_def)
  show "cleared pc \<Longrightarrow> \<not> ev_v (st c)" using ge [of cleared] inv(2) by (auto simp: phases_def)
  show "launching pc \<Longrightarrow> cnt worker (ths c) = cnt starting (ths c)" using ge [of launching] inv(2) by (auto simp: phases_def)
qed

section \<open>Mutual exclusion\<close>

lemma exclusive_eff:
  assumes eff: "eff pc c pc' c1" and t: "t < length (ths c)" "ths c ! t = pc" and inv: "exclusive c" "phases c"
  shows "exclusive (goto t pc' c1)"
proof -
  note al = alone [OF t inv]
  from eff show ?thesis
  proof cases
    case moved
    then show ?thesis using inv(1) counts_move [OF t(1), of pc'] t(2) by (simp add: exclusive_def del: goto_fields(12))
  next
    case (k_spawn k n)
    then have "0 < cnt dialing (ths c)" using cnt_ge [OF t(1), of dialing] t by simp
    then have "cnt worker (ths c) = 0" using inv(2) by (simp add: phases_def)
    then have "cnt listening (ths c) = 0" "cnt sending (ths c) = 0" "cnt pinging (ths c) = 0"
      using counts [of "ths c"] cnt_nonneg [of listening "ths c"] cnt_nonneg [of sending "ths c"] cnt_nonneg [of pinging "ths c"] by linarith+
    then show ?thesis using k_spawn inv(1) t by (simp add: exclusive_def cnt_update nth_append)
  next
    case (rc_won k)
    then show ?thesis using inv(1) t al(2) by (simp add: exclusive_def cnt_update nth_append)
  qed (use inv(1) t al(1,2) in \<open>simp_all add: exclusive_def cnt_update two_callers\<close>)
qed


section \<open>Phases\<close>

lemma Event_Set_v: "Event_Set e = Some e' \<Longrightarrow> ev_v e'"
  by (auto simp: Event_Set_def Let_def split: if_splits bind_splits)

lemma phases_eff:
  assumes eff: "eff pc c pc' c1" and t: "t < length (ths c)" "ths c ! t = pc" and inv: "exclusive c" "phases c"
  shows "phases (goto t pc' c1)"
proof -
  note al = alone [OF t inv]
  have x: "cnt owner (ths c) = uint (rc c)" "cnt worker (ths c) = wgc c" using inv(1) by (simp_all add: exclusive_def)
  have le: "cnt fresh (ths c) \<le> cnt dialing (ths c)" "cnt starting (ths c) \<le> cnt worker (ths c)" "cnt launching (ths c) \<le> cnt cleared (ths c)"
      "0 \<le> cnt starting (ths c)" "0 \<le> cnt fresh (ths c)" "cnt dialing (ths c) = cnt fresh (ths c) + cnt aborting (ths c) + cnt redialing (ths c)"
    using counts [of "ths c"] cnt_nonneg [of aborting "ths c"] cnt_nonneg [of redialing "ths c"] cnt_nonneg [of fresh "ths c"] cnt_nonneg [of starting "ths c"]
    by linarith+
  have unlaunched: "\<not> 0 < cnt launching (ths c)" if "ev_v (st c)"
    using that inv(2) le(3) by (simp add: phases_def)
  from eff show ?thesis
  proof cases
    case moved
    then have m: "move (ths c ! t) pc'" using t(2) by simp
    have "cnt called (ths (goto t pc' c)) = 0" if "0 < cnt fresh (ths (goto t pc' c))"
      using that inv(2) counts_move [OF t(1) m] cnt_nonneg [of called "ths (goto t pc' c)"] by (simp add: phases_def del: goto_fields(12))
    then show ?thesis using inv(2) counts_move [OF t(1) m] moved by (simp add: phases_def del: goto_fields(12))
  next
    case (d_wait_re e)
    then show ?thesis using inv(2) t al(1,2) x(2) le(6) by (simp add: phases_def cnt_update)
  next
    case (k_clear k)
    then show ?thesis using inv(2) t al(4) by (simp add: phases_def cnt_update Event_Clear_def)
  next
    case (k_spawn k n)
    then show ?thesis using inv(2) t al(4,8) le(2,4) cnt_nonneg [of launching "ths c"] by (simp add: phases_def cnt_update nth_append)
  next
    case k_before_re
    then show ?thesis using inv(2) t al(2) by (simp add: phases_def cnt_update)
  next
    case (k_start e k)
    then show ?thesis using inv(2) t al(1) Event_Set_v by (auto simp: phases_def cnt_update)
  next
    case r_exit
    then show ?thesis using inv(2) t al(2) by (simp add: phases_def cnt_update)
  next
    case (rc_lost k)
    then show ?thesis using inv(2) t al(6) by (simp add: phases_def cnt_update)
  next
    case (rc_won k)
    have "cnt fresh (ths c) = 0"
      using rc_won al(2,3,5,6) le(1,5) connect_caller.exhaust by (cases k) auto
    then show ?thesis using rc_won inv(2) t by (simp add: phases_def cnt_update nth_append)
  next
    case l_start
    then show ?thesis using inv(2) t unlaunched by (simp add: phases_def cnt_update)
  next
    case s_start
    then show ?thesis using inv(2) t unlaunched by (simp add: phases_def cnt_update)
  next
    case a_start
    then show ?thesis using inv(2) t unlaunched by (simp add: phases_def cnt_update)
  next
    case w_exit
    have "cnt worker (ths c) = cnt starting (ths c) + cnt (\<lambda>p. worker p \<and> \<not> starting p) (ths c)"
      by (intro cnt_split) (auto elim: starting.elims)
    moreover have "1 \<le> cnt (\<lambda>p. worker p \<and> \<not> starting p) (ths c)" using cnt_ge [OF t(1), of "\<lambda>p. worker p \<and> \<not> starting p"] t w_exit by simp
    ultimately have "\<not> 0 < cnt launching (ths c)" using inv(2) by (auto simp: phases_def)
    then show ?thesis using w_exit inv(2) t al(5) by (auto simp: phases_def cnt_update)
  qed (use inv(2) t x(2) in \<open>simp_all add: phases_def cnt_update two_callers cnt_nonneg\<close>)
qed

section \<open>Shutting down\<close>

lemma WaitFor_v: "ev_v (snd (WaitFor_wake w e)) = ev_v e" "ev_v (snd (WaitFor_timeout w e)) = ev_v e"
  "WaitFor_enter e = (Some w, e') \<Longrightarrow> ev_v e' = ev_v e"
  by (auto simp: WaitFor_wake_def WaitFor_timeout_def WaitFor_leave_def WaitFor_enter_def Let_def split: option.splits if_splits)

lemma shut_eff:
  assumes eff: "eff pc c pc' c1" and t: "t < length (ths c)" "ths c ! t = pc" and inv: "exclusive c" "phases c" "shut c"
  shows "shut (goto t pc' c1)"
proof -
  note al = alone [OF t inv(1,2)]
  have x: "cnt owner (ths c) = uint (rc c)" "cnt worker (ths c) = wgc c" using inv(1) by (simp_all add: exclusive_def)
  have le: "cnt stopping (ths c) \<le> cnt owner (ths c)" "cnt joined (ths c) \<le> cnt closing (ths c)" "0 \<le> cnt stopping (ths c)"
    using counts [of "ths c"] cnt_nonneg [of redialing "ths c"] cnt_nonneg [of stopping "ths c"] by linarith+
  from eff show ?thesis
  proof cases
    case moved
    then have m: "move (ths c ! t) pc'" using t(2) by simp
    have "cnt committed (ths (goto t pc' c)) = 0" if "0 < cnt joined (ths (goto t pc' c))"
      using that inv(3) counts_move [OF t(1) m] cnt_nonneg [of committed "ths (goto t pc' c)"] by (simp add: shut_def del: goto_fields(12))
    then show ?thesis using inv(3) counts_move [OF t(1) m] moved by (simp add: shut_def del: goto_fields(12))
  next
    case (d_stop e k)
    then show ?thesis using inv(3) t Event_Set_v by (auto simp: shut_def cnt_update)
  next
    case (k_stop k n)
    then have "cnt stopping (ths c) = 0" using al(2,7) x(1) le by (cases k) auto
    then show ?thesis using k_stop inv(3) t by (simp add: shut_def cnt_update two_callers)
  next
    case (a_park w e)
    then show ?thesis using inv(3) t WaitFor_v by (simp add: shut_def cnt_update)
  next
    case w_exit
    then show ?thesis using inv(3) t al(5) by (simp add: shut_def cnt_update)
  next
    case (rc_won k)
    then show ?thesis using inv(3) t by (simp add: shut_def cnt_update nth_append)
  next
    case (k_spawn k n)
    then show ?thesis using inv(3) t al(1) by (simp add: shut_def cnt_update nth_append)
  qed (use inv(3) t al(1) x(2) le(2) in \<open>simp_all add: shut_def cnt_update two_callers WaitFor_v\<close>)
qed

section \<open>Sockets\<close>

lemma held_update:
  assumes "t < length ts"
  shows "held (ts[t := pc']) \<subseteq> held ts \<union> set_option (socket_of pc')"
    and "n \<in> held ts \<Longrightarrow> socket_of (ts ! t) = Some n \<longrightarrow> socket_of pc' = Some n \<Longrightarrow> n \<in> held (ts[t := pc'])"
proof -
  show "held (ts[t := pc']) \<subseteq> held ts \<union> set_option (socket_of pc')"
    using set_update_subset_insert [of ts t pc'] by (fastforce simp: held_def)
  assume n: "n \<in> held ts" and s: "socket_of (ts ! t) = Some n \<longrightarrow> socket_of pc' = Some n"
  from n obtain i where i: "i < length ts" "socket_of (ts ! i) = Some n" by (auto simp: held_def in_set_conv_nth)
  have "socket_of (ts[t := pc'] ! i) = Some n" using i s by (cases "i = t") simp_all
  then show "n \<in> held (ts[t := pc'])" unfolding held_def using i(1) by (intro CollectI bexI [of _ "ts[t := pc'] ! i"]) simp_all
qed

lemma held_append: "held (ts @ us) = held ts \<union> held us"
  by (auto simp: held_def)

lemma held_at: "t < length ts \<Longrightarrow> socket_of (ts ! t) = Some n \<Longrightarrow> n \<in> held ts"
  by (auto simp: held_def intro!: bexI [of _ "ts ! t"])

lemma sockets_same:
  assumes "sockets_ok c" and "t < length (ths c)" and "ths c1 = ths c @ new" and "held new = {}"
    and "sk c1 = sk c" "cn c1 = cn c" "nsk c1 = nsk c"
    and "socket_of pc' = socket_of (ths c ! t)" and "waiting pc' \<longrightarrow> waiting (ths c ! t)" and "cnt waiting new = 0"
  shows "sockets_ok (goto t pc' c1)"
proof -
  have h: "held ((ths c1)[t := pc']) = held (ths c)"
    using held_update [OF assms(2), where pc' = pc'] assms(2-4,8) held_at [OF assms(2)] by (auto simp: list_update_append held_append)
  have "cnt waiting ((ths c1)[t := pc']) \<le> cnt waiting (ths c)"
    using assms(2,3,9,10) by (auto simp: cnt_update nth_append)
  then show ?thesis using assms(1,5-7) h by (auto simp: sockets_ok_def)
qed

lemma sockets_eff:
  assumes eff: "eff pc c pc' c1" and t: "t < length (ths c)" "ths c ! t = pc" and inv: "exclusive c" "phases c" "sockets_ok c"
  shows "sockets_ok (goto t pc' c1)"
proof -
  note al = alone [OF t inv(1,2)] and up = held_update [OF t(1), unfolded t(2)] and at = held_at [OF t(1), unfolded t(2)]
  have ns: "cn c = None \<or> waiting pc \<Longrightarrow> set (sk c) \<subseteq> held (ths c)" using inv(3) al(1) cnt_ge [OF t(1), of waiting] t(2) by (auto simp: sockets_ok_def)
  have [simp]: "held [] = {}" "held (p # ps) = set_option (socket_of p) \<union> held ps" for p ps by (auto simp: held_def)
  from eff show ?thesis
  proof cases
    case moved
    then show ?thesis using sockets_same [OF inv(3) t(1), of c "[]" pc'] move_regions [of pc pc'] t(2) by simp
  next
    case (d_none k)
    then show ?thesis using inv(3) t up [where pc' = "Disconnect k (D_wait None)"] by (fastforce simp: sockets_ok_def)
  next
    case (d_close n k e)
    then show ?thesis using inv(3) t up [where pc' = "Disconnect k (D_wait e)"] by (fastforce simp: sockets_ok_def)
  next
    case (d_wait_close e)
    then show ?thesis using inv(3) t ns up [where pc' = "Closing (C_unacked e)"] by (fastforce simp: sockets_ok_def)
  next
    case (d_wait_re e)
    then show ?thesis using inv(3) t ns up [where pc' = "Re R_capacity"] by (fastforce simp: sockets_ok_def)
  next
    case (k_dial k n)
    let ?h = "held ((ths c)[t := pc'])"
    have "nsk c \<in> ?h" using k_dial t(1) held_at [of t "(ths c)[t := pc']" "nsk c"] by simp
    moreover have "?h \<subseteq> insert (nsk c) (held (ths c))" using up(1) [where pc' = pc'] k_dial by simp
    moreover have "held (ths c) \<subseteq> ?h" using up(2) [where pc' = pc'] k_dial by auto
    moreover have "cnt waiting ((ths c)[t := pc']) = 0" using k_dial al(1) t by (simp add: cnt_update)
    ultimately show ?thesis using k_dial inv(3) unfolding sockets_ok_def by (simp add: subset_iff) (metis less_Suc_eq)
  next
    case (k_drop_header k n e)
    then show ?thesis using inv(3) t al(1) up [where pc' = pc'] by (fastforce simp: sockets_ok_def cnt_update)
  next
    case (k_drop_read k n e)
    then show ?thesis using inv(3) t al(1) up [where pc' = pc'] by (fastforce simp: sockets_ok_def cnt_update)
  next
    case (k_drop_after k n m e)
    then show ?thesis using inv(3) t al(1) up [where pc' = pc'] by (fastforce simp: sockets_ok_def cnt_update)
  next
    case (k_drop_abort k n e' e)
    then show ?thesis using inv(3) t al(1) up [where pc' = pc'] by (fastforce simp: sockets_ok_def cnt_update)
  next
    case (k_drop_closed k n e)
    then show ?thesis using inv(3) t al(1) up [where pc' = pc'] by (fastforce simp: sockets_ok_def cnt_update)
  next
    case (k_spawn k n)
    let ?ts = "(ths c)[t := pc'] @ [Listener L_start, Sender S_start, KeepAlive A_start]"
    have ts: "ths (goto t pc' c1) = ?ts" using k_spawn t(1) by (simp add: list_update_append)
    have "n \<in> held (ths c)" "set (sk c) \<subseteq> held (ths c)" using k_spawn at ns al(4) by simp_all
    moreover have "held ?ts \<subseteq> held (ths c)" using up(1) [where pc' = pc'] k_spawn by (simp add: held_append)
    moreover have "m \<in> held ?ts" if "m \<in> held (ths c)" "m \<noteq> n" for m using up(2) [OF that(1), where pc' = pc'] that(2) k_spawn by (simp add: held_append)
    moreover have "cnt waiting ?ts = 0" using k_spawn al(1) t by (simp add: cnt_update)
    ultimately show ?thesis using k_spawn(3) inv(3) unfolding sockets_ok_def ts by auto
  next
    case (rc_won k)
    then show ?thesis using sockets_same [OF inv(3) t(1), of c1 "[Disconnect ByReconnect D_stop]" pc'] t(2) by simp
  qed (rule sockets_same [OF inv(3) t(1), of _ "[]"]; use t(2) in simp)+
qed

section \<open>Events\<close>

lemma event_ok_Set: "event_ok e P \<Longrightarrow> \<exists>e'. Event_Set e = Some e' \<and> event_ok e' P"
  using event_step_ok [of "\<lparr>es_event = e, es_parked = P\<rparr>" OpSet] by (auto simp: event_ok_def)

lemma event_ok_Clear: "event_ok e P \<Longrightarrow> event_ok (Event_Clear e) P"
  using event_step_ok [of "\<lparr>es_event = e, es_parked = P\<rparr>" OpClear] by (auto simp: event_ok_def)

lemma event_ok_enter: "event_ok e P \<Longrightarrow> WaitFor_enter e = (Some w, e') \<Longrightarrow> event_ok e' (insert w P)"
  using event_step_ok [of "\<lparr>es_event = e, es_parked = P\<rparr>" OpWaitFor] by (auto simp: event_ok_def)

lemma event_ok_wake: "event_ok e P \<Longrightarrow> w \<in> P \<Longrightarrow> chan_readable (ev_chan e w) \<Longrightarrow> event_ok (snd (WaitFor_wake w e)) (P - {w})"
  using event_step_ok [of "\<lparr>es_event = e, es_parked = P\<rparr>" "OpWake w"] by (auto simp: event_ok_def)

lemma event_ok_timeout: "event_ok e P \<Longrightarrow> w \<in> P \<Longrightarrow> event_ok (snd (WaitFor_timeout w e)) (P - {w})"
  using event_step_ok [of "\<lparr>es_event = e, es_parked = P\<rparr>" "OpTimeout w"] by (auto simp: event_ok_def)

lemma parked_same:
  assumes "t < length ts" and "\<And>w. ts ! t \<noteq> KeepAlive (A_parked w)" and "\<And>w. pc' \<noteq> KeepAlive (A_parked w)"
  shows "parked (ts[t := pc']) = parked ts"
  unfolding parked_def using assms
  by (auto simp: in_set_conv_nth nth_list_update) (metis nth_list_update_neq)

lemma parked_append: "parked (ts @ us) = parked ts \<union> parked us"
  by (auto simp: parked_def)

lemma parked_alone:
  assumes "t < length ts" and "cnt pinging ts \<le> 1" and "ts ! t = KeepAlive p"
  shows "parked (ts[t := pc']) = {w. pc' = KeepAlive (A_parked w)}" and "parked ts = {w. p = A_parked w}"
proof -
  have o: "ts ! i \<noteq> KeepAlive q" if "i < length ts" "i \<noteq> t" for i q
  proof
    assume "ts ! i = KeepAlive q"
    then have "1 \<le> cnt pinging (ts[t := Finished])" using cnt_ge [of i "ts[t := Finished]" pinging] that by simp
    then show False using assms by (simp add: cnt_update)
  qed
  show "parked (ts[t := pc']) = {w. pc' = KeepAlive (A_parked w)}"
    unfolding parked_def using assms(1) o by (auto simp: in_set_conv_nth nth_list_update)
  show "parked ts = {w. p = A_parked w}"
    unfolding parked_def using assms(1,3) o by (auto simp: in_set_conv_nth) (metis pc.inject(9))+
qed

lemma events_eff:
  assumes eff: "eff pc c pc' c1" and t: "t < length (ths c)" "ths c ! t = pc" and inv: "exclusive c" "events_ok c"
  shows "events_ok (goto t pc' c1)"
proof -
  have ok: "event_ok (st c) {}" "event_ok (sp c) (parked (ths c))" using inv(2) by (simp_all add: events_ok_def)
  have "cnt pinging (ths c) \<le> 1" using inv(1) by (simp add: exclusive_def)
  note pa = parked_alone [OF t(1) this, unfolded t(2)] and ps = parked_same [OF t(1), unfolded t(2)]
  have [simp]: "parked (p # ps) = {w. p = KeepAlive (A_parked w)} \<union> parked ps" "parked [] = {}" for p ps by (auto simp: parked_def)
  from eff show ?thesis
  proof cases
    case moved
    then show ?thesis using ok ps [of pc'] move_regions [of pc pc'] by (simp add: events_ok_def)
  next
    case (d_stop e k)
    then show ?thesis using ok event_ok_Set [OF ok(2)] ps [of pc'] by (auto simp: events_ok_def)
  next
    case (k_clear k)
    then show ?thesis using ok event_ok_Clear [OF ok(1)] ps [of pc'] by (simp add: events_ok_def)
  next
    case (k_stop k n)
    then show ?thesis using ok event_ok_Clear [OF ok(2)] ps [of pc'] by (simp add: events_ok_def)
  next
    case (k_start e k)
    then show ?thesis using ok event_ok_Set [OF ok(1)] ps [of pc'] by (auto simp: events_ok_def)
  next
    case (k_spawn k n)
    then show ?thesis using ok ps [of pc'] t by (simp add: events_ok_def list_update_append parked_append)
  next
    case (rc_won k)
    then show ?thesis using ok ps [of pc'] t by (simp add: events_ok_def list_update_append parked_append return_to_parked)
  next
    case (rc_lost k)
    then show ?thesis using ok ps [of pc'] by (simp add: events_ok_def return_to_parked)
  next
    case (a_park w e)
    then show ?thesis using ok event_ok_enter [OF ok(2), of w e] pa by (simp add: events_ok_def)
  next
    case (a_wake w)
    then show ?thesis using ok event_ok_wake [OF ok(2), of w] pa by (simp add: events_ok_def)
  next
    case (a_timer w)
    then show ?thesis using ok event_ok_timeout [OF ok(2), of w] pa by (simp add: events_ok_def)
  qed (use ok ps [of pc'] in \<open>simp_all add: events_ok_def\<close>)
qed

section \<open>The invariant\<close>

lemma backoff_bounds:
  assumes "d \<noteq> 0"
  shows "0 < backoff_duration d \<and> backoff_duration d \<le> 86400 * Second"
proof -
  define e where "e = (if d > backoffLimit then backoffLimit else d)"
  have e: "0 < uint e" "uint e \<le> 86400"
    using assms uint_ge_0 [of d] uint_0_iff [of d] by (auto simp: e_def backoffLimit_def word_less_def order_less_le simp del: uint_ge_0)
  have "uint (e * word_of_int Second) = uint e * 1000000000"
    using e by (simp add: uint_word_ariths Second_def uint_word_of_int)
  then have "sint (e * word_of_int Second) = uint e * 1000000000"
    using e by (simp add: sint_uint signed_take_bit_int_eq_self)
  then show ?thesis using e by (simp add: backoff_duration_def e_def [symmetric] Let_def Second_def)
qed

lemma sane_eff:
  assumes "eff pc c pc' c1" and "sane pc"
  shows "sane pc'" and "\<exists>new. ths c1 = ths c @ new \<and> (\<forall>p \<in> set new. sane p)"
  using assms by (cases; use move_regions [of pc pc'] backoff_bounds in simp)+

theorem ctl_inv_step:
  assumes inv: "ctl_inv c" and step: "ctl_step l c c'"
  shows "ctl_inv c'"
  using step
proof cases
  case (thread t pc' c1)
  note i = inv [unfolded ctl_inv_def]
  have s: "sane (ths c ! t)" using i thread(3) by simp
  from sane_eff(2) [OF thread(4) s] obtain new where n: "ths c1 = ths c @ new" "\<forall>p \<in> set new. sane p" by blast
  have "sane p" if "p \<in> set (ths (goto t pc' c1))" for p
    using that set_update_subset_insert [of "ths c1" t pc'] n i sane_eff(1) [OF thread(4) s] by auto
  then show ?thesis
    using i exclusive_eff [OF thread(4,3) refl] phases_eff [OF thread(4,3) refl] shut_eff [OF thread(4,3) refl] sockets_eff [OF thread(4,3) refl]
      events_eff [OF thread(4,3) refl] thread(2)
    unfolding ctl_inv_def by simp
next
  case (app pc)
  note i = inv [unfolded ctl_inv_def]
  have h: "0 < cnt handed_out (ths c)" using app(3) by (auto simp: cnt_pos intro!: bexI [of _ "New N_returned"])
  then have "cnt fresh (ths c) = 0"
    using counts [of "ths c"] i cnt_nonneg [of aborting "ths c"] cnt_nonneg [of fresh "ths c"] by (auto simp: exclusive_def)
  moreover have "pc = Reconnecting FromApp RC_check \<or> pc = Closing C_closing" using app(4) by simp
  ultimately have "exclusive c'" "phases c'" "shut c'"
    using i app(2) h by (elim disjE; simp add: exclusive_def phases_def shut_def)+
  moreover have "held (ths c') = held (ths c)" "parked (ths c') = parked (ths c)" "cnt waiting (ths c') = cnt waiting (ths c)"
    using app(2,4) by (auto simp: held_def parked_def)
  then have "sockets_ok c'" "events_ok c'" using i app(2) by (simp_all add: sockets_ok_def events_ok_def)
  moreover have "\<forall>pc \<in> set (ths c'). sane pc" using i app(2,4) by auto
  ultimately show ?thesis by (simp add: ctl_inv_def)
next
  case still
  then show ?thesis using inv by simp
qed

end
