(* ===== verification/ClientRefines.thy ===== *)
theory ClientRefines
  imports ClientSteps
begin

text \<open>
  The client refines its control skeleton: every step of the client is a step of the skeleton
  on the part the skeleton keeps. With the invariant of the skeleton and that of the fleet of
  buffers this gives the invariant of every reachable state of a client.
\<close>

section \<open>Parts of the state the skeleton does not see\<close>

lemma ctl_of_simps [simp]:
  "ctl_of (setLastError e s) = ctl_of s" "ctl_of (s\<lparr>buffers := f\<rparr>) = ctl_of s"
  "ctl_of (s\<lparr>lifetimes := l\<rparr>) = ctl_of s" "ctl_of (s\<lparr>next_owner := n\<rparr>) = ctl_of s"
  "ctl_of (setReceiptLifetime lt s) = ctl_of s"
  by (simp_all add: ctl_of_def setLastError_def on_client_def closeDone_def setReceiptLifetime_def Let_def split: option.split)

lemma ctl_of_close_socket [simp]: "ctl_of (close_socket n s) = (ctl_of s)\<lparr>sk := filter (\<lambda>k. k \<noteq> n) (sockets s)\<rparr>"
  by (simp add: ctl_of_def close_socket_def closeDone_def)

lemma ctl_of_fields [simp]:
  "mx (ctl_of s) = connMutex (client s)" "rc (ctl_of s) = isReconnecting (client s)" "wgc (ctl_of s) = wg (client s)"
  "cn (ctl_of s) = conn (client s)" "clo (ctl_of s) = isClosing (client s)" "cdone (ctl_of s) = closeDone s" "st (ctl_of s) = isStart (client s)"
  "sp (ctl_of s) = isStop (client s)" "bt (ctl_of s) = backoffTime (client s)" "sk (ctl_of s) = sockets s" "nsk (ctl_of s) = next_socket s"
  "ths (ctl_of s) = threads s"
  by (simp_all add: ctl_of_def)

lemma andThen_Next: "andThen r f = Next y \<longleftrightarrow> (\<exists>x. r = Next x \<and> f x = Next y)"
  by (cases r) simp_all

lemma returned_Next: "returned r = Next y \<longleftrightarrow> r = Some y"
  by (cases r) simp_all

lemma buf_op_ctl: "buf_op opr s = Next (out, s1) \<Longrightarrow> ctl_of s1 = ctl_of s"
  by (auto simp: buf_op_def returned_Next split: option.splits prod.splits)

lemma release_ctl: "ab_releaseReceiptTracking s = Next s1 \<Longrightarrow> ctl_of s1 = ctl_of s"
  by (auto simp: ab_releaseReceiptTracking_def split: option.splits prod.splits)

lemma control_ctl:
  assumes "processControlMessage msg s = Next (r, s1)"
  shows "ctl_of s1 = ctl_of s \<or> r = ControlReturns None \<and> (\<exists>d. ctl_of s1 = (ctl_of s)\<lparr>bt := d\<rparr>)"
proof (cases "verb_of (Verb msg)")
  case ControlMessageBACKOFF
  then have "ctl_of s1 = (ctl_of s)\<lparr>bt := CDuration msg\<rparr>" "r = ControlReturns None"
    using assms by (auto simp: processControlMessage_def ctl_of_def on_client_def closeDone_def)
  then show ?thesis by blast
next
  case ControlMessageACK
  then obtain out s2 where o: "buf_op (AAck (CSeqNum msg)) s = Next (out, s2)"
      "(case out of OAck (Some e) \<Rightarrow> Next (ControlReturns None, setLastError (Some (ErrBuffer e)) s2) | _ \<Rightarrow> Next (ControlReturns None, s2)) = Next (r, s1)"
    using assms unfolding processControlMessage_def by (simp add: andThen_Next) blast
  have "s1 = s2 \<or> (\<exists>e. s1 = setLastError e s2)" using o(2) by (cases out; simp split: option.splits) blast+
  then show ?thesis using buf_op_ctl [OF o(1)] by auto
qed (use assms in \<open>auto simp: processControlMessage_def andThen_Next dest!: buf_op_ctl split: ack_out.splits option.splits\<close>)

section \<open>Every step of a thread\<close>

definition input_ok :: "input \<Rightarrow> bool" where
  "input_ok i \<longleftrightarrow> (case i of Recv msg \<Rightarrow> make_ok (WindowSize msg) | _ \<Rightarrow> True)"

lemma ctl_of_client:
  "ctl_of (on_client (\<lambda>c. c\<lparr>connMutex := m\<rparr>) s) = (ctl_of s)\<lparr>mx := m\<rparr>"
  "ctl_of (on_client (\<lambda>c. c\<lparr>conn := n, connMutex := m\<rparr>) s) = (ctl_of s)\<lparr>cn := n, mx := m\<rparr>"
  "ctl_of (on_client (\<lambda>c. c\<lparr>isReconnecting := v\<rparr>) s) = (ctl_of s)\<lparr>rc := v\<rparr>"
  "ctl_of (on_client (\<lambda>c. c\<lparr>isClosing := True\<rparr>) s) = (ctl_of s)\<lparr>clo := True\<rparr>"
  "ctl_of (on_client (\<lambda>c. c\<lparr>isStop := f c\<rparr>) s) = (ctl_of s)\<lparr>sp := f (client s)\<rparr>"
  "ctl_of (on_client (\<lambda>c. c\<lparr>isStart := f c\<rparr>) s) = (ctl_of s)\<lparr>st := f (client s)\<rparr>"
  "ctl_of (on_client (\<lambda>c. c\<lparr>backoffTime := d\<rparr>) s) = (ctl_of s)\<lparr>bt := d\<rparr>"
  "ctl_of (on_client (\<lambda>c. c\<lparr>wg := wg c - 1\<rparr>) s) = (ctl_of s)\<lparr>wgc := wg (client s) - 1\<rparr>"
  "ctl_of (on_client (\<lambda>c. c\<lparr>conn := n, wg := wg c + 3\<rparr>) s) = (ctl_of s)\<lparr>cn := n, wgc := wg (client s) + 3\<rparr>"
  "ctl_of (spawn ps s) = (ctl_of s)\<lparr>ths := threads s @ ps\<rparr>"
  "ctl_of (s\<lparr>sockets := ks, next_socket := k\<rparr>) = (ctl_of s)\<lparr>sk := ks, nsk := k\<rparr>"
  "closeCtx (client s) \<noteq> None \<Longrightarrow> ctl_of (cancelCloseCtx s) = (ctl_of s)\<lparr>cdone := True\<rparr>"
  by (auto simp: ctl_of_def on_client_def closeDone_def spawn_def cancelCloseCtx_def)

lemma on_client_fields [simp]: "threads (on_client f s) = threads s" "client (on_client f s) = f (client s)" "sockets (on_client f s) = sockets s"
  by (simp_all add: on_client_def)

lemmas eff_intros = move.intros [THEN eff.moved] eff.intros(2-) [where c = "ctl_of s" for s, simplified ctl_of_fields]

lemma sp_same: "(ctl_of s)\<lparr>sp := isStop (client s)\<rparr> = ctl_of s"
  by (simp add: ctl_of_def)

lemma bt_same: "backoffTime (client s) = 0 \<Longrightarrow> (ctl_of s)\<lparr>bt := 0\<rparr> = ctl_of s"
  by (simp add: ctl_of_def)

lemma Reconnect_eff: "Reconnect_step k p s = Next (pc', s1) \<Longrightarrow> eff (Reconnecting k p) (ctl_of s) pc' (ctl_of s1)"
  by (cases p) (auto simp: ctl_of_client split: if_splits intro: eff_intros)

lemma reconnect_eff: "reconnect_step p i s = Next (pc', s1) \<Longrightarrow> eff (Re p) (ctl_of s) pc' (ctl_of s1)"
  by (cases p) (auto simp: ctl_of_client andThen_Next dest!: buf_op_ctl split: if_splits input.splits intro: eff_intros)

lemma Close_eff: "Close_step p s = Next (pc', s1) \<Longrightarrow> closeCtx (client s) \<noteq> None \<Longrightarrow> eff (Closing p) (ctl_of s) pc' (ctl_of s1)"
  by (cases p) (auto simp: ctl_of_client andThen_Next dest!: buf_op_ctl release_ctl intro: eff_intros)

lemma New_eff: "New_step p s = Next (pc', s1) \<Longrightarrow> closeCtx (client s) \<noteq> None \<Longrightarrow> eff (New p) (ctl_of s) pc' (ctl_of s1)"
  by (cases p) (auto simp: ctl_of_client andThen_Next dest!: buf_op_ctl intro: eff_intros)

lemma disconnect_eff: "disconnect_step k p i s = Next (pc', s1) \<Longrightarrow> eff (Disconnect k p) (ctl_of s) pc' (ctl_of s1)"
proof (cases p)
  case D_stop
  then show "disconnect_step k p i s = Next (pc', s1) \<Longrightarrow> ?thesis"
    using d_stop [of "ctl_of s" _ k] by (auto simp: ctl_of_client andThen_Next returned_Next)
next
  case D_close
  then show "disconnect_step k p i s = Next (pc', s1) \<Longrightarrow> ?thesis"
    using d_none [of "ctl_of s" k] d_close [of "ctl_of s" _ k] by (auto split: option.splits input.splits)
next
  case (D_wait e)
  then show "disconnect_step k p i s = Next (pc', s1) \<Longrightarrow> ?thesis"
    by (cases k) (auto simp: ctl_of_client Let_def split: if_splits intro: eff_intros)
qed (auto simp: ctl_of_client split: if_splits intro: eff_intros)

lemma exit_eff: "exit_step s = Next (pc', s1) \<Longrightarrow> eff Exit (ctl_of s) pc' (ctl_of s1)"
  using w_exit [of "ctl_of s"] by (auto simp: exit_step_def ctl_of_client split: if_splits)

lemma listener_eff: "listener_step p i s = Next (pc', s1) \<Longrightarrow> input_ok i \<Longrightarrow> eff (Listener p) (ctl_of s) pc' (ctl_of s1)"
proof (cases p)
  case (L_process m)
  assume "listener_step p i s = Next (pc', s1)"
  then obtain r where r: "processControlMessage m s = Next (r, s1)" "pc' = (case r of ControlReturns _ \<Rightarrow> Listener L_loop | _ \<Rightarrow> Reconnecting FromListener RC_check)"
    using L_process control_result.exhaust by (auto simp: andThen_Next split: control_result.splits)
  from control_ctl [OF r(1)] r(2) show ?thesis
    unfolding L_process by (auto split: control_result.splits intro: eff_intros)
qed (auto simp: input_ok_def use_conn_def Event_Wait_def Event_IsSet_def split: if_splits input.splits intro: eff_intros)

lemma sender_eff: "sender_step p i s = Next (pc', s1) \<Longrightarrow> eff (Sender p) (ctl_of s) pc' (ctl_of s1)"
proof (cases p)
  case S_backoff
  then show "sender_step p i s = Next (pc', s1) \<Longrightarrow> ?thesis"
    using s_free [of "ctl_of s"] s_back [of "ctl_of s"] by (auto simp: ctl_of_client Let_def bt_same split: if_splits)
next
  case (S_wait d)
  then show "sender_step p i s = Next (pc', s1) \<Longrightarrow> ?thesis"
    by (auto simp: waitBackoff_def andThen_Next split: if_splits input.splits intro: eff_intros)
next
  case S_next
  assume "sender_step p i s = Next (pc', s1)"
  then obtain sig out s2 where o: "buf_op (ADeliver sig) s = Next (out, s2)"
      "(case out of OMsg (Some m) \<Rightarrow> Next (Sender (S_send m), s2) | _ \<Rightarrow> Next (Sender S_loop, s2)) = Next (pc', s1)"
    unfolding S_next by (cases i; simp add: andThen_Next) blast
  have "s1 = s2 \<and> (pc' = Sender S_loop \<or> (\<exists>m. pc' = Sender (S_send m)))" using o(2) by (cases out; simp split: option.splits) blast+
  then show ?thesis using buf_op_ctl [OF o(1)] unfolding S_next by (auto intro: eff_intros)
qed (auto simp: use_conn_def Event_Wait_def Event_IsSet_def andThen_Next split: if_splits input.splits intro: eff_intros)

lemma keepAlive_eff: "keepAlive_step p i s = Next (pc', s1) \<Longrightarrow> eff (KeepAlive p) (ctl_of s) pc' (ctl_of s1)"
proof (cases p)
  case A_enter
  then show "keepAlive_step p i s = Next (pc', s1) \<Longrightarrow> ?thesis"
    using a_park [of "ctl_of s"] a_stop [of "ctl_of s"]
    by (auto simp: ctl_of_client WaitFor_enter_def Let_def sp_same split: if_splits)
next
  case (A_parked w)
  then show "keepAlive_step p i s = Next (pc', s1) \<Longrightarrow> ?thesis"
    using a_wake [of "ctl_of s" w] a_timer [of w "ctl_of s"]
    by (auto simp: ctl_of_client split: if_splits input.splits)
qed (auto simp: use_conn_def Event_Wait_def split: if_splits input.splits intro: eff_intros)

lemma connect_failed_Next: "connect_failed k e s = Next (pc', s1) \<longleftrightarrow> pc' = Connect k (K_fail e) \<and> s1 = setLastError (Some e) s"
  by (auto simp: connect_failed_def)

lemma connect_process_eff:
  assumes "connect_step k (K_process n m) i s = Next (pc', s1)"
  shows "eff (Connect k (K_process n m)) (ctl_of s) pc' (ctl_of s1)"
proof -
  from assms obtain r s2 where r: "processControlMessage m s = Next (r, s2)"
    "(case r of ControlReturns None \<Rightarrow> Next (Connect k (K_check2 n), s2) | ControlReturns (Some e) \<Rightarrow> Next (Connect k (K_abort n e), s2)
      | ControlReconnects \<Rightarrow> Next (Reconnecting (FromConnect k n) RC_check, s2)) = Next (pc', s1)"
    by (simp add: andThen_Next) blast
  from control_ctl [OF r(1)] r(2) show ?thesis
    by (cases r) (auto split: option.splits intro: eff_intros)
qed

lemma connect_eff:
  assumes "connect_step k p i s = Next (pc', s1)" and "input_ok i"
  shows "eff (Connect k p) (ctl_of s) pc' (ctl_of s1)"
proof (cases p)
  case (K_process n m)
  then show ?thesis using assms connect_process_eff by simp
next
  case K_clear
  then show ?thesis using assms k_clear [of k "ctl_of s"] by (auto simp: ctl_of_client)
next
  case (K_stop n)
  then show ?thesis using assms k_stop [of k n "ctl_of s"] by (auto simp: ctl_of_client)
next
  case K_before
  then show ?thesis using assms by (cases k) (auto simp: ctl_of_client intro: eff_intros)
next
  case K_start
  then show ?thesis using assms k_start [of "ctl_of s" _ k] by (auto simp: ctl_of_client andThen_Next returned_Next)
next
  case K_unlock
  then show ?thesis using assms by (cases k) (auto simp: ctl_of_client intro: eff_intros)
next
  case (K_fail e)
  then show ?thesis using assms by (cases k) (auto simp: ctl_of_client intro: eff_intros)
next
  case (K_read n)
  then show ?thesis using assms by (auto simp: connect_failed_Next input_ok_def split: input.splits intro: eff_intros)
next
  case (K_spawn n)
  then show ?thesis using assms k_spawn [of k n "ctl_of s"] by (auto simp: ctl_of_client)
next
  case (K_dial n)
  then show ?thesis using assms k_dial [of k n "ctl_of s"]
    by (auto simp: ctl_of_client connect_failed_Next split: input.splits if_splits intro: eff_intros)
qed (use assms in \<open>auto simp: ctl_of_client connect_failed_Next split: input.splits if_splits sum.splits intro: eff_intros\<close>)

lemma pc_eff:
  assumes "pc_step pc i s = Next (pc', s1)" and "input_ok i" and "closeCtx (client s) \<noteq> None"
  shows "eff pc (ctl_of s) pc' (ctl_of s1)"
  using assms Reconnect_eff reconnect_eff Close_eff New_eff disconnect_eff exit_eff listener_eff sender_eff keepAlive_eff connect_eff
  by (cases pc) auto

section \<open>Every step of the client\<close>

fun label :: "action \<Rightarrow> nat option" where
  "label (Run t _) = Some t"
| "label _ = None"

lemma bind_ctl: "ctl_of (snd (bindReceipt cell s)) = ctl_of s"
  by (auto simp: bindReceipt_def admissionReceiptOwner_def ctl_of_def on_client_def closeDone_def Let_def split: option.splits prod.splits)

lemma out_Next:
  "(case out of OAdd r \<Rightarrow> Next (r, s) | _ \<Rightarrow> Panic) = Next y \<longleftrightarrow> (\<exists>r. out = OAdd r \<and> y = (r, s))"
  "(case out of ODrain d \<Rightarrow> Next (d, s) | _ \<Rightarrow> Panic) = Next y' \<longleftrightarrow> (\<exists>d. out = ODrain d \<and> y' = (d, s))"
  by (cases out; auto)+

lemma app_ctl:
  "Ship msg sz w s = Next (r, s1) \<Longrightarrow> ctl_of s1 = ctl_of s"
  "ShipWithReceiptOptions msg sz w cell lim s = Next (r, s1) \<Longrightarrow> ctl_of s1 = ctl_of s"
  "Ship_timeout s = Next (r, s1) \<Longrightarrow> ctl_of s1 = ctl_of s"
  "Ship_return w s = Next s1 \<Longrightarrow> ctl_of s1 = ctl_of s"
  "BeginDrain s = Next s1 \<Longrightarrow> ctl_of s1 = ctl_of s"
  "DrainContext s = Next s1 \<Longrightarrow> ctl_of s1 = ctl_of s"
  "DrainContext_iteration e s = Next (d, s1) \<Longrightarrow> ctl_of s1 = ctl_of s"
  by (auto simp: Ship_def ShipWithReceiptOptions_def Ship_timeout_def Ship_return_def BeginDrain_def DrainContext_def DrainContext_iteration_def andThen_Next
      out_Next dest!: buf_op_ctl split: if_splits option.splits)

lemma act_ctl:
  assumes "act a s = Next s'" and "action_pre a s" and "closeCtx (client s) \<noteq> None"
  shows "ctl_step (label a) (ctl_of s) (ctl_of s')"
proof (cases a)
  case (Run t i)
  then obtain pc' s1 where r: "t < length (threads s)" "pc_step (threads s ! t) i s = Next (pc', s1)" "s' = s1\<lparr>threads := (threads s1)[t := pc']\<rparr>"
    using assms(1) by (auto simp: andThen_Next split: if_splits)
  have "input_ok i" using assms(2) Run by (simp add: input_ok_def)
  from thread [OF _ pc_eff [OF r(2) this assms(3), folded ctl_of_fields(12)]] r(1)
  have "ctl_step (Some t) (ctl_of s) (goto t pc' (ctl_of s1))" by simp
  moreover have "ctl_of s' = goto t pc' (ctl_of s1)" by (simp add: r(3) goto_def ctl_of_def closeDone_def)
  ultimately show ?thesis using Run by simp
next
  case AppReconnect
  then show ?thesis using assms app [of "ctl_of s"] by (auto simp: ctl_of_client)
next
  case AppClose
  then show ?thesis using assms app [of "ctl_of s"] by (auto simp: ctl_of_client)
next
  case (AppBind cell)
  then show ?thesis using assms still [of "ctl_of s"] by (auto simp: bind_ctl)
next
  case (Other opr)
  then show ?thesis using assms still [of "ctl_of s"] by (auto simp: andThen_Next)
qed (use assms still [of "ctl_of s"] app_ctl in \<open>auto simp: andThen_Next\<close>)

end
