(* ===== verification/Spec2Isabelle.thy ===== *)
theory Spec2Isabelle
  imports ReceiptProps ProtocolProps ClientRefines
begin

text \<open>Verification of the USP client.\<close>

end
